(* ===== verification/Prelude.thy ===== *)
theory Prelude
  imports
    Complex_Main
    "HOL-Library.AList"
    "HOL-Library.Char_ord"
    "HOL-Library.List_Lexorder"
    "HOL-Library.Sublist"
begin

text \<open>
  What the component theories share: the exceptions the code can raise, Python dictionaries as
  association lists with insertion order, the string methods the code calls (\<open>split\<close>, \<open>join\<close>,
  \<open>rstrip\<close>, \<open>find\<close>) and the generic lemmas about them.

  A Python \<open>str\<close> is a \<^typ>\<open>string\<close>: a list of characters with code points below 256. Times and
  durations (Python floats) are \<^typ>\<open>real\<close> numbers.
\<close>

section \<open>Collections of rewrite rules\<close>

named_theorems str_simps \<open>string methods\<close>
named_theorems dict_simps \<open>dictionary lookups and updates\<close>

section \<open>Exceptions\<close>

text \<open>
  A call that can raise returns \<open>exn + 'a\<close>: \<^const>\<open>Inl\<close> carries the exception.
\<close>

datatype exn =
    ValueError string
  | KeyError string
  | IndexError
  | OverflowError
  | RuntimeError string
  | OSError string
  | ConfigError string
  | InotifyLimitError int int \<comment> \<open>\<open>needed\<close> and \<open>available\<close>\<close>
  | AssertionError

type_synonym 'a res = "exn + 'a"

definition bind_res :: "'a res \<Rightarrow> ('a \<Rightarrow> 'b res) \<Rightarrow> 'b res" where
  "bind_res m f = (case m of Inl e \<Rightarrow> Inl e | Inr x \<Rightarrow> f x)"

lemma bind_res_simps [simp]:
  "bind_res (Inl e) f = Inl e"
  "bind_res (Inr x) f = f x"
  by (simp_all add: bind_res_def)

lemma bind_res_eq_Inr: "bind_res m f = Inr y \<longleftrightarrow> (\<exists>x. m = Inr x \<and> f x = Inr y)"
  by (cases m) auto

text \<open>A list comprehension whose body can raise: the first exception wins.\<close>

fun map_res :: "('a \<Rightarrow> 'b res) \<Rightarrow> 'a list \<Rightarrow> 'b list res" where
  "map_res f [] = Inr []"
| "map_res f (x # xs) = bind_res (f x) (\<lambda>y. bind_res (map_res f xs) (\<lambda>ys. Inr (y # ys)))"

lemma map_res_Inr: "(\<And>x. x \<in> set xs \<Longrightarrow> f x = Inr (g x)) \<Longrightarrow> map_res f xs = Inr (map g xs)"
  by (induction xs) auto

lemma map_res_InrD: "map_res f xs = Inr ys \<Longrightarrow> length ys = length xs \<and> (\<forall>i < length xs. f (xs ! i) = Inr (ys ! i))"
proof (induction xs arbitrary: ys)
  case (Cons x xs)
  then obtain y zs where y: "f x = Inr y" "map_res f xs = Inr zs" "ys = y # zs"
    by (auto simp: bind_res_eq_Inr)
  with Cons.IH [OF y(2)] show ?case
    by (auto simp: nth_Cons split: nat.splits)
qed simp

lemma map_res_split:
  "case map_res f xs of
     Inr ys \<Rightarrow> list_all2 (\<lambda>x y. f x = Inr y) xs ys
   | Inl e \<Rightarrow> \<exists>us x vs. xs = us @ x # vs \<and> f x = Inl e \<and> (\<forall>u \<in> set us. \<exists>y. f u = Inr y)"
proof (induction xs)
  case (Cons x xs)
  show ?case
  proof (cases "f x")
    case (Inl e)
    then show ?thesis by (auto intro!: exI [of _ "[]"])
  next
    case (Inr y)
    show ?thesis
    proof (cases "map_res f xs")
      case (Inl e)
      with Cons.IH obtain us z vs where "xs = us @ z # vs" "f z = Inl e" "\<forall>u \<in> set us. \<exists>y. f u = Inr y" by auto
      with Inr Inl show ?thesis by (auto intro!: exI [of _ "x # us"])
    next
      case Inr': (Inr ys)
      with Cons.IH Inr show ?thesis by simp
    qed
  qed
qed simp

section \<open>Dictionaries\<close>

text \<open>
  A dict is an association list in insertion order. \<^const>\<open>AList.update\<close> is \<open>d[k] = v\<close>: it keeps
  the position of an existing key and appends a new one.
\<close>

type_synonym ('k, 'v) pydict = "('k \<times> 'v) list"

definition dict_of :: "('k \<times> 'v) list \<Rightarrow> ('k, 'v) pydict" where
  \<comment> \<open>\<open>{k: v for k, v in kvs}\<close>: a later value replaces an earlier one\<close>
  "dict_of kvs = fold (\<lambda>(k, v) d. AList.update k v d) kvs []"

definition dict_keys :: "('k, 'v) pydict \<Rightarrow> 'k list" where
  "dict_keys d = map fst d"

lemma map_of_fold_update:
  "map_of (fold (\<lambda>(k, v) d. AList.update k v d) kvs d) k =
     (case map_of (rev kvs) k of None \<Rightarrow> map_of d k | Some v \<Rightarrow> Some v)"
  by (induction kvs arbitrary: d)
     (auto simp: update_conv' map_add_def split: option.splits)

lemma map_of_dict_of [dict_simps]: "map_of (dict_of kvs) k = map_of (rev kvs) k"
  by (simp add: dict_of_def map_of_fold_update split: option.splits)

lemma distinct_fold_update:
  "distinct (map fst d) \<Longrightarrow> distinct (map fst (fold (\<lambda>(k, v) d. AList.update k v d) kvs d))"
  by (induction kvs arbitrary: d) (auto simp: distinct_update)

lemma distinct_keys_dict_of [dict_simps]: "distinct (dict_keys (dict_of kvs))"
  by (simp add: dict_of_def dict_keys_def distinct_fold_update)

lemma set_keys_update [dict_simps]:
  "set (dict_keys (AList.update k v d)) = insert k (set (dict_keys d))"
  by (simp add: dict_keys_def dom_update)

section \<open>First occurrences\<close>

fun keep_first :: "'a list \<Rightarrow> 'a list \<Rightarrow> 'a list" where
  \<comment> \<open>the elements not in \<open>seen\<close>, each at its first occurrence\<close>
  "keep_first seen [] = []"
| "keep_first seen (x # xs) =
     (if List.member seen x then keep_first seen xs else x # keep_first (x # seen) xs)"

lemma set_keep_first [simp]: "set (keep_first seen xs) = set xs - set seen"
  by (induction seen xs rule: keep_first.induct) auto

lemma distinct_keep_first [simp]: "distinct (keep_first seen xs)"
  by (induction seen xs rule: keep_first.induct) auto

section \<open>String methods\<close>

fun split_on :: "char \<Rightarrow> string \<Rightarrow> string list" where
  \<comment> \<open>\<open>s.split(c)\<close>\<close>
  "split_on c [] = [[]]"
| "split_on c (x # xs) =
     (if x = c then [] # split_on c xs
      else (case split_on c xs of [] \<Rightarrow> [[x]] | w # ws \<Rightarrow> (x # w) # ws))"

fun join_with :: "string \<Rightarrow> string list \<Rightarrow> string" where
  \<comment> \<open>\<open>sep.join(parts)\<close>\<close>
  "join_with sep [] = []"
| "join_with sep [w] = w"
| "join_with sep (w # v # ws) = w @ sep @ join_with sep (v # ws)"

definition rstrip_char :: "char \<Rightarrow> string \<Rightarrow> string" where
  \<comment> \<open>\<open>s.rstrip(c)\<close>\<close>
  "rstrip_char c s = rev (dropWhile (\<lambda>x. x = c) (rev s))"

definition hex_digit :: "nat \<Rightarrow> char" where
  "hex_digit n = char_of (if n < 10 then n + 48 else n + 87)"

definition repr_char :: "char \<Rightarrow> char \<Rightarrow> string" where
  "repr_char q c =
     (let n = (of_char c :: nat) in
        if c = q \<or> c = CHR 0x5C then [CHR 0x5C, c]
        else if n = 9 then [CHR 0x5C, CHR ''t''] else if n = 10 then [CHR 0x5C, CHR ''n'']
        else if n = 13 then [CHR 0x5C, CHR ''r'']
        else if n < 32 \<or> (127 \<le> n \<and> n \<le> 160) \<or> n = 173
        then [CHR 0x5C, CHR ''x'', hex_digit (n div 16), hex_digit (n mod 16)]
        else [c])"

definition py_repr :: "string \<Rightarrow> string" where
  \<comment> \<open>\<open>repr(s)\<close>: in double quotes when there is an apostrophe and no double quote\<close>
  "py_repr s =
     (let q = (if CHR 0x27 \<in> set s \<and> CHR 0x22 \<notin> set s then CHR 0x22 else CHR 0x27)
      in [q] @ concat (map (repr_char q) s) @ [q])"

lemma split_on_nonempty [simp]: "split_on c s \<noteq> []"
  by (induction s) (auto split: list.splits)

lemma join_with_Cons: "ws \<noteq> [] \<Longrightarrow> join_with sep (w # ws) = w @ sep @ join_with sep ws"
  by (cases ws) auto

lemma join_with_Cons_Cons: "join_with sep ((x # w) # ws) = x # join_with sep (w # ws)"
  by (cases ws) auto

lemma join_split_on [str_simps]: "join_with [c] (split_on c s) = s"
proof (induction s)
  case (Cons x xs)
  obtain w ws where "split_on c xs = w # ws"
    by (cases "split_on c xs") auto
  with Cons show ?case
    by (auto simp: join_with_Cons join_with_Cons_Cons)
qed simp

lemma split_on_no_sep: "w \<in> set (split_on c s) \<Longrightarrow> c \<notin> set w"
proof (induction s arbitrary: w)
  case (Cons x xs)
  show ?case
  proof (cases "x = c")
    case True
    with Cons show ?thesis by auto
  next
    case False
    obtain v vs where v: "split_on c xs = v # vs"
      by (cases "split_on c xs") auto
    with False Cons.prems have "w = x # v \<or> w \<in> set vs" by auto
    with v False Cons.IH show ?thesis by auto
  qed
qed simp

lemma split_on_single: "c \<notin> set s \<Longrightarrow> split_on c s = [s]"
  by (induction s) auto

lemma split_on_append: "c \<notin> set w \<Longrightarrow> split_on c (w @ c # s) = w # split_on c s"
  by (induction w) auto

lemma split_join [str_simps]:
  "ws \<noteq> [] \<Longrightarrow> (\<forall>w \<in> set ws. c \<notin> set w) \<Longrightarrow> split_on c (join_with [c] ws) = ws"
proof (induction ws rule: induct_list012)
  case (3 w v ws)
  then show ?case by (simp add: split_on_append)
qed (auto simp: split_on_single)

lemma join_with_inj:
  assumes "\<forall>w \<in> set ws. c \<notin> set w" "\<forall>w \<in> set vs. c \<notin> set w" "ws \<noteq> []" "vs \<noteq> []"
    and "join_with [c] ws = join_with [c] vs"
  shows "ws = vs"
  using split_join [OF assms(3,1)] split_join [OF assms(4,2)] assms(5) by metis

lemma rstrip_char_last: "rstrip_char c s \<noteq> [] \<Longrightarrow> last (rstrip_char c s) \<noteq> c"
  using hd_dropWhile [of "\<lambda>x. x = c" "rev s"] by (auto simp: rstrip_char_def last_rev)

lemma rstrip_char_decomp: "\<exists>n. s = rstrip_char c s @ replicate n c"
proof -
  let ?P = "\<lambda>x. x = c"
  have "takeWhile ?P (rev s) = replicate (length (takeWhile ?P (rev s))) c"
    by (rule replicate_eqI) (auto dest: set_takeWhileD)
  then have "rev s = replicate (length (takeWhile ?P (rev s))) c @ dropWhile ?P (rev s)"
    by (metis takeWhile_dropWhile_id)
  then have "s = rev (dropWhile ?P (rev s)) @ replicate (length (takeWhile ?P (rev s))) c"
    by (metis rev_append rev_replicate rev_rev_ident)
  then show ?thesis by (auto simp: rstrip_char_def)
qed

lemma rstrip_char_idem: "rstrip_char c (rstrip_char c s) = rstrip_char c s"
  by (simp add: rstrip_char_def dropWhile_idem)

section \<open>Stable sorting and first matches\<close>

text \<open>
  \<open>sorted(xs, key=f)\<close> is stable, as \<^const>\<open>sort_key\<close> is. The head of the sorted list is the
  first of the elements with the least key.
\<close>

lemma hd_sort_key_split:
  "ys \<noteq> [] \<Longrightarrow> \<exists>as bs. ys = as @ hd (sort_key f ys) # bs \<and>
     (\<forall>a \<in> set as. f (hd (sort_key f ys)) < f a) \<and> (\<forall>b \<in> set bs. f (hd (sort_key f ys)) \<le> f b)"
  for f :: "'a \<Rightarrow> 'b::linorder"
proof (induction ys)
  case (Cons y ys)
  show ?case
  proof (cases "ys = []")
    case False
    define x where "x = hd (sort_key f ys)"
    obtain zs where zs: "sort_key f ys = x # zs"
      using False by (cases "sort_key f ys") (auto simp: x_def dest: arg_cong [of _ _ length])
    obtain as bs where ab: "ys = as @ x # bs" "\<forall>a \<in> set as. f x < f a" "\<forall>b \<in> set bs. f x \<le> f b"
      using Cons.IH [OF False] by (auto simp: x_def)
    show ?thesis
    proof (cases "f y \<le> f x")
      case True
      with zs have "hd (sort_key f (y # ys)) = y" by simp
      moreover have "\<forall>b \<in> set ys. f y \<le> f b" using True ab by force
      ultimately show ?thesis by (intro exI [of _ "[]"] exI [of _ ys]) simp
    next
      case F: False
      with zs have "hd (sort_key f (y # ys)) = x" by simp
      then show ?thesis
        using F ab by (intro exI [of _ "y # as"] exI [of _ bs]) auto
    qed
  next
    case True
    then show ?thesis by (intro exI [of _ "[]"] exI [of _ "[]"]) simp
  qed
qed simp

lemma filter_eq_split:
  "filter P xs = as @ x # bs \<Longrightarrow>
     \<exists>us vs. xs = us @ x # vs \<and> filter P us = as \<and> filter P vs = bs \<and> P x"
proof (induction xs arbitrary: as)
  case (Cons y ys)
  show ?case
  proof (cases "P y \<and> as = []")
    case True
    with Cons.prems show ?thesis by (intro exI [of _ "[]"] exI [of _ ys]) auto
  next
    case False
    with Cons.prems obtain as' where as': "as = (if P y then [y] else []) @ as'" "filter P ys = as' @ x # bs"
      by (cases "P y"; cases as) auto
    from Cons.IH [OF as'(2)] obtain us vs where
      "ys = us @ x # vs" "filter P us = as'" "filter P vs = bs" "P x" by blast
    with as'(1) show ?thesis by (intro exI [of _ "y # us"] exI [of _ vs]) auto
  qed
qed simp

lemma find_filter: "List.find P xs = (case filter P xs of [] \<Rightarrow> None | x # _ \<Rightarrow> Some x)"
  by (induction xs) auto

lemma find_sort_key_Some:
  assumes "List.find P (sort_key f xs) = Some x"
  shows "\<exists>us vs. xs = us @ x # vs \<and> P x \<and> (\<forall>u \<in> set us. P u \<longrightarrow> f x < f u) \<and>
    (\<forall>v \<in> set vs. P v \<longrightarrow> f x \<le> f v)"
proof -
  from assms have ne: "filter P xs \<noteq> []" and x: "x = hd (sort_key f (filter P xs))"
    by (auto simp: find_filter filter_sort split: list.splits dest: arg_cong [of _ _ length])
  from hd_sort_key_split [OF ne, of f] obtain as bs where
    ab: "filter P xs = as @ x # bs" "\<forall>a \<in> set as. f x < f a" "\<forall>b \<in> set bs. f x \<le> f b"
    by (auto simp: x)
  from filter_eq_split [OF ab(1)] show ?thesis
    using ab(2,3) by force
qed

end
