(* ===== verification/Posix_Path.thy ===== *)
theory Posix_Path
  imports Prelude
begin

text \<open>
  The part of \<open>pathlib.PurePosixPath\<close> that the watcher, the filter, the mapper and the loader use:
  a path is its anchor (empty, one slash or two slashes) and its components. \<open>Path(s)\<close> is
  \<open>parse_path\<close>, \<open>str(p)\<close> and \<open>p.as_posix()\<close> are \<open>path_str\<close>, \<open>p.parts\<close> is \<open>parts\<close>,
  \<open>p / name\<close> is \<open>child\<close>, and \<open>relative_to\<close> gives \<^const>\<open>None\<close> where Python raises ValueError.
\<close>

section \<open>Paths\<close>

record path =
  anchor :: string
  comps :: "string list"

definition parts :: "path \<Rightarrow> string list" where
  "parts p = (if anchor p = [] then comps p else anchor p # comps p)"

definition relative_to :: "path \<Rightarrow> path \<Rightarrow> path option" where
  "relative_to p q =
     (if anchor p = anchor q \<and> take (length (comps q)) (comps p) = comps q
      then Some \<lparr>anchor = [], comps = drop (length (comps q)) (comps p)\<rparr>
      else None)"

definition child :: "path \<Rightarrow> string \<Rightarrow> path" where
  "child p n = p\<lparr>comps := comps p @ [n]\<rparr>"

definition descendant :: "path \<Rightarrow> string list \<Rightarrow> path" where
  "descendant p ns = p\<lparr>comps := comps p @ ns\<rparr>"

definition parent :: "path \<Rightarrow> path" where
  "parent p = p\<lparr>comps := butlast (comps p)\<rparr>"

definition path_str :: "path \<Rightarrow> string" where
  "path_str p =
     (if anchor p \<noteq> [] then anchor p @ join_with ''/'' (comps p)
      else if comps p = [] then ''.'' else join_with ''/'' (comps p))"

definition split_root :: "string \<Rightarrow> string \<times> string" where
  \<comment> \<open>\<open>posixpath.splitroot\<close> without the drive: exactly two leading slashes stay together\<close>
  "split_root s =
     (if take 1 s \<noteq> ''/'' then ([], s)
      else if take 1 (drop 1 s) \<noteq> ''/'' \<or> take 1 (drop 2 s) = ''/'' then (''/'', drop 1 s)
      else (take 2 s, drop 2 s))"

definition keep_comp :: "string \<Rightarrow> bool" where
  "keep_comp c \<longleftrightarrow> c \<noteq> [] \<and> c \<noteq> ''.''"

definition parse_path :: "string \<Rightarrow> path" where
  "parse_path s = (case split_root s of (r, rel) \<Rightarrow>
     \<lparr>anchor = r, comps = filter keep_comp (split_on CHR ''/'' rel)\<rparr>)"

text \<open>The paths pathlib can build: every component is kept by the parser and holds no slash.\<close>

definition good_comp :: "string \<Rightarrow> bool" where
  "good_comp c \<longleftrightarrow> keep_comp c \<and> CHR ''/'' \<notin> set c"

definition wf_path :: "path \<Rightarrow> bool" where
  "wf_path p \<longleftrightarrow> anchor p \<in> {[], ''/'', ''//''} \<and> (\<forall>c \<in> set (comps p). good_comp c)"

section \<open>Relative paths\<close>

lemma relative_to_Some_iff:
  "relative_to p q = Some r \<longleftrightarrow> anchor r = [] \<and> p = descendant q (comps r)"
proof
  assume *: "relative_to p q = Some r"
  then have a: "anchor p = anchor q" and t: "take (length (comps q)) (comps p) = comps q"
    and r: "r = \<lparr>anchor = [], comps = drop (length (comps q)) (comps p)\<rparr>"
    by (auto simp: relative_to_def split: if_splits)
  from r have "anchor r = []" by simp
  moreover from t have "comps p = comps q @ comps r"
    using append_take_drop_id [of "length (comps q)" "comps p"] r by simp
  ultimately show "anchor r = [] \<and> p = descendant q (comps r)"
    using a by (simp add: descendant_def path.equality)
next
  assume "anchor r = [] \<and> p = descendant q (comps r)"
  then show "relative_to p q = Some r"
    by (auto simp: relative_to_def descendant_def)
qed

lemma relative_to_None_iff: "relative_to p q = None \<longleftrightarrow> (\<forall>ns. p \<noteq> descendant q ns)"
proof -
  have "(\<exists>r. relative_to p q = Some r) \<longleftrightarrow> (\<exists>ns. p = descendant q ns)"
    unfolding relative_to_Some_iff
    by (metis path.select_convs(1,2))
  then show ?thesis by auto
qed

lemma relative_to_descendant [simp]:
  "relative_to (descendant p ns) p = Some \<lparr>anchor = [], comps = ns\<rparr>"
  by (simp add: relative_to_Some_iff)

lemma descendant_Nil [simp]: "descendant p [] = p"
  by (simp add: descendant_def)

lemma child_descendant [simp]: "child (descendant p ns) n = descendant p (ns @ [n])"
  by (simp add: child_def descendant_def)

lemma child_as_descendant: "child p n = descendant p [n]"
  by (simp add: child_def descendant_def)

lemma descendant_descendant [simp]: "descendant (descendant p ns) ms = descendant p (ns @ ms)"
  by (simp add: descendant_def)

lemma descendant_inject [simp]: "descendant p ns = descendant p ms \<longleftrightarrow> ns = ms"
  by (cases p) (simp add: descendant_def)

lemma descendant_eq_self [simp]: "descendant p ns = p \<longleftrightarrow> ns = []"
  using descendant_inject [of p ns "[]"] by (simp del: descendant_inject)

lemma self_eq_descendant [simp]: "p = descendant p ns \<longleftrightarrow> ns = []"
  using descendant_eq_self [of p ns] by metis

lemma descendant_sel [simp]:
  "anchor (descendant p ns) = anchor p" "comps (descendant p ns) = comps p @ ns"
  by (simp_all add: descendant_def)

lemma parent_child [simp]: "parent (child p n) = p"
  by (simp add: parent_def child_def)

lemma relative_to_self [simp]: "relative_to p p = Some \<lparr>anchor = [], comps = []\<rparr>"
  by (simp add: relative_to_Some_iff)

lemma length_parts: "length (parts p) = (if anchor p = [] then 0 else 1) + length (comps p)"
  by (simp add: parts_def)

lemma parts_relative [simp]: "parts \<lparr>anchor = [], comps = ns\<rparr> = ns"
  by (simp add: parts_def)

lemma relative_parts: "relative_to p q = Some r \<Longrightarrow> parts r = drop (length (comps q)) (comps p)"
  by (auto simp: relative_to_def split: if_splits)

section \<open>Parsing and printing\<close>

lemma split_on_char_good:
  "c \<in> set (filter keep_comp (split_on CHR ''/'' s)) \<Longrightarrow> good_comp c"
  by (auto simp: good_comp_def dest: split_on_no_sep)

lemma wf_parse_path: "wf_path (parse_path s)"
proof -
  have "fst (split_root s) \<in> {[], ''/'', ''//''}"
    by (cases s; cases "tl s") (auto simp: split_root_def numeral_2_eq_2)
  then show ?thesis
    by (auto simp: wf_path_def parse_path_def split_on_char_good split: prod.splits)
qed

lemma filter_good: "\<forall>c \<in> set cs. good_comp c \<Longrightarrow> filter keep_comp cs = cs"
  by (simp add: filter_id_conv good_comp_def)

lemma split_root_rel:
  assumes "\<forall>c \<in> set cs. good_comp c"
  shows "split_root (join_with ''/'' cs) = ([], join_with ''/'' cs)"
    and "split_root (CHR ''/'' # join_with ''/'' cs) = (''/'', join_with ''/'' cs)"
    and "split_root (CHR ''/'' # CHR ''/'' # join_with ''/'' cs) = (''//'', join_with ''/'' cs)"
proof -
  have "join_with ''/'' cs = [] \<or> (\<exists>x xs. join_with ''/'' cs = x # xs \<and> x \<noteq> CHR ''/'')"
  proof (cases cs)
    case (Cons c ds)
    with assms have "c \<noteq> []" "CHR ''/'' \<notin> set c"
      by (simp_all add: good_comp_def keep_comp_def)
    then obtain x xs where "c = x # xs" "x \<noteq> CHR ''/''" by (cases c) auto
    with Cons show ?thesis by (simp add: join_with_Cons_Cons)
  qed simp
  then show "split_root (join_with ''/'' cs) = ([], join_with ''/'' cs)"
    and "split_root (CHR ''/'' # join_with ''/'' cs) = (''/'', join_with ''/'' cs)"
    and "split_root (CHR ''/'' # CHR ''/'' # join_with ''/'' cs) = (''//'', join_with ''/'' cs)"
    by (auto simp: split_root_def numeral_2_eq_2)
qed

lemma split_join_comps:
  "\<forall>c \<in> set cs. good_comp c \<Longrightarrow> filter keep_comp (split_on CHR ''/'' (join_with ''/'' cs)) = cs"
  by (cases "cs = []") (simp_all add: keep_comp_def split_join good_comp_def filter_good)

lemma parse_path_str: "wf_path p \<Longrightarrow> parse_path (path_str p) = p"
  using split_root_rel [of "comps p"] split_join_comps [of "comps p"]
  by (cases p) (auto simp: wf_path_def path_str_def parse_path_def split_root_def keep_comp_def)

lemma path_str_inj: "wf_path p \<Longrightarrow> wf_path q \<Longrightarrow> path_str p = path_str q \<Longrightarrow> p = q"
  by (metis parse_path_str)

lemma wf_relative: "wf_path p \<Longrightarrow> relative_to p q = Some r \<Longrightarrow> wf_path r"
  by (fastforce simp: wf_path_def relative_to_Some_iff descendant_def)

lemma wf_descendant: "wf_path p \<Longrightarrow> \<forall>n \<in> set ns. good_comp n \<Longrightarrow> wf_path (descendant p ns)"
  by (auto simp: wf_path_def)

end
