(* ===== verification/Config_Model.thy ===== *)
theory Config_Model
  imports Posix_Path
begin

text \<open>
  The configuration models of \<open>config.py\<close>: one record per pydantic model, one datatype for the
  discriminated union of CDN blocks, and the defaults a YAML file may leave out.
\<close>

datatype cdn_config =
    FastlyCdn (service_id: string) (purge_all_service_domains: bool)
  | CloudFrontCdn (distribution_id: string) (region: string)
  | GcpCdnConfig (project: string) (url_map: string) (quota_per_minute: int)

fun cdn_type :: "cdn_config \<Rightarrow> string" where
  \<comment> \<open>the discriminator \<open>type\<close>\<close>
  "cdn_type (FastlyCdn _ _) = ''fastly''"
| "cdn_type (CloudFrontCdn _ _) = ''cloudfront''"
| "cdn_type (GcpCdnConfig _ _ _) = ''gcp_cdn''"

record binding =
  cdn :: string
  url_prefix :: string

record watch_config =
  watch_path :: path
  ignore :: "string list"
  flush_on_delete :: bool
  bindings :: "binding list"

record retry_config =
  max_attempts :: int
  initial_backoff_seconds :: real
  max_backoff_seconds :: real

record daemon_config =
  batch_quiet_window_seconds :: real
  batch_max_size :: int
  batch_max_age_seconds :: real
  queue_db :: path
  retry :: retry_config

record config =
  cdns :: "(string, cdn_config) pydict"
  watches :: "watch_config list"
  daemon :: daemon_config
  credentials :: "(string, (string, string) pydict) pydict"

text \<open>The defaults.\<close>

definition default_retry :: retry_config where
  "default_retry = \<lparr>max_attempts = 8, initial_backoff_seconds = 5, max_backoff_seconds = 300\<rparr>"

definition default_daemon :: daemon_config where
  "default_daemon =
     \<lparr>batch_quiet_window_seconds = 10, batch_max_size = 500, batch_max_age_seconds = 60,
      queue_db = parse_path ''/var/lib/mirror-mirage/queue.db'', retry = default_retry\<rparr>"

definition watch_block :: "path \<Rightarrow> binding list \<Rightarrow> watch_config" where
  \<comment> \<open>a \<open>watches\<close> entry that gives only its path and its bindings\<close>
  "watch_block p bs = \<lparr>watch_path = p, ignore = [], flush_on_delete = False, bindings = bs\<rparr>"

definition fastly_block :: "string \<Rightarrow> cdn_config" where
  "fastly_block sid = FastlyCdn sid False"

definition cloudfront_block :: "string \<Rightarrow> cdn_config" where
  "cloudfront_block did = CloudFrontCdn did ''us-east-1''"

definition gcp_block :: "string \<Rightarrow> string \<Rightarrow> cdn_config" where
  "gcp_block prj um = GcpCdnConfig prj um 500"

end
