(* ===== verification/Fnmatch.thy ===== *)
theory Fnmatch
  imports Prelude
begin

text \<open>
  \<open>fnmatch.fnmatchcase\<close> of Python 3.12, which the glob matcher of \<open>filter.py\<close> calls on one path
  component: the pattern is translated to a sequence of one-character tests and stars (the
  regular expression of \<open>fnmatch.translate\<close>), which has to match the whole name. The relation
  \<open>tok_lang\<close> says which names a sequence accepts; \<open>tok_match\<close> is the executable matcher.
\<close>

section \<open>Translation of a pattern\<close>

datatype token =
    Star
  | AnyChar
  | Lit char
  | CharSet bool "(char \<times> char) list" \<comment> \<open>negated?, closed ranges\<close>

definition class_split :: "string \<Rightarrow> (string \<times> string) option" where
  \<comment> \<open>after an opening bracket: the text of the class and what follows its closing bracket\<close>
  "class_split s =
     (let neg = (if take 1 s = ''!'' then 1 else 0);
          close = (if take 1 (drop neg s) = '']'' then Suc neg else neg);
          n = close + length (takeWhile (\<lambda>c. c \<noteq> CHR '']'') (drop close s))
      in if n < length s then Some (take n s, drop (Suc n) s) else None)"

fun find_from :: "char \<Rightarrow> nat \<Rightarrow> string \<Rightarrow> nat option" where
  \<comment> \<open>\<open>s.find(c, n)\<close>\<close>
  "find_from c n [] = None"
| "find_from c (Suc n) (x # xs) = map_option Suc (find_from c n xs)"
| "find_from c 0 (x # xs) = (if x = c then Some 0 else map_option Suc (find_from c 0 xs))"

lemma find_from_less: "find_from c n s = Some k \<Longrightarrow> k < length s"
  by (induction c n s arbitrary: k rule: find_from.induct) (auto split: if_splits)

function class_chunks :: "nat \<Rightarrow> string \<Rightarrow> string list" where
  \<comment> \<open>the hyphens that make a range; after one, the next is looked for two characters later\<close>
  "class_chunks n s =
     (case find_from CHR ''-'' n s of
        None \<Rightarrow> [s]
      | Some k \<Rightarrow> take k s # class_chunks 2 (drop (Suc k) s))"
  by pat_completeness auto
termination
  by (relation "measure (\<lambda>(n, s). length s)") (auto dest: find_from_less)

declare class_chunks.simps [simp del]

definition close_chunks :: "string list \<Rightarrow> string list" where
  \<comment> \<open>a hyphen that ends the class is a member of it\<close>
  "close_chunks cs =
     (if last cs = [] \<and> butlast cs \<noteq> []
      then butlast (butlast cs) @ [last (butlast cs) @ ''-''] else cs)"

fun merge_chunks :: "string list \<Rightarrow> string list" where
  \<comment> \<open>ranges whose ends are out of order are dropped, from the right\<close>
  "merge_chunks [] = []"
| "merge_chunks (c # cs) =
     (case merge_chunks cs of
        [] \<Rightarrow> [c]
      | d # ds \<Rightarrow> if hd d < last c then (butlast c @ tl d) # ds else c # d # ds)"

fun chunk_ranges :: "string list \<Rightarrow> (char \<times> char) list" where
  "chunk_ranges [] = []"
| "chunk_ranges [c] = map (\<lambda>x. (x, x)) c"
| "chunk_ranges (c # d # ds) =
     map (\<lambda>x. (x, x)) (butlast c) @ (last c, hd d) # chunk_ranges (tl d # ds)"

definition class_token :: "string \<Rightarrow> token" where
  "class_token stuff =
     (let n = (if take 1 stuff = ''!'' then 2 else 1);
          cs = merge_chunks (close_chunks (class_chunks n stuff))
      in if take 1 (hd cs) = ''!'' then CharSet True (chunk_ranges (tl (hd cs) # tl cs))
         else CharSet False (chunk_ranges cs))"

lemma class_split_length: "class_split s = Some (stuff, rest) \<Longrightarrow> length rest < length s"
  by (auto simp: class_split_def Let_def split: if_splits)

function translate :: "string \<Rightarrow> token list" where
  "translate [] = []"
| "translate (c # s) =
     (if c = CHR ''*'' then (case translate s of Star # ts \<Rightarrow> Star # ts | ts \<Rightarrow> Star # ts)
      else if c = CHR ''?'' then AnyChar # translate s
      else if c = CHR ''['' then
        (case class_split s of
           None \<Rightarrow> Lit c # translate s
         | Some (stuff, rest) \<Rightarrow> class_token stuff # translate rest)
      else Lit c # translate s)"
  by pat_completeness auto
termination
  by (relation "measure length") (auto dest: class_split_length)

section \<open>Matching\<close>

fun accepts :: "token \<Rightarrow> char \<Rightarrow> bool" where
  "accepts Star c = False"
| "accepts AnyChar c = True"
| "accepts (Lit d) c = (c = d)"
| "accepts (CharSet neg rs) c = (list_ex (\<lambda>(a, b). a \<le> c \<and> c \<le> b) rs \<noteq> neg)"

fun tok_match :: "token list \<Rightarrow> string \<Rightarrow> bool" where
  "tok_match [] s = (s = [])"
| "tok_match (Star # ts) [] = tok_match ts []"
| "tok_match (Star # ts) (c # cs) = (tok_match ts (c # cs) \<or> tok_match (Star # ts) cs)"
| "tok_match (t # ts) [] = False"
| "tok_match (t # ts) (c # cs) = (accepts t c \<and> tok_match ts cs)"

definition fnmatchcase :: "string \<Rightarrow> string \<Rightarrow> bool" where
  "fnmatchcase name pat = tok_match (translate pat) name"

inductive tok_lang :: "token list \<Rightarrow> string \<Rightarrow> bool" where
  lang_end: "tok_lang [] []"
| lang_star: "tok_lang ts cs \<Longrightarrow> tok_lang (Star # ts) (pre @ cs)"
| lang_one: "accepts t c \<Longrightarrow> tok_lang ts cs \<Longrightarrow> tok_lang (t # ts) (c # cs)"

inductive_cases lang_StarE: "tok_lang (Star # ts) s"
inductive_cases lang_ConsE: "tok_lang (t # ts) s"
inductive_simps lang_Nil [simp]: "tok_lang [] s"

lemma tok_match_sound: "tok_match ts s \<Longrightarrow> tok_lang ts s"
proof (induction ts s rule: tok_match.induct)
  case (2 ts)
  then show ?case using lang_star [of ts "[]" "[]"] by simp
next
  case (3 ts c cs)
  show ?case
  proof (cases "tok_match ts (c # cs)")
    case True
    with 3 show ?thesis using lang_star [of ts "c # cs" "[]"] by simp
  next
    case False
    with 3 have "tok_lang (Star # ts) cs" by simp
    then obtain pre cs' where "cs = pre @ cs'" "tok_lang ts cs'"
      by (auto elim: lang_StarE)
    then show ?thesis using lang_star [of ts cs' "c # pre"] by simp
  qed
qed (auto intro: tok_lang.intros)

lemma tok_match_star: "tok_match ts cs \<Longrightarrow> tok_match (Star # ts) (pre @ cs)"
proof (induction pre)
  case Nil
  then show ?case by (cases cs) auto
qed simp

lemma tok_match_complete: "tok_lang ts s \<Longrightarrow> tok_match ts s"
proof (induction rule: tok_lang.induct)
  case (lang_one t c ts cs)
  then show ?case by (cases t) auto
qed (auto intro: tok_match_star)

lemma tok_match_iff: "tok_match ts s \<longleftrightarrow> tok_lang ts s"
  using tok_match_sound tok_match_complete by blast

section \<open>The patterns of the example configuration\<close>

definition plain :: "string \<Rightarrow> bool" where
  "plain s \<longleftrightarrow> CHR ''*'' \<notin> set s \<and> CHR ''?'' \<notin> set s \<and> CHR ''['' \<notin> set s"

lemma translate_plain_append:
  "plain w \<Longrightarrow> translate (w @ s) = map Lit w @ translate s"
  by (induction w) (auto simp: plain_def)

lemma translate_plain: "plain w \<Longrightarrow> translate w = map Lit w"
  using translate_plain_append [of w "[]"] by simp

lemma tok_match_lits: "tok_match (map Lit w @ ts) s \<longleftrightarrow> (\<exists>s'. s = w @ s' \<and> tok_match ts s')"
proof (induction w arbitrary: s)
  case (Cons c w)
  then show ?case by (cases s) auto
qed simp

lemma tok_match_star_iff: "tok_match (Star # ts) s \<longleftrightarrow> (\<exists>pre s'. s = pre @ s' \<and> tok_match ts s')"
  by (induction s) (auto simp: tok_match_star intro: exI [of _ "_ # _"] simp: Cons_eq_append_conv)

lemma fnmatch_plain: "plain pat \<Longrightarrow> fnmatchcase name pat \<longleftrightarrow> name = pat"
  using tok_match_lits [of pat "[]" name] by (auto simp: fnmatchcase_def translate_plain)

lemma fnmatch_star: "fnmatchcase name ''*''"
  by (simp add: fnmatchcase_def tok_match_star_iff)

lemma fnmatch_prefix: "plain w \<Longrightarrow> fnmatchcase name (w @ ''*'') \<longleftrightarrow> prefix w name"
  by (auto simp: fnmatchcase_def translate_plain_append tok_match_lits tok_match_star_iff prefix_def)

lemma fnmatch_suffix: "plain w \<Longrightarrow> fnmatchcase name (''*'' @ w) \<longleftrightarrow> suffix w name"
proof -
  assume w: "plain w"
  then have "translate (''*'' @ w) = Star # map Lit w"
    by (cases w) (simp_all add: translate_plain del: translate.simps(2) add: translate.simps(2) [of "CHR ''*''"])
  then show ?thesis
    using tok_match_lits [of w "[]"]
    by (auto simp: fnmatchcase_def tok_match_star_iff suffix_def)
qed

end
