(* ===== verification/Glob.thy ===== *)
theory Glob
  imports Fnmatch
begin

text \<open>
  The ignore globs of \<open>filter.py\<close>: \<open>gm\<close> is the loop of \<open>_gm\<close> with its indices into the pattern
  components and the path components, \<open>matches_any_glob\<close> the function the filter and the watcher
  call. The relation \<open>glob_lang\<close> is the contract of the docstring: a component pattern matches one
  component, \<open>**\<close> any number of them.
\<close>

section \<open>The matcher\<close>

function skip_stars :: "string list \<Rightarrow> nat \<Rightarrow> nat" where
  \<comment> \<open>the inner loop that collapses a run of \<open>**\<close>\<close>
  "skip_stars pp pk =
     (if pk + 1 < length pp \<and> pp ! (pk + 1) = ''**'' then skip_stars pp (pk + 1) else pk)"
  by pat_completeness auto
termination
  by (relation "measure (\<lambda>(pp, pk). length pp - pk)") auto

declare skip_stars.simps [simp del]

lemma skip_stars_ge: "pk \<le> skip_stars pp pk"
proof (induction pp pk rule: skip_stars.induct)
  case (1 pp pk)
  then show ?case by (subst skip_stars.simps) auto
qed

lemma skip_stars_less: "pk < length pp \<Longrightarrow> skip_stars pp pk < length pp"
proof (induction pp pk rule: skip_stars.induct)
  case (1 pp pk)
  then show ?case by (subst skip_stars.simps) auto
qed

function gm :: "string list \<Rightarrow> nat \<Rightarrow> string list \<Rightarrow> nat \<Rightarrow> bool" where
  "gm pp pk sp sk =
     (if pk < length pp then
        if pp ! pk = ''**'' then
          (let pj = skip_stars pp pk in
             if pj = length pp - 1 then True
             else list_ex (\<lambda>j. gm pp (pj + 1) sp j) [sk ..< length sp + 1])
        else if length sp \<le> sk then False
        else if \<not> fnmatchcase (sp ! sk) (pp ! pk) then False
        else gm pp (pk + 1) sp (sk + 1)
      else sk = length sp)"
  by pat_completeness auto
termination
  by (relation "measure (\<lambda>(pp, pk, sp, sk). length pp - pk)")
     (auto simp: less_Suc_eq_le skip_stars_ge intro: diff_less_mono2)

declare gm.simps [simp del]

definition matches_any_glob :: "string list \<Rightarrow> string list \<Rightarrow> bool" where
  "matches_any_glob rel_parts patterns =
     list_ex (\<lambda>pattern. gm (split_on CHR ''/'' pattern) 0 rel_parts 0) patterns"

section \<open>The contract\<close>

inductive glob_lang :: "string list \<Rightarrow> string list \<Rightarrow> bool" where
  glob_end: "glob_lang [] []"
| glob_dstar: "glob_lang ps ss \<Longrightarrow> glob_lang (''**'' # ps) (pre @ ss)"
| glob_comp: "p \<noteq> ''**'' \<Longrightarrow> fnmatchcase s p \<Longrightarrow> glob_lang ps ss \<Longrightarrow> glob_lang (p # ps) (s # ss)"

inductive_simps glob_lang_Nil [simp]: "glob_lang [] ss"
inductive_cases glob_lang_ConsE: "glob_lang (p # ps) ss"

lemma glob_lang_dstar_iff:
  "glob_lang (''**'' # ps) ss \<longleftrightarrow> (\<exists>j \<le> length ss. glob_lang ps (drop j ss))"
proof
  assume "glob_lang (''**'' # ps) ss"
  then obtain pre ts where "ss = pre @ ts" "glob_lang ps ts"
    by (auto elim: glob_lang_ConsE)
  then show "\<exists>j \<le> length ss. glob_lang ps (drop j ss)"
    by (intro exI [of _ "length pre"]) simp
next
  assume "\<exists>j \<le> length ss. glob_lang ps (drop j ss)"
  then obtain j where "glob_lang ps (drop j ss)" by blast
  then show "glob_lang (''**'' # ps) ss"
    using glob_dstar [of ps "drop j ss" "take j ss"] by simp
qed

lemma glob_lang_comp_iff:
  "p \<noteq> ''**'' \<Longrightarrow>
     glob_lang (p # ps) ss \<longleftrightarrow> (\<exists>t ts. ss = t # ts \<and> fnmatchcase t p \<and> glob_lang ps ts)"
  by (auto elim: glob_lang_ConsE intro: glob_comp)

lemma glob_lang_dstar_end [simp]: "glob_lang [''**''] ss"
  by (subst glob_lang_dstar_iff) (auto intro: exI [of _ "length ss"])

lemma glob_lang_dstar_dstar: "glob_lang (''**'' # ''**'' # ps) ss \<longleftrightarrow> glob_lang (''**'' # ps) ss"
proof
  assume "glob_lang (''**'' # ''**'' # ps) ss"
  then obtain i j where "i \<le> length ss" "j \<le> length (drop i ss)" "glob_lang ps (drop j (drop i ss))"
    by (auto simp: glob_lang_dstar_iff)
  then show "glob_lang (''**'' # ps) ss"
    by (auto simp: glob_lang_dstar_iff intro!: exI [of _ "i + j"] simp: add.commute)
next
  assume "glob_lang (''**'' # ps) ss"
  then show "glob_lang (''**'' # ''**'' # ps) ss"
    by (subst glob_lang_dstar_iff) (auto intro: exI [of _ 0])
qed

section \<open>The matcher implements the contract\<close>

lemma skip_stars_lang:
  "pk < length pp \<Longrightarrow> pp ! pk = ''**'' \<Longrightarrow>
     glob_lang (drop pk pp) ss \<longleftrightarrow> glob_lang (''**'' # drop (skip_stars pp pk + 1) pp) ss"
proof (induction pp pk rule: skip_stars.induct)
  case (1 pp pk)
  have d: "drop pk pp = ''**'' # drop (pk + 1) pp"
    using "1.prems" by (simp add: Cons_nth_drop_Suc [symmetric])
  show ?case
  proof (cases "pk + 1 < length pp \<and> pp ! (pk + 1) = ''**''")
    case True
    then have d': "drop (pk + 1) pp = ''**'' # drop (pk + 2) pp"
      by (simp add: Cons_nth_drop_Suc [symmetric])
    have "glob_lang (drop pk pp) ss \<longleftrightarrow> glob_lang (drop (pk + 1) pp) ss"
      unfolding d d' by (rule glob_lang_dstar_dstar)
    also have "\<dots> \<longleftrightarrow> glob_lang (''**'' # drop (skip_stars pp (pk + 1) + 1) pp) ss"
      using "1.IH" [OF True] True by blast
    also have "skip_stars pp (pk + 1) = skip_stars pp pk"
      using True by (simp add: skip_stars.simps [of pp pk])
    finally show ?thesis .
  next
    case False
    then show ?thesis by (auto simp: d skip_stars.simps [of pp pk])
  qed
qed

lemma glob_lang_dstar_drop:
  assumes "sk \<le> length sp"
  shows "glob_lang (''**'' # ps) (drop sk sp) \<longleftrightarrow> (\<exists>j \<in> {sk..length sp}. glob_lang ps (drop j sp))"
proof -
  have "(\<exists>j \<in> {sk..length sp}. glob_lang ps (drop j sp)) \<longleftrightarrow>
        (\<exists>i \<le> length sp - sk. glob_lang ps (drop (i + sk) sp))" (is "?L = ?R")
  proof
    assume ?L
    then obtain j where "sk \<le> j" "j \<le> length sp" "glob_lang ps (drop j sp)" by auto
    then show ?R by (intro exI [of _ "j - sk"]) auto
  next
    assume ?R
    then obtain i where "i \<le> length sp - sk" "glob_lang ps (drop (i + sk) sp)" by auto
    then show ?L using assms by (intro bexI [of _ "i + sk"]) auto
  qed
  then show ?thesis by (simp add: glob_lang_dstar_iff)
qed

lemma gm_star:
  assumes "pk < length pp" "pp ! pk = ''**''" "skip_stars pp pk \<noteq> length pp - 1"
  shows "gm pp pk sp sk \<longleftrightarrow> (\<exists>j \<in> {sk..length sp}. gm pp (skip_stars pp pk + 1) sp j)"
  using assms by (subst gm.simps) (auto simp: list_ex_iff less_Suc_eq_le)

lemma gm_lang: "sk \<le> length sp \<Longrightarrow> gm pp pk sp sk \<longleftrightarrow> glob_lang (drop pk pp) (drop sk sp)"
proof (induction pp pk sp sk rule: gm.induct)
  case (1 pp pk sp sk)
  consider (over) "\<not> pk < length pp"
    | (star) "pk < length pp" "pp ! pk = ''**''"
    | (short) "pk < length pp" "pp ! pk \<noteq> ''**''" "sk = length sp"
    | (comp) "pk < length pp" "pp ! pk \<noteq> ''**''" "sk < length sp"
    using "1.prems" by force
  then show ?case
  proof cases
    case over
    with "1.prems" show ?thesis by (subst gm.simps) auto
  next
    case star
    define pj where "pj = skip_stars pp pk"
    have pj: "pj < length pp" using star by (simp add: pj_def skip_stars_less)
    note lang = skip_stars_lang [OF star, folded pj_def]
    show ?thesis
    proof (cases "pj = length pp - 1")
      case True
      with pj have "drop (pj + 1) pp = []" by simp
      with True star lang show ?thesis by (subst gm.simps) (simp add: pj_def)
    next
      case False
      have "gm pp (pj + 1) sp j \<longleftrightarrow> glob_lang (drop (pj + 1) pp) (drop j sp)"
        if "j \<in> {sk..length sp}" for j
      proof (rule "1.IH"(1) [OF star pj_def False])
        show "j \<in> set [sk ..< length sp + 1]" "j \<le> length sp" using that by auto
      qed
      then show ?thesis
        using gm_star [OF star] False lang "1.prems"
        by (simp add: pj_def [symmetric] glob_lang_dstar_drop)
    qed
  next
    case short
    then show ?thesis
      by (subst gm.simps) (simp add: Cons_nth_drop_Suc [symmetric] glob_lang_comp_iff)
  next
    case comp
    then have d: "drop pk pp = pp ! pk # drop (pk + 1) pp" "drop sk sp = sp ! sk # drop (sk + 1) sp"
      by (simp_all add: Cons_nth_drop_Suc)
    show ?thesis
    proof (cases "fnmatchcase (sp ! sk) (pp ! pk)")
      case True
      with "1.IH"(2) comp have
        "gm pp (pk + 1) sp (sk + 1) \<longleftrightarrow> glob_lang (drop (pk + 1) pp) (drop (sk + 1) sp)"
        by simp
      with True comp show ?thesis by (subst gm.simps) (simp add: d glob_lang_comp_iff)
    next
      case False
      with comp show ?thesis by (subst gm.simps) (simp add: d glob_lang_comp_iff)
    qed
  qed
qed

lemma gm_iff: "gm pp 0 sp 0 \<longleftrightarrow> glob_lang pp sp"
  using gm_lang [of 0 sp pp 0] by simp

lemma matches_any_glob_iff:
  "matches_any_glob ss pats \<longleftrightarrow> (\<exists>p \<in> set pats. glob_lang (split_on CHR ''/'' p) ss)"
  by (simp add: matches_any_glob_def list_ex_iff gm_iff)

lemma matches_any_glob_Nil [simp]: "\<not> matches_any_glob ss []"
  by (simp add: matches_any_glob_def)

end
