(* ===== verification/Event_Filter.thy ===== *)
theory Event_Filter
  imports Config_Model Glob
begin

text \<open>
  \<open>filter.py\<close>: the event kinds, \<open>FsEvent\<close>, and \<open>EventFilter\<close>. The constructor is
  \<open>init_filter\<close> (the watches, deepest first), the owner search of \<open>normalize\<close> is \<open>find_owner\<close>.
\<close>

section \<open>The filter\<close>

datatype event_kind = INVALIDATE | DELETE

record fs_event =
  kind :: event_kind
  abs_path :: path
  watch_root :: path

definition invalidate_masks :: "string list" where
  "invalidate_masks = [''IN_MOVED_TO'', ''IN_CLOSE_WRITE'']"

definition delete_masks :: "string list" where
  "delete_masks = [''IN_DELETE'', ''IN_MOVED_FROM'']"

abbreviation depth :: "watch_config \<Rightarrow> nat" where
  "depth w \<equiv> length (parts (watch_path w))"

definition init_filter :: "watch_config list \<Rightarrow> watch_config list" where
  \<comment> \<open>\<open>sorted(watches, key=lambda w: len(w.path.parts), reverse=True)\<close>, which keeps ties in order\<close>
  "init_filter ws = sort_key (\<lambda>w. - int (depth w)) ws"

fun find_owner :: "watch_config list \<Rightarrow> path \<Rightarrow> (watch_config \<times> path) option" where
  "find_owner [] p = None"
| "find_owner (w # ws) p =
     (case relative_to p (watch_path w) of
        None \<Rightarrow> find_owner ws p
      | Some rel \<Rightarrow> Some (w, rel))"

definition normalize :: "watch_config list \<Rightarrow> string \<Rightarrow> path \<Rightarrow> fs_event option" where
  "normalize ws mask_name p =
     (case find_owner ws p of
        None \<Rightarrow> None
      | Some (w, rel) \<Rightarrow>
          if matches_any_glob (parts rel) (ignore w) then None
          else if List.member invalidate_masks mask_name then
            Some \<lparr>kind = INVALIDATE, abs_path = p, watch_root = watch_path w\<rparr>
          else if List.member delete_masks mask_name then
            (if \<not> flush_on_delete w then None
             else Some \<lparr>kind = DELETE, abs_path = p, watch_root = watch_path w\<rparr>)
          else None)"

section \<open>The owner of a path\<close>

abbreviation under :: "path \<Rightarrow> watch_config \<Rightarrow> bool" where
  "under p w \<equiv> relative_to p (watch_path w) \<noteq> None"

definition owner :: "watch_config list \<Rightarrow> path \<Rightarrow> watch_config \<Rightarrow> bool" where
  \<comment> \<open>the deepest watch above \<open>p\<close>, the first one listed where two have the same root\<close>
  "owner ws p w \<longleftrightarrow> (\<exists>us vs. ws = us @ w # vs \<and> under p w \<and>
     (\<forall>u \<in> set us. under p u \<longrightarrow> depth u < depth w) \<and>
     (\<forall>v \<in> set vs. under p v \<longrightarrow> depth v \<le> depth w))"

lemma find_owner_find:
  "find_owner ws p =
     (case List.find (under p) ws of
        None \<Rightarrow> None | Some w \<Rightarrow> Some (w, the (relative_to p (watch_path w))))"
  by (induction ws) (auto split: option.splits)

lemma find_owner_Some:
  assumes "find_owner (init_filter ws) p = Some (w, rel)"
  shows "owner ws p w" "relative_to p (watch_path w) = Some rel"
proof -
  from assms have f: "List.find (under p) (init_filter ws) = Some w"
    and r: "rel = the (relative_to p (watch_path w))"
    by (auto simp: find_owner_find split: option.splits)
  from find_sort_key_Some [OF f [unfolded init_filter_def]] show "owner ws p w"
    by (fastforce simp: owner_def)
  then show "relative_to p (watch_path w) = Some rel"
    using r by (auto simp: owner_def)
qed

lemma owner_unique: "owner ws p w \<Longrightarrow> owner ws p w' \<Longrightarrow> w = w'"
proof -
  assume "owner ws p w" "owner ws p w'"
  then obtain us vs us' vs' where *: "ws = us @ w # vs" "under p w"
      "\<forall>u \<in> set us. under p u \<longrightarrow> depth u < depth w" "\<forall>v \<in> set vs. under p v \<longrightarrow> depth v \<le> depth w"
    and **: "ws = us' @ w' # vs'" "under p w'"
      "\<forall>u \<in> set us'. under p u \<longrightarrow> depth u < depth w'" "\<forall>v \<in> set vs'. under p v \<longrightarrow> depth v \<le> depth w'"
    unfolding owner_def by blast
  from *(1) **(1) have "us @ w # vs = us' @ w' # vs'" by simp
  then consider "w = w'" | zs where "us' = us @ w # zs" "vs = zs @ w' # vs'"
    | zs where "us = us' @ w' # zs" "vs' = zs @ w # vs"
    by (auto simp: append_eq_append_conv2 Cons_eq_append_conv append_eq_Cons_conv)
  then show "w = w'"
    using * ** by cases (fastforce simp: not_less [symmetric])+
qed

lemma find_owner_exists: "under p w \<Longrightarrow> w \<in> set ws \<Longrightarrow> \<exists>w' rel. find_owner ws p = Some (w', rel)"
  by (induction ws) (auto split: option.splits)

lemma find_owner_iff:
  "find_owner (init_filter ws) p = Some (w, rel) \<longleftrightarrow>
     owner ws p w \<and> relative_to p (watch_path w) = Some rel"
proof
  assume *: "owner ws p w \<and> relative_to p (watch_path w) = Some rel"
  then have "w \<in> set (init_filter ws)" "under p w" by (auto simp: owner_def init_filter_def)
  then obtain w' rel' where f: "find_owner (init_filter ws) p = Some (w', rel')"
    using find_owner_exists by blast
  with * find_owner_Some [OF f] show "find_owner (init_filter ws) p = Some (w, rel)"
    using owner_unique by fastforce
qed (simp add: find_owner_Some)

lemma owner_in_set: "owner ws p w \<Longrightarrow> w \<in> set ws"
  by (auto simp: owner_def)

lemma owner_contains:
  assumes "owner ws p w" "w' \<in> set ws" "under p w'"
  shows "under (watch_path w) w'"
proof -
  from assms have d: "depth w' \<le> depth w"
    by (auto simp: owner_def less_imp_le)
  from assms obtain ns ms where "p = descendant (watch_path w) ns" "p = descendant (watch_path w') ms"
    by (auto simp: owner_def relative_to_None_iff)
  then have a: "anchor (watch_path w) = anchor (watch_path w')"
    and c: "comps (watch_path w) @ ns = comps (watch_path w') @ ms"
    by (auto dest: arg_cong [of _ _ anchor] arg_cong [of _ _ comps])
  from a d have "length (comps (watch_path w')) \<le> length (comps (watch_path w))"
    by (simp add: length_parts split: if_splits)
  with c have "take (length (comps (watch_path w'))) (comps (watch_path w)) = comps (watch_path w')"
    by (metis append_eq_conv_conj take_append take_all diff_is_0_eq take_0 append_Nil2)
  with a show ?thesis by (simp add: relative_to_def)
qed

section \<open>The filter's contract\<close>

definition event_of :: "watch_config \<Rightarrow> string \<Rightarrow> path \<Rightarrow> fs_event option" where
  \<comment> \<open>what an unignored event of the watch becomes\<close>
  "event_of w m p =
     (if m = ''IN_MOVED_TO'' \<or> m = ''IN_CLOSE_WRITE''
      then Some \<lparr>kind = INVALIDATE, abs_path = p, watch_root = watch_path w\<rparr>
      else if (m = ''IN_DELETE'' \<or> m = ''IN_MOVED_FROM'') \<and> flush_on_delete w
      then Some \<lparr>kind = DELETE, abs_path = p, watch_root = watch_path w\<rparr>
      else None)"

lemma normalize_owner:
  assumes "owner ws p w" "relative_to p (watch_path w) = Some rel"
  shows "normalize (init_filter ws) m p =
    (if matches_any_glob (parts rel) (ignore w) then None else event_of w m p)"
proof -
  have "find_owner (init_filter ws) p = Some (w, rel)"
    using assms by (simp add: find_owner_iff)
  then show ?thesis
    by (simp add: normalize_def event_of_def invalidate_masks_def delete_masks_def)
qed

lemma normalize_outside: "(\<And>w. w \<in> set ws \<Longrightarrow> \<not> under p w) \<Longrightarrow> normalize (init_filter ws) m p = None"
  using find_owner_iff [of ws p]
  by (fastforce simp: normalize_def owner_def split: option.splits)

lemma normalize_SomeE:
  assumes "normalize (init_filter ws) m p = Some ev"
  obtains w rel where "owner ws p w" "relative_to p (watch_path w) = Some rel"
    "\<not> matches_any_glob (parts rel) (ignore w)" "event_of w m p = Some ev"
proof (cases "find_owner (init_filter ws) p")
  case None
  with assms show ?thesis by (simp add: normalize_def)
next
  case (Some wr)
  obtain w rel where wr: "wr = (w, rel)" by (cases wr)
  with Some have "owner ws p w" "relative_to p (watch_path w) = Some rel"
    by (simp_all add: find_owner_iff)
  with assms normalize_owner [of ws p w rel m] that show ?thesis
    by (auto split: if_splits)
qed

lemma event_of_sel: "event_of w m p = Some ev \<Longrightarrow> abs_path ev = p \<and> watch_root ev = watch_path w"
  by (auto simp: event_of_def split: if_splits)

lemma normalize_events:
  assumes "normalize (init_filter ws) m p = Some ev"
  shows "abs_path ev = p" "\<exists>w \<in> set ws. watch_root ev = watch_path w"
    "relative_to p (watch_root ev) \<noteq> None"
  using assms by (auto elim!: normalize_SomeE dest!: event_of_sel dest: owner_in_set)

section \<open>Ignored staging directories\<close>

lemma glob_around_component:
  assumes "plain c" "c \<noteq> ''**''" "CHR ''/'' \<notin> set c"
  shows "glob_lang (split_on CHR ''/'' (''**/'' @ c @ ''/**'')) ss \<longleftrightarrow> c \<in> set ss"
proof -
  have "split_on CHR ''/'' (''**/'' @ c @ ''/**'') = [''**'', c, ''**'']"
    using assms(3) split_on_append [of "CHR ''/''" c "''**''"] by simp
  moreover have "glob_lang [''**'', c, ''**''] ss \<longleftrightarrow> (\<exists>j \<le> length ss. \<exists>ts. drop j ss = c # ts)"
    using assms
    by (simp add: glob_lang_dstar_iff [of "[c, ''**'']"] glob_lang_comp_iff fnmatch_plain)
  moreover have "(\<exists>j \<le> length ss. \<exists>ts. drop j ss = c # ts) \<longleftrightarrow> c \<in> set ss"
  proof
    assume "\<exists>j \<le> length ss. \<exists>ts. drop j ss = c # ts"
    then show "c \<in> set ss" by (metis in_set_dropD list.set_intros(1))
  next
    assume "c \<in> set ss"
    then obtain as bs where "ss = as @ c # bs" by (auto simp: in_set_conv_decomp)
    then show "\<exists>j \<le> length ss. \<exists>ts. drop j ss = c # ts"
      by (intro exI [of _ "length as"]) simp
  qed
  ultimately show ?thesis by simp
qed

definition staging_glob :: string where
  "staging_glob = ''**/.~tmp~/**''"

lemma staging_glob_iff: "glob_lang (split_on CHR ''/'' staging_glob) ss \<longleftrightarrow> ''.~tmp~'' \<in> set ss"
  using glob_around_component [of "''.~tmp~''" ss]
  by (simp add: staging_glob_def plain_def)

end
