(* ===== verification/Url_Mapper.thy ===== *)
theory Url_Mapper
  imports Event_Filter
begin

text \<open>
  \<open>mapper.py\<close>: \<open>PurgeTarget\<close> and \<open>Mapper\<close>. The dictionary the constructor builds is
  \<open>init_mapper\<close>, \<open>Mapper.map\<close> is \<open>map_event\<close>. The locale \<open>event_source\<close> is what the mapper
  relies on: the events it is given carry a configured root above their path; the filter of
  \<open>filter.py\<close> provides it.
\<close>

section \<open>The mapper\<close>

record purge_target =
  cdn_name :: string
  url :: string

definition init_mapper :: "watch_config list \<Rightarrow> (path, binding list) pydict" where
  "init_mapper ws = dict_of (map (\<lambda>w. (watch_path w, bindings w)) ws)"

definition target_of :: "path \<Rightarrow> binding \<Rightarrow> purge_target" where
  "target_of rel b =
     \<lparr>cdn_name = cdn b, url = rstrip_char CHR ''/'' (url_prefix b) @ ''/'' @ path_str rel\<rparr>"

definition map_event :: "(path, binding list) pydict \<Rightarrow> fs_event \<Rightarrow> purge_target list res" where
  "map_event by_root ev =
     (case map_of by_root (watch_root ev) of
        None \<Rightarrow> Inr []
      | Some bs \<Rightarrow>
          if bs = [] then Inr []
          else (case relative_to (abs_path ev) (watch_root ev) of
                  None \<Rightarrow> Inl (ValueError ''relative_to'')
                | Some rel \<Rightarrow> Inr (map (target_of rel) bs)))"

section \<open>The bindings of a root\<close>

definition root_bindings :: "watch_config list \<Rightarrow> path \<Rightarrow> binding list" where
  \<comment> \<open>the bindings of the last watch listed with the root\<close>
  "root_bindings ws r =
     (case List.find (\<lambda>w. watch_path w = r) (rev ws) of None \<Rightarrow> [] | Some w \<Rightarrow> bindings w)"

lemma map_of_find: "map_of (map (\<lambda>x. (f x, g x)) xs) k = map_option g (List.find (\<lambda>x. f x = k) xs)"
  by (induction xs) auto

lemma init_mapper_lookup:
  "map_of (init_mapper ws) r = map_option bindings (List.find (\<lambda>w. watch_path w = r) (rev ws))"
  by (simp add: init_mapper_def dict_simps rev_map map_of_find)

lemma find_distinct_key:
  "distinct (map f xs) \<Longrightarrow> x \<in> set xs \<Longrightarrow> List.find (\<lambda>y. f y = f x) xs = Some x"
  by (induction xs) (auto simp: image_iff)

lemma root_bindings_unique:
  "distinct (map watch_path ws) \<Longrightarrow> w \<in> set ws \<Longrightarrow> root_bindings ws (watch_path w) = bindings w"
  using find_distinct_key [of watch_path "rev ws" w]
  by (simp add: root_bindings_def rev_map [symmetric])

section \<open>Events with a configured root\<close>

locale event_source =
  fixes events :: "string \<Rightarrow> path \<Rightarrow> fs_event option"
    and roots :: "watch_config list"
  assumes path_kept: "events m p = Some ev \<Longrightarrow> abs_path ev = p"
    and below_root: "events m p = Some ev \<Longrightarrow> relative_to p (watch_root ev) \<noteq> None"
    and root_configured: "events m p = Some ev \<Longrightarrow> \<exists>w \<in> set roots. watch_root ev = watch_path w"
begin

lemma map_event_total:
  assumes "events m p = Some ev"
  shows "\<exists>rel. relative_to p (watch_root ev) = Some rel \<and>
    map_event (init_mapper roots) ev = Inr (map (target_of rel) (root_bindings roots (watch_root ev)))"
proof -
  from below_root [OF assms] obtain rel where rel: "relative_to p (watch_root ev) = Some rel"
    by auto
  have "abs_path ev = p" by (rule path_kept [OF assms])
  then have "map_event (init_mapper roots) ev = Inr (map (target_of rel) (root_bindings roots (watch_root ev)))"
    using rel by (auto simp: map_event_def root_bindings_def init_mapper_lookup split: option.splits)
  with rel show ?thesis by blast
qed

lemma map_event_counts:
  "events m p = Some ev \<Longrightarrow> map_event (init_mapper roots) ev = Inr ts \<Longrightarrow>
     map cdn_name ts = map cdn (root_bindings roots (watch_root ev))"
  by (drule map_event_total) (auto simp: target_of_def)

end

interpretation filtered: event_source "normalize (init_filter ws)" ws for ws
  by unfold_locales (auto dest: normalize_events)

section \<open>URLs identify files\<close>

lemma target_url_inj:
  assumes "wf_path r" "wf_path s" "url (target_of r b) = url (target_of s b)"
  shows "r = s"
  using assms by (auto simp: target_of_def dest: path_str_inj)

lemma find_rev_split:
  "List.find P (rev ws) = Some w \<Longrightarrow> \<exists>vs us. ws = vs @ w # us \<and> P w \<and> (\<forall>u \<in> set us. \<not> P u)"
proof (induction ws rule: rev_induct)
  case (snoc x ws)
  show ?case
  proof (cases "P x")
    case False
    with snoc obtain vs us where "ws = vs @ w # us" "P w" "\<forall>u \<in> set us. \<not> P u" by auto
    with False show ?thesis by (intro exI [of _ vs] exI [of _ "us @ [x]"]) auto
  qed (use snoc in \<open>intro exI [of _ ws] exI [of _ "[]"], simp\<close>)
qed simp

lemma root_last:
  assumes "v \<in> set ws" "watch_path v = r"
  obtains vs w us where "ws = vs @ w # us" "watch_path w = r" "\<forall>u \<in> set us. watch_path u \<noteq> r"
    "root_bindings ws r = bindings w"
proof -
  have "List.find (\<lambda>w. watch_path w = r) (rev ws) \<noteq> None"
    using assms by (auto simp: find_None_iff)
  then obtain w where w: "List.find (\<lambda>w. watch_path w = r) (rev ws) = Some w" by blast
  have b: "root_bindings ws r = bindings w" by (simp add: root_bindings_def w)
  from find_rev_split [OF w] obtain vs us where
    "ws = vs @ w # us" "watch_path w = r" "\<forall>u \<in> set us. watch_path u \<noteq> r" by blast
  from that [OF this b] show ?thesis .
qed


text \<open>
  Two watches with one path: the filter asks the first one, the targets are those of the second one.
  The bindings of the owner are never purged.
\<close>

lemma duplicate_watch_bindings:
  assumes "watch_path v = watch_path w" "normalize (init_filter [v, w]) m p = Some ev"
  shows "owner [v, w] p v \<and> (\<exists>rel. relative_to p (watch_path v) = Some rel \<and>
    map_event (init_mapper [v, w]) ev = Inr (map (target_of rel) (bindings w)))"
proof -
  from assms(2) have ev: "watch_root ev = watch_path v" "relative_to p (watch_root ev) \<noteq> None"
    using normalize_events [OF assms(2)] assms(1) by auto
  then have "[v, w] = [] @ v # [w] \<and> under p v \<and> (\<forall>u \<in> set []. under p u \<longrightarrow> depth u < depth v) \<and>
      (\<forall>u \<in> set [w]. under p u \<longrightarrow> depth u \<le> depth v)"
    using assms(1) by simp
  then have "owner [v, w] p v" unfolding owner_def by blast
  moreover have "root_bindings [v, w] (watch_root ev) = bindings w"
    using ev(1) assms(1) by (simp add: root_bindings_def)
  ultimately show ?thesis using filtered.map_event_total [OF assms(2)] ev(1) by auto
qed

definition sample_watch :: watch_config where
  "sample_watch =
     \<lparr>watch_path = \<lparr>anchor = ''/'', comps = [''srv'', ''alma'']\<rparr>,
      ignore = [''**/.~tmp~/**'', ''**/.nfs*''], flush_on_delete = False,
      bindings = [\<lparr>cdn = ''fastly'', url_prefix = ''https://repo.x/alma/''\<rparr>,
                  \<lparr>cdn = ''aws'', url_prefix = ''https://us.x/alma''\<rparr>]\<rparr>"

definition sample_path :: path where
  "sample_path = descendant (watch_path sample_watch) [''9'', ''repomd.xml'']"

lemma sample_event:
  "normalize (init_filter [sample_watch]) ''IN_MOVED_TO'' sample_path =
     Some \<lparr>kind = INVALIDATE, abs_path = sample_path, watch_root = watch_path sample_watch\<rparr>"
  by code_simp


end
