(* ===== verification/Filter_Contract.thy ===== *)
theory Filter_Contract
  imports Url_Mapper
begin

text \<open>
  The filter against a declarative reference: the globs as a language of component lists, the owner of
  a path as the deepest watch above it.
\<close>

text \<open>
  C6. The filter is equivalent to its specification: an event passes exactly when some watch owns its
  path (the deepest one above it, the first listed on a tie), none of the ignore globs of that watch,
  read as a language in which a double star stands for any number of components, contains the path
  below the root, and the mask is one of the two that write or, where the watch flushes deletes, one of
  the two that remove; so the recursive matcher with its collapsed stars, the sorted search and the
  branches of \<open>normalize\<close> decide what the reference says.
\<close>

theorem filter_equivalence:
  "normalize (init_filter ws) m p = Some ev \<longleftrightarrow>
     (\<exists>w rel. owner ws p w \<and> relative_to p (watch_path w) = Some rel \<and>
        (\<forall>g \<in> set (ignore w). \<not> glob_lang (split_on CHR ''/'' g) (parts rel)) \<and>
        event_of w m p = Some ev)"
proof
  assume "normalize (init_filter ws) m p = Some ev"
  then show "\<exists>w rel. owner ws p w \<and> relative_to p (watch_path w) = Some rel \<and>
        (\<forall>g \<in> set (ignore w). \<not> glob_lang (split_on CHR ''/'' g) (parts rel)) \<and>
        event_of w m p = Some ev"
    by (elim normalize_SomeE) (auto simp: matches_any_glob_iff)
next
  assume "\<exists>w rel. owner ws p w \<and> relative_to p (watch_path w) = Some rel \<and>
        (\<forall>g \<in> set (ignore w). \<not> glob_lang (split_on CHR ''/'' g) (parts rel)) \<and>
        event_of w m p = Some ev"
  then show "normalize (init_filter ws) m p = Some ev"
    by (auto simp: normalize_owner matches_any_glob_iff)
qed

theorem filter_equivalence_witness:
  "\<exists>w rel. owner [sample_watch] sample_path w \<and> relative_to sample_path (watch_path w) = Some rel \<and>
     \<not> glob_lang (split_on CHR ''/'' ''**/.~tmp~/**'') (parts rel)"
proof -
  from sample_event filter_equivalence [of "[sample_watch]" "''IN_MOVED_TO''" sample_path] obtain w rel where
    w: "owner [sample_watch] sample_path w" "relative_to sample_path (watch_path w) = Some rel"
      "\<forall>g \<in> set (ignore w). \<not> glob_lang (split_on CHR ''/'' g) (parts rel)" by blast
  moreover have "w = sample_watch" using owner_in_set [OF w(1)] by simp
  then have "''**/.~tmp~/**'' \<in> set (ignore w)" by (simp add: sample_watch_def)
  ultimately show ?thesis by blast
qed

end
