(* ===== verification/Url_Parse.thy ===== *)
theory Url_Parse
  imports Prelude
begin

text \<open>
  \<open>urllib.parse.urlparse\<close>, \<open>urlunparse\<close> and \<open>hostname\<close> of Python 3.12, which the providers use to
  take target URLs apart, for strings of characters below 256 (for these the NFKC check of the
  netloc never objects).
\<close>

section \<open>String helpers\<close>

definition before :: "char \<Rightarrow> string \<Rightarrow> string" where
  "before c s = takeWhile (\<lambda>x. x \<noteq> c) s"

definition after :: "char \<Rightarrow> string \<Rightarrow> string" where
  "after c s = drop 1 (dropWhile (\<lambda>x. x \<noteq> c) s)"

definition after_last :: "char \<Rightarrow> string \<Rightarrow> string" where
  \<comment> \<open>\<open>s.rpartition(c)[2]\<close>\<close>
  "after_last c s = rev (takeWhile (\<lambda>x. x \<noteq> c) (rev s))"

definition upto_last :: "char \<Rightarrow> string \<Rightarrow> string" where
  \<comment> \<open>\<open>s\<close> up to and including the last \<open>c\<close>\<close>
  "upto_last c s = rev (dropWhile (\<lambda>x. x \<noteq> c) (rev s))"

definition code_in :: "nat \<Rightarrow> nat \<Rightarrow> char \<Rightarrow> bool" where
  "code_in lo hi c \<longleftrightarrow> lo \<le> (of_char c :: nat) \<and> (of_char c :: nat) \<le> hi"

definition is_letter :: "char \<Rightarrow> bool" where
  "is_letter c \<longleftrightarrow> code_in 65 90 c \<or> code_in 97 122 c"

definition is_digit :: "char \<Rightarrow> bool" where
  "is_digit c \<longleftrightarrow> code_in 48 57 c"

definition is_hex :: "char \<Rightarrow> bool" where
  "is_hex c \<longleftrightarrow> is_digit c \<or> code_in 65 70 c \<or> code_in 97 102 c"

definition lower :: "string \<Rightarrow> string" where
  "lower s = map (\<lambda>c. if code_in 65 90 c \<or> (code_in 192 222 c \<and> of_char c \<noteq> (215 :: nat))
     then char_of ((of_char c :: nat) + 32) else c) s"

section \<open>Addresses in brackets\<close>

definition ipv4_ok :: "string \<Rightarrow> bool" where
  "ipv4_ok s \<longleftrightarrow> (let os = split_on CHR ''.'' s in length os = 4 \<and>
     list_all (\<lambda>p. p \<noteq> [] \<and> length p \<le> 3 \<and> list_all is_digit p \<and> (length p = 1 \<or> hd p \<noteq> CHR ''0'') \<and>
       foldl (\<lambda>n c. n * 10 + (of_char c - 48 :: nat)) 0 p \<le> 255) os)"

definition hextets :: "string \<Rightarrow> string list option" where
  \<comment> \<open>the parts, a trailing IPv4 address counted as two\<close>
  "hextets s =
     (let ps = split_on CHR '':'' s in
        if length ps < 3 then None
        else if CHR ''.'' \<in> set (last ps)
        then (if ipv4_ok (last ps) then Some (butlast ps @ [''0'', ''0'']) else None)
        else Some ps)"

definition ipv6_parts_ok :: "string list \<Rightarrow> bool" where
  "ipv6_parts_ok ps \<longleftrightarrow>
     (let inner = butlast (tl ps); gaps = length (filter (\<lambda>p. p = []) inner);
          hi = length (takeWhile (\<lambda>p. p \<noteq> []) (tl ps)) + 1; lo = length ps - hi - 1 in
        length ps \<le> 9 \<and> gaps \<le> 1 \<and>
        (if gaps = 1
         then (if hd ps = [] then hi = 1 else True) \<and> (if last ps = [] then lo = 1 else True) \<and>
           (if hd ps = [] then hi - 1 else hi) + (if last ps = [] then lo - 1 else lo) < 8
         else length ps = 8 \<and> hd ps \<noteq> [] \<and> last ps \<noteq> []) \<and>
        list_all (\<lambda>p. list_all is_hex p \<and> length p \<le> 4) ps)"

definition ipv6_ok :: "string \<Rightarrow> bool" where
  \<comment> \<open>\<open>ipaddress.IPv6Address(s)\<close> does not raise\<close>
  "ipv6_ok s \<longleftrightarrow>
     (let addr = before CHR ''%'' s; zone = after CHR ''%'' s in
        CHR ''/'' \<notin> set s \<and>
        (CHR ''%'' \<in> set s \<longrightarrow> zone \<noteq> [] \<and> CHR ''%'' \<notin> set zone) \<and> addr \<noteq> [] \<and>
        (case hextets addr of None \<Rightarrow> False | Some ps \<Rightarrow> ipv6_parts_ok ps))"

definition bracketed_host_ok :: "string \<Rightarrow> bool" where
  "bracketed_host_ok h \<longleftrightarrow>
     (if take 1 h = ''v''
      then (let d = takeWhile is_hex (tl h); r = drop (length d) (tl h) in
              d \<noteq> [] \<and> take 1 r = ''.'' \<and> tl r \<noteq> [])
      else ipv6_ok h)"

definition netloc_ok :: "string \<Rightarrow> bool" where
  "netloc_ok n \<longleftrightarrow>
     (let o1 = CHR ''['' \<in> set n; o2 = CHR '']'' \<in> set n in
        if o1 \<noteq> o2 then False
        else if \<not> o1 then True
        else (let hp = after_last CHR ''@'' n in
          if CHR ''['' \<in> set hp
          then before CHR ''['' hp = [] \<and>
            (let port = after CHR '']'' (after CHR ''['' hp) in port = [] \<or> take 1 port = '':'') \<and>
            bracketed_host_ok (before CHR '']'' (after CHR ''['' hp))
          else bracketed_host_ok (before CHR '':'' hp)))"

section \<open>Parsing\<close>

record url_parts =
  u_scheme :: string
  u_netloc :: string
  u_path :: string
  u_params :: string
  u_query :: string
  u_fragment :: string

definition scheme_char :: "char \<Rightarrow> bool" where
  "scheme_char c \<longleftrightarrow> is_letter c \<or> is_digit c \<or> List.member ''+-.'' c"

definition uses_params :: "string list" where
  "uses_params = ['''', ''ftp'', ''hdl'', ''prospero'', ''http'', ''imap'', ''https'', ''shttp'', ''rtsp'',
     ''rtsps'', ''rtspu'', ''sip'', ''sips'', ''mms'', ''sftp'', ''tel'']"

definition uses_netloc :: "string list" where
  "uses_netloc = ['''', ''ftp'', ''http'', ''gopher'', ''nntp'', ''telnet'', ''imap'', ''wais'', ''file'', ''mms'',
     ''https'', ''shttp'', ''snews'', ''prospero'', ''rtsp'', ''rtsps'', ''rtspu'', ''rsync'', ''svn'',
     ''svn+ssh'', ''sftp'', ''nfs'', ''git'', ''git+ssh'', ''ws'', ''wss'', ''itms-services'']"

definition kept_char :: "char \<Rightarrow> bool" where
  \<comment> \<open>not TAB, LF or CR\<close>
  "kept_char c \<longleftrightarrow> of_char c \<noteq> (9 :: nat) \<and> of_char c \<noteq> (10 :: nat) \<and> of_char c \<noteq> (13 :: nat)"

definition clean_url :: "string \<Rightarrow> string" where
  \<comment> \<open>leading C0 controls and spaces are stripped, TAB, CR and LF removed everywhere\<close>
  "clean_url s = filter kept_char (dropWhile (code_in 0 32) s)"

definition split_scheme :: "string \<Rightarrow> string \<times> string" where
  "split_scheme s =
     (let p = before CHR '':'' s in
        if CHR '':'' \<in> set s \<and> p \<noteq> [] \<and> is_letter (hd p) \<and> list_all scheme_char p
        then (lower p, after CHR '':'' s) else ([], s))"

definition split_netloc :: "string \<Rightarrow> string \<times> string" where
  "split_netloc s =
     (if take 2 s = ''//''
      then (takeWhile (\<lambda>c. \<not> List.member ''/?#'' c) (drop 2 s), dropWhile (\<lambda>c. \<not> List.member ''/?#'' c) (drop 2 s))
      else ([], s))"

definition split_params :: "string \<Rightarrow> string \<times> string" where
  \<comment> \<open>the parameters of the last path segment\<close>
  "split_params p =
     (let d = upto_last CHR ''/'' p; f = after_last CHR ''/'' p
      in (d @ before CHR '';'' f, after CHR '';'' f))"

definition urlparse :: "string \<Rightarrow> url_parts res" where
  "urlparse s0 =
     (let (sch, s1) = split_scheme (clean_url s0); (n, s2) = split_netloc s1 in
        if \<not> netloc_ok n then Inl (ValueError ''Invalid IPv6 URL'')
        else (let frag = after CHR ''#'' s2; s3 = before CHR ''#'' s2;
                  q = after CHR ''?'' s3; p = before CHR ''?'' s3;
                  (p', ps) = (if List.member uses_params sch then split_params p else (p, []))
              in Inr \<lparr>u_scheme = sch, u_netloc = n, u_path = p', u_params = ps, u_query = q, u_fragment = frag\<rparr>))"

section \<open>Printing\<close>

definition urlunparse :: "url_parts \<Rightarrow> string" where
  "urlunparse u =
     (let p = u_path u @ (if u_params u = [] then [] else '';'' @ u_params u);
          s1 = (if u_netloc u \<noteq> [] \<or>
                   (u_scheme u \<noteq> [] \<and> List.member uses_netloc (u_scheme u) \<and> take 2 p \<noteq> ''//'')
                then ''//'' @ u_netloc u @ (if p \<noteq> [] \<and> take 1 p \<noteq> ''/'' then ''/'' @ p else p) else p);
          s2 = (if u_scheme u = [] then s1 else u_scheme u @ '':'' @ s1);
          s3 = (if u_query u = [] then s2 else s2 @ ''?'' @ u_query u)
      in if u_fragment u = [] then s3 else s3 @ ''#'' @ u_fragment u)"

definition hostname :: "url_parts \<Rightarrow> string option" where
  "hostname u =
     (let hp = after_last CHR ''@'' (u_netloc u);
          h = (if CHR ''['' \<in> set hp then before CHR '']'' (after CHR ''['' hp) else before CHR '':'' hp)
      in if h = [] then None
         else Some (lower (before CHR ''%'' h) @ drop (length (before CHR ''%'' h)) h))"

end
