(* ===== verification/Provider.thy ===== *)
theory Provider
  imports Url_Parse
begin

text \<open>
  \<open>providers/base.py\<close> and \<open>providers/dry_run.py\<close>: the result of a purge, the protocol
  \<open>CdnProvider\<close> as a locale, how HTTP answers are classified and how the results of a batch are
  combined (the same code in \<open>fastly.py\<close> and \<open>gcp.py\<close>), and the dry-run provider.

  What the network answers is a parameter: a \<open>purge\<close> takes a world \<open>w\<close> that says how each request of
  that call is answered.
\<close>

section \<open>Results\<close>

record purge_result =
  ok :: bool
  retryable :: bool
  result_message :: string

datatype http_result =
    Response int \<comment> \<open>a status code\<close>
  | TransportError string \<comment> \<open>httpx.HTTPError\<close>
  | Raises exn \<comment> \<open>any other exception of the client\<close>

definition success :: "string \<Rightarrow> purge_result" where
  "success m = \<lparr>ok = True, retryable = False, result_message = m\<rparr>"

definition failure :: "bool \<Rightarrow> string \<Rightarrow> purge_result" where
  "failure r m = \<lparr>ok = False, retryable = r, result_message = m\<rparr>"

lemma result_sel [simp]:
  "ok (success m)" "\<not> ok (failure r m)" "retryable (failure r m) = r" "\<not> retryable (success m)"
  "result_message (success m) = m" "result_message (failure r m) = m"
  by (simp_all add: success_def failure_def)

fun nat_digits :: "nat \<Rightarrow> string" where
  "nat_digits n = (if n < 10 then [char_of (n + 48)] else nat_digits (n div 10) @ [char_of (n mod 10 + 48)])"

declare nat_digits.simps [simp del]

definition show_int :: "int \<Rightarrow> string" where
  "show_int n = (if n < 0 then ''-'' @ nat_digits (nat (- n)) else nat_digits (nat n))"

definition retryable_status :: "int list" where
  "retryable_status = [408, 425, 429, 500, 502, 503, 504]"

definition is_2xx :: "int \<Rightarrow> bool" where
  "is_2xx s \<longleftrightarrow> 200 \<le> s \<and> s < 300"

definition classify :: "int \<Rightarrow> purge_result" where
  \<comment> \<open>the result of one request whose answer has this status\<close>
  "classify s =
     (if is_2xx s then success ''ok''
      else if List.member retryable_status s then failure True (''HTTP '' @ show_int s)
      else failure False (''HTTP '' @ show_int s))"

fun http_outcome :: "http_result \<Rightarrow> purge_result res" where
  "http_outcome (Response s) = Inr (classify s)"
| "http_outcome (TransportError m) = Inr (failure True (''transport: '' @ m))"
| "http_outcome (Raises e) = Inl e"

definition gather :: "(nat \<Rightarrow> 'a \<Rightarrow> 'b res) \<Rightarrow> 'a list \<Rightarrow> 'b list res" where
  \<comment> \<open>\<open>asyncio.gather\<close>: the results in the order of the arguments, or an exception of one of them\<close>
  "gather f xs = map_res (\<lambda>(i, x). f i x) (List.enumerate 0 xs)"

definition aggregate :: "purge_result list \<Rightarrow> purge_result" where
  "aggregate rs =
     (let terminal = filter (\<lambda>r. \<not> ok r \<and> \<not> retryable r) rs; retry = filter (\<lambda>r. \<not> ok r \<and> retryable r) rs in
        if terminal \<noteq> [] then failure False (join_with ''; '' (map result_message terminal))
        else if retry \<noteq> [] then failure True (join_with ''; '' (map result_message retry))
        else success ''ok'')"

section \<open>Severity\<close>

text \<open>What a result asks of the worker, ordered from nothing to giving up.\<close>

datatype severity = Accepted | Retry | Terminal

fun rank :: "severity \<Rightarrow> nat" where
  "rank Accepted = 0"
| "rank Retry = 1"
| "rank Terminal = 2"

lemma rank_inject [simp]: "rank a = rank b \<longleftrightarrow> a = b"
  by (cases a; cases b) simp_all

instantiation severity :: linorder
begin

definition less_eq_severity :: "severity \<Rightarrow> severity \<Rightarrow> bool" where
  "a \<le> b \<longleftrightarrow> rank a \<le> rank b"

definition less_severity :: "severity \<Rightarrow> severity \<Rightarrow> bool" where
  "a < b \<longleftrightarrow> rank a < rank b"

instance
  by standard (auto simp: less_eq_severity_def less_severity_def)

end

instantiation severity :: order_bot
begin

definition bot_severity :: severity where
  "bot = Accepted"

instance
  by standard (simp add: bot_severity_def less_eq_severity_def)

end

definition severity :: "purge_result \<Rightarrow> severity" where
  "severity r = (if ok r then Accepted else if retryable r then Retry else Terminal)"

lemma severity_simps [simp]:
  "severity (success m) = Accepted" "severity (failure True m) = Retry"
  "severity (failure False m) = Terminal"
  by (simp_all add: severity_def)

lemma severity_cases:
  "severity r = Accepted \<longleftrightarrow> ok r" "severity r = Retry \<longleftrightarrow> \<not> ok r \<and> retryable r"
  "severity r = Terminal \<longleftrightarrow> \<not> ok r \<and> \<not> retryable r"
  by (simp_all add: severity_def)

lemma aggregate_severity:
  "severity (aggregate rs) =
     (if Terminal \<in> severity ` set rs then Terminal
      else if Retry \<in> severity ` set rs then Retry else Accepted)"
proof -
  have "Terminal \<in> severity ` set rs \<longleftrightarrow> (\<exists>r \<in> set rs. \<not> ok r \<and> \<not> retryable r)"
    "Retry \<in> severity ` set rs \<longleftrightarrow> (\<exists>r \<in> set rs. \<not> ok r \<and> retryable r)"
    by (force simp: severity_def split: if_splits)+
  then show ?thesis
    by (auto simp: aggregate_def Let_def filter_empty_conv)
qed

lemma worst_severity: "severity (aggregate rs) = Max (insert bot (severity ` set rs))"
proof (rule sym, rule Max_eqI)
  show "finite (insert bot (severity ` set rs))" by simp
  have "a \<le> severity (aggregate rs)" if "a \<in> severity ` set rs" for a
    using that unfolding aggregate_severity by (cases a) (auto simp: less_eq_severity_def)
  then show "a \<le> severity (aggregate rs)" if "a \<in> insert bot (severity ` set rs)" for a
    using that by auto
  show "severity (aggregate rs) \<in> insert bot (severity ` set rs)"
    by (auto simp: aggregate_severity bot_severity_def)
qed

definition answer_severity :: "http_result \<Rightarrow> severity" where
  \<comment> \<open>the table of \<open>docs/cdn-providers.md\<close>\<close>
  "answer_severity h = (case h of
     Response s \<Rightarrow> if is_2xx s then Accepted else if s \<in> {408, 425, 429, 500, 502, 503, 504} then Retry else Terminal
   | TransportError m \<Rightarrow> Retry
   | Raises e \<Rightarrow> Retry)"

lemma outcome_severity: "http_outcome h = Inr r \<Longrightarrow> severity r = answer_severity h"
  by (cases h) (auto simp: classify_def answer_severity_def retryable_status_def)

section \<open>The protocol\<close>

text \<open>
  \<open>accepted w p us\<close> are the URLs of the batch that the CDN accepted in the world \<open>w\<close>. The protocol
  promises that a result that is \<open>ok\<close> covers the whole batch.
\<close>

locale cdn_provider =
  fixes purge :: "'w \<Rightarrow> 'p \<Rightarrow> string list \<Rightarrow> 'p \<times> purge_result res"
    and accepted :: "'w \<Rightarrow> 'p \<Rightarrow> string list \<Rightarrow> string set"
  assumes ok_accepted: "purge w p us = (p', Inr r) \<Longrightarrow> ok r \<Longrightarrow> set us \<subseteq> accepted w p us"

lemma gather_Inr:
  assumes "gather f xs = Inr ys"
  shows "length ys = length xs" "i < length xs \<Longrightarrow> f i (xs ! i) = Inr (ys ! i)"
  using map_res_InrD [of "\<lambda>(i, x). f i x" "List.enumerate 0 xs" ys] assms
  by (auto simp: gather_def nth_enumerate_eq)

lemma gather_results:
  assumes "\<forall>i < length us. \<exists>r. f i (us ! i) = Inr r"
  shows "\<exists>rs. gather f us = Inr rs"
proof -
  define g where "g = (\<lambda>(i, x). projr (f i x))"
  have "(\<lambda>(i, x). f i x) ix = Inr (g ix)" if "ix \<in> set (List.enumerate 0 us)" for ix
  proof -
    obtain i x where ix: "ix = (i, x)" by (cases ix)
    with that have "i < length us" "us ! i = x" by (auto simp: in_set_enumerate_eq)
    with assms obtain r where "f i x = Inr r" by auto
    then show ?thesis by (simp add: ix g_def)
  qed
  then have "map_res (\<lambda>(i, x). f i x) (List.enumerate 0 us) = Inr (map g (List.enumerate 0 us))"
    by (rule map_res_Inr)
  then show ?thesis by (auto simp: gather_def)
qed

lemma aggregate_ok: "ok (aggregate rs) \<longleftrightarrow> (\<forall>r \<in> set rs. ok r)"
  by (auto simp: aggregate_def Let_def filter_empty_conv)

lemma http_outcome_ok: "http_outcome h = Inr r \<Longrightarrow> ok r \<longleftrightarrow> (\<exists>s. h = Response s \<and> is_2xx s)"
  by (cases h) (auto simp: classify_def split: if_splits)

section \<open>The dry-run provider\<close>

record dry_run =
  d_cdn_name :: string
  d_wrapped_type :: string

definition dry_run_lines :: "dry_run \<Rightarrow> string list \<Rightarrow> (string \<times> string \<times> string) list" where
  \<comment> \<open>the \<open>event=dry_run_url\<close> lines it logs\<close>
  "dry_run_lines p us = map (\<lambda>u. (d_cdn_name p, d_wrapped_type p, u)) us"

definition dry_run_purge :: "dry_run \<Rightarrow> string list \<Rightarrow> dry_run \<times> purge_result res" where
  "dry_run_purge p us = (p, Inr (success ''dry-run''))"

definition logged_urls :: "dry_run \<Rightarrow> string list \<Rightarrow> string set" where
  "logged_urls p us = (\<lambda>(c, t, u). u) ` set (dry_run_lines p us)"

interpretation dry: cdn_provider "\<lambda>w. dry_run_purge" "\<lambda>w. logged_urls"
  by unfold_locales (auto simp: logged_urls_def dry_run_lines_def image_iff)

end
