(* ===== verification/Fastly.thy ===== *)
theory Fastly
  imports Provider Url_Mapper
begin

text \<open>
  \<open>providers/fastly.py\<close>: the purge endpoint of a URL, its expansion over the domains of a service,
  the discovery of these domains with its cache, and \<open>purge\<close>. The answers of the Fastly API are the
  parameter \<open>fastly_world\<close>: a GET gives a status and a body that may not decode, the \<open>i\<close>-th POST of a
  call gives an \<open>http_result\<close>.
\<close>

section \<open>URLs\<close>

definition fastly_api_base :: string where
  "fastly_api_base = ''https://api.fastly.com''"

definition purge_endpoint :: "string \<Rightarrow> string res" where
  "purge_endpoint u =
     bind_res (urlparse u) (\<lambda>p. Inr (fastly_api_base @ ''/purge/'' @ u_netloc p @ u_path p @
       (if u_query p = [] then [] else ''?'' @ u_query p)))"

definition url_variants :: "string list \<Rightarrow> string \<Rightarrow> string list res" where
  "url_variants domains u =
     bind_res (urlparse u) (\<lambda>p. Inr (map (\<lambda>h. urlunparse (p\<lparr>u_netloc := h\<rparr>)) (u_netloc p # domains)))"

definition expand_urls_across_domains :: "string list \<Rightarrow> string list \<Rightarrow> string list res" where
  "expand_urls_across_domains urls domains =
     (if domains = [] then Inr urls
      else bind_res (map_res (url_variants domains) urls) (\<lambda>vs. Inr (keep_first [] (concat vs))))"

section \<open>The provider\<close>

record fastly =
  f_service_id :: string
  f_api_token :: string
  f_expand :: bool \<comment> \<open>\<open>purge_all_service_domains\<close>\<close>
  f_domains :: "string list option"

definition init_fastly :: "string \<Rightarrow> string \<Rightarrow> bool \<Rightarrow> fastly" where
  "init_fastly sid token expand = \<lparr>f_service_id = sid, f_api_token = token, f_expand = expand, f_domains = None\<rparr>"

datatype 'a api_answer =
    ApiResponse int "'a res" \<comment> \<open>a status and the decoded body\<close>
  | ApiTransport string
  | ApiRaises exn

record fastly_world =
  w_service :: "string \<Rightarrow> (bool \<times> int option) list api_answer" \<comment> \<open>\<open>active\<close> and \<open>number\<close> of each version\<close>
  w_domains :: "string \<Rightarrow> string option list api_answer" \<comment> \<open>the \<open>name\<close> of each entry that has one\<close>
  w_post :: "nat \<Rightarrow> string \<Rightarrow> http_result"

definition api_get :: "'a api_answer \<Rightarrow> (purge_result + (int \<times> 'a res)) res" where
  "api_get a = (case a of
     ApiResponse s b \<Rightarrow> Inr (Inr (s, b))
   | ApiTransport m \<Rightarrow> Inr (Inl (failure True (''transport: '' @ m)))
   | ApiRaises e \<Rightarrow> Inl e)"

definition discovered :: "'a api_answer \<Rightarrow> (purge_result + 'a) res" where
  \<comment> \<open>a GET of the discovery and the check of its status\<close>
  "discovered a =
     bind_res (api_get a) (\<lambda>x. case x of
       Inl err \<Rightarrow> Inr (Inl err)
     | Inr (s, b) \<Rightarrow>
         if is_2xx s then bind_res b (\<lambda>v. Inr (Inr v))
         else Inr (Inl (failure (List.member retryable_status s) (''domain discovery: HTTP '' @ show_int s))))"

definition active_version :: "(bool \<times> int option) list \<Rightarrow> int option" where
  "active_version vs = (case List.find fst vs of None \<Rightarrow> None | Some v \<Rightarrow> snd v)"

definition service_path :: "fastly \<Rightarrow> string" where
  "service_path p = ''/service/'' @ f_service_id p"

definition domain_path :: "fastly \<Rightarrow> int \<Rightarrow> string" where
  "domain_path p n = service_path p @ ''/version/'' @ show_int n @ ''/domain''"

definition discover_domains :: "fastly_world \<Rightarrow> fastly \<Rightarrow> (purge_result + string list) res" where
  \<comment> \<open>the two requests of \<open>_ensure_domains\<close>\<close>
  "discover_domains w p =
     bind_res (discovered (w_service w (service_path p))) (\<lambda>x. case x of
       Inl err \<Rightarrow> Inr (Inl err)
     | Inr versions \<Rightarrow>
         (case active_version versions of
            None \<Rightarrow> Inr (Inl (failure False
              (''domain discovery: service '' @ py_repr (f_service_id p) @ '' has no active version'')))
          | Some n \<Rightarrow>
              bind_res (discovered (w_domains w (domain_path p n))) (\<lambda>y. case y of
                Inl err \<Rightarrow> Inr (Inl err)
              | Inr ds \<Rightarrow> Inr (Inr (List.map_filter id ds)))))"

definition ensure_domains :: "fastly_world \<Rightarrow> fastly \<Rightarrow> fastly \<times> (purge_result + string list) res" where
  "ensure_domains w p =
     (case f_domains p of
        Some ds \<Rightarrow> (p, Inr (Inr ds))
      | None \<Rightarrow>
          (case discover_domains w p of
             Inr (Inr ds) \<Rightarrow> (p\<lparr>f_domains := Some ds\<rparr>, Inr (Inr ds))
           | r \<Rightarrow> (p, r)))"

definition fastly_purge_one :: "fastly_world \<Rightarrow> nat \<Rightarrow> string \<Rightarrow> purge_result res" where
  "fastly_purge_one w i u = bind_res (purge_endpoint u) (\<lambda>e. http_outcome (w_post w i e))"

definition fastly_purge_all :: "fastly_world \<Rightarrow> string list \<Rightarrow> purge_result res" where
  "fastly_purge_all w us = bind_res (gather (fastly_purge_one w) us) (\<lambda>rs. Inr (aggregate rs))"

definition fastly_purge :: "fastly_world \<Rightarrow> fastly \<Rightarrow> string list \<Rightarrow> fastly \<times> purge_result res" where
  "fastly_purge w p us =
     (if us = [] then (p, Inr (success ''empty''))
      else if f_expand p then
        (case ensure_domains w p of
           (p', Inl e) \<Rightarrow> (p', Inl e)
         | (p', Inr (Inl err)) \<Rightarrow> (p', Inr err)
         | (p', Inr (Inr ds)) \<Rightarrow> (p', bind_res (expand_urls_across_domains us ds) (fastly_purge_all w)))
      else (p, fastly_purge_all w us))"

section \<open>Acceptance\<close>

definition fastly_purged :: "fastly_world \<Rightarrow> string \<Rightarrow> bool" where
  \<comment> \<open>a POST to the endpoint of this URL was answered with a 2xx status\<close>
  "fastly_purged w u \<longleftrightarrow> (\<exists>i e s. purge_endpoint u = Inr e \<and> w_post w i e = Response s \<and> is_2xx s)"

definition fastly_accepted :: "fastly_world \<Rightarrow> fastly \<Rightarrow> string list \<Rightarrow> string set" where
  "fastly_accepted w p us =
     {u. fastly_purged w u \<or> (\<exists>q. urlparse u = Inr q \<and> fastly_purged w (urlunparse q))}"

lemma fastly_purge_all_ok:
  assumes "fastly_purge_all w us = Inr r" "ok r" "u \<in> set us"
  shows "fastly_purged w u"
proof -
  from assms(1) obtain rs where rs: "gather (fastly_purge_one w) us = Inr rs" "r = aggregate rs"
    by (auto simp: fastly_purge_all_def bind_res_eq_Inr)
  from assms(3) obtain i where i: "i < length us" "us ! i = u" by (auto simp: in_set_conv_nth)
  have "fastly_purge_one w i u = Inr (rs ! i)" using gather_Inr(2) [OF rs(1) i(1)] i(2) by simp
  moreover have "ok (rs ! i)"
    using assms(2) rs gather_Inr(1) [OF rs(1)] i(1) by (simp add: aggregate_ok)
  ultimately show ?thesis
    by (auto simp: fastly_purge_one_def fastly_purged_def bind_res_eq_Inr http_outcome_ok)
qed

lemma expand_Inr:
  assumes "expand_urls_across_domains us ds = Inr vs" "u \<in> set us"
  shows "\<exists>q. urlparse u = Inr q \<and> urlunparse q \<in> set vs \<or> u \<in> set vs"
proof (cases "ds = []")
  case False
  with assms(1) obtain xss where xss: "map_res (url_variants ds) us = Inr xss" "vs = keep_first [] (concat xss)"
    by (auto simp: expand_urls_across_domains_def bind_res_eq_Inr)
  from assms(2) obtain i where i: "i < length us" "us ! i = u" by (auto simp: in_set_conv_nth)
  with map_res_InrD [OF xss(1)] have v: "url_variants ds u = Inr (xss ! i)" "i < length xss" by auto
  from v(1) obtain q where q: "urlparse u = Inr q"
    "xss ! i = map (\<lambda>h. urlunparse (q\<lparr>u_netloc := h\<rparr>)) (u_netloc q # ds)"
    by (auto simp: url_variants_def bind_res_eq_Inr)
  have "urlunparse q \<in> set (xss ! i)" by (simp add: q(2))
  with xss(2) v(2) q(1) show ?thesis by (auto intro: nth_mem)
qed (use assms in \<open>simp add: expand_urls_across_domains_def\<close>)

lemma discovered_error: "discovered a = Inr (Inl err) \<Longrightarrow> \<not> ok err"
  by (cases a) (auto simp: discovered_def api_get_def bind_res_eq_Inr split: if_splits)

lemma discover_error:
  assumes "discover_domains w p = Inr (Inl err)"
  shows "\<not> ok err"
proof -
  obtain x where x: "discovered (w_service w (service_path p)) = Inr x"
    using assms by (cases "discovered (w_service w (service_path p))") (auto simp: discover_domains_def)
  show ?thesis
  proof (cases x)
    case (Inl e)
    with x assms discovered_error show ?thesis by (auto simp: discover_domains_def)
  next
    case (Inr vs)
    show ?thesis
    proof (cases "active_version vs")
      case None
      with x Inr assms show ?thesis by (auto simp: discover_domains_def)
    next
      case (Some n)
      with x Inr assms obtain y where y: "discovered (w_domains w (domain_path p n)) = Inr y"
        by (cases "discovered (w_domains w (domain_path p n))") (auto simp: discover_domains_def)
      with x Inr Some assms discovered_error show ?thesis
        by (cases y) (auto simp: discover_domains_def)
    qed
  qed
qed

lemma fastly_ok_accepted:
  assumes "fastly_purge w p us = (p', Inr r)" "ok r"
  shows "set us \<subseteq> fastly_accepted w p us"
proof
  fix u assume u: "u \<in> set us"
  then have ne: "us \<noteq> []" by auto
  show "u \<in> fastly_accepted w p us"
  proof (cases "f_expand p")
    case False
    with assms ne u show ?thesis
      using fastly_purge_all_ok [of w us r u] by (simp add: fastly_purge_def fastly_accepted_def)
  next
    case True
    have "\<not> ok err" if "discover_domains w p = Inr (Inl err)" for err
      by (rule discover_error [OF that])
    then have "\<not> ok err" if "ensure_domains w p = (q, Inr (Inl err))" for q err
      using that by (auto simp: ensure_domains_def split: option.splits sum.splits)
    with True assms ne obtain ds vs where "expand_urls_across_domains us ds = Inr vs"
      "fastly_purge_all w vs = Inr r"
      by (auto simp: fastly_purge_def bind_res_eq_Inr split: prod.splits sum.splits)
    with assms(2) expand_Inr [OF _ u] show ?thesis
      using fastly_purge_all_ok by (fastforce simp: fastly_accepted_def)
  qed
qed

interpretation fastly: cdn_provider fastly_purge fastly_accepted
  by unfold_locales (rule fastly_ok_accepted)

end
