(* ===== verification/Web_Url.thy ===== *)
theory Web_Url
  imports Url_Parse
begin

text \<open>
  How \<open>urlparse\<close> and \<open>urlunparse\<close> act on the target URLs of an ordinary configuration: an http or
  https scheme, a host without brackets and delimiters, and a path.
\<close>

section \<open>Ordinary URLs\<close>

definition web_scheme :: "string \<Rightarrow> bool" where
  "web_scheme s \<longleftrightarrow> s = ''http'' \<or> s = ''https''"

definition plain_host :: "string \<Rightarrow> bool" where
  "plain_host h \<longleftrightarrow> (\<forall>c \<in> set h. kept_char c \<and> \<not> List.member ''/?#[]'' c)"

definition plain_path :: "string \<Rightarrow> bool" where
  "plain_path p \<longleftrightarrow> take 1 p = ''/'' \<and> (\<forall>c \<in> set p. kept_char c \<and> \<not> List.member ''?#;'' c)"

definition web_url :: "string \<Rightarrow> string \<Rightarrow> string \<Rightarrow> string" where
  "web_url s h p = s @ ''://'' @ h @ p"

lemma before_none [simp]:
  assumes "c \<notin> set s"
  shows "before c s = s" "after c s = []"
proof -
  have "\<forall>x \<in> set s. x \<noteq> c" using assms by auto
  then have "takeWhile (\<lambda>x. x \<noteq> c) s = s" "dropWhile (\<lambda>x. x \<noteq> c) s = []" by simp_all
  then show "before c s = s" "after c s = []"
    by (simp_all only: before_def after_def drop_Nil)
qed

lemma before_app [simp]:
  assumes "c \<notin> set s"
  shows "before c (s @ c # t) = s" "after c (s @ c # t) = t"
proof -
  have "\<forall>x \<in> set s. x \<noteq> c" using assms by auto
  then show "before c (s @ c # t) = s" "after c (s @ c # t) = t"
    by (simp_all add: before_def after_def takeWhile_append dropWhile_append)
qed

lemma web_scheme_chars:
  assumes "web_scheme s"
  shows "list_all kept_char (s @ ''://'')" "s \<noteq> []" "\<not> code_in 0 32 (hd s)" "is_letter (hd s)"
    "list_all scheme_char s" "lower s = s" "CHR '':'' \<notin> set s"
proof -
  from assms consider "s = ''http''" | "s = ''https''" by (auto simp: web_scheme_def)
  then show "list_all kept_char (s @ ''://'')" "s \<noteq> []" "\<not> code_in 0 32 (hd s)" "is_letter (hd s)"
    "list_all scheme_char s" "lower s = s" "CHR '':'' \<notin> set s"
    by (cases; simp only: ; code_simp)+
qed

lemma clean_web:
  assumes "web_scheme s" "\<forall>c \<in> set t. kept_char c"
  shows "clean_url (s @ ''://'' @ t) = s @ ''://'' @ t"
proof -
  have "\<forall>c \<in> set (s @ ''://'' @ t). kept_char c"
    using web_scheme_chars(1) [OF assms(1)] assms(2) by (auto simp: list_all_iff)
  then have "filter kept_char (s @ ''://'' @ t) = s @ ''://'' @ t" by (simp only: filter_id_conv)
  moreover have "dropWhile (code_in 0 32) (s @ ''://'' @ t) = s @ ''://'' @ t"
    using web_scheme_chars(2,3) [OF assms(1)] by (cases s) simp_all
  ultimately show ?thesis by (simp only: clean_url_def)
qed

lemma scheme_web:
  assumes "web_scheme s"
  shows "split_scheme (s @ ''://'' @ t) = (s, ''//'' @ t)"
proof -
  note w = web_scheme_chars [OF assms]
  have e: "s @ ''://'' @ t = s @ CHR '':'' # (''//'' @ t)" by simp
  show ?thesis
    unfolding e split_scheme_def before_app [OF w(7)] Let_def using w(2,4-6) by simp
qed

lemma netloc_web:
  assumes "plain_host h" "take 1 p = [] \<or> List.member ''/?#'' (hd p)"
  shows "split_netloc (''//'' @ h @ p) = (h, p)"
proof -
  have h: "\<forall>c \<in> set h. \<not> List.member ''/?#'' c" using assms(1) by (auto simp: plain_host_def)
  have p: "p = [] \<or> (\<exists>x xs. p = x # xs \<and> List.member ''/?#'' x)" using assms(2) by (cases p) auto
  have "takeWhile Q (h @ p) = h" "dropWhile Q (h @ p) = p"
    if "\<forall>c \<in> set h. Q c" "p = [] \<or> (\<exists>x xs. p = x # xs \<and> \<not> Q x)" for Q
    using that by (auto simp: takeWhile_append dropWhile_append)
  from this [OF h] p show ?thesis by (simp add: split_netloc_def)
qed

lemma netloc_ok_plain: "plain_host h \<Longrightarrow> netloc_ok h"
  by (auto simp: plain_host_def netloc_ok_def Let_def)

lemma urlparse_web:
  assumes "web_scheme s" "plain_host h" "take 1 p = ''/''" "\<forall>c \<in> set p. kept_char c"
  shows "urlparse (web_url s h p) =
    (let q = before CHR ''?'' (before CHR ''#'' p) in
      Inr \<lparr>u_scheme = s, u_netloc = h, u_path = fst (split_params q), u_params = snd (split_params q),
         u_query = after CHR ''?'' (before CHR ''#'' p), u_fragment = after CHR ''#'' p\<rparr>)"
proof -
  have k: "\<forall>c \<in> set (h @ p). kept_char c" using assms(2,4) by (auto simp: plain_host_def)
  have d: "take 1 p = [] \<or> List.member ''/?#'' (hd p)" using assms(3) by (cases p) auto
  have u: "List.member uses_params s" using assms(1) by (auto simp: web_scheme_def uses_params_def)
  have nl: "split_netloc (CHR ''/'' # CHR ''/'' # h @ p) = (h, p)" using netloc_web [OF assms(2) d] by simp
  show ?thesis
    unfolding urlparse_def web_url_def clean_web [OF assms(1) k] scheme_web [OF assms(1)] prod.case
    using netloc_ok_plain [OF assms(2)] u by (simp add: nl Let_def case_prod_unfold)
qed

lemma last_append:
  assumes "c \<notin> set y"
  shows "upto_last c (p @ y) = upto_last c p" "after_last c (p @ y) = after_last c p @ y"
proof -
  have "\<forall>x \<in> set (rev y). x \<noteq> c" using assms by auto
  then show "upto_last c (p @ y) = upto_last c p" "after_last c (p @ y) = after_last c p @ y"
    by (simp_all add: upto_last_def after_last_def takeWhile_append dropWhile_append)
qed

lemma upto_after_last: "upto_last c p @ after_last c p = p"
  by (simp add: upto_last_def after_last_def rev_append [symmetric])

lemma split_params_none: "CHR '';'' \<notin> set p \<Longrightarrow> split_params p = (p, [])"
proof -
  assume a: "CHR '';'' \<notin> set p"
  have s: "upto_last CHR ''/'' p @ after_last CHR ''/'' p = p"
    by (rule upto_after_last)
  then have "set (after_last CHR ''/'' p) \<subseteq> set p" by (metis Un_upper2 set_append)
  with a have "CHR '';'' \<notin> set (after_last CHR ''/'' p)" by auto
  with s show ?thesis by (simp add: split_params_def Let_def)
qed

lemma urlparse_plain:
  assumes "web_scheme s" "plain_host h" "plain_path p"
  shows "urlparse (web_url s h p) = Inr \<lparr>u_scheme = s, u_netloc = h, u_path = p, u_params = [],
    u_query = [], u_fragment = []\<rparr>"
proof -
  have "CHR ''?'' \<notin> set p" "CHR ''#'' \<notin> set p" "CHR '';'' \<notin> set p"
    using assms(3) by (auto simp: plain_path_def)
  with urlparse_web [OF assms(1,2), of p] assms(3) show ?thesis
    by (simp add: plain_path_def split_params_none Let_def)
qed

lemma urlunparse_plain:
  assumes "web_scheme s" "plain_path p" "h \<noteq> []"
  shows "urlunparse \<lparr>u_scheme = s, u_netloc = h, u_path = p, u_params = [], u_query = [], u_fragment = []\<rparr> =
    web_url s h p"
proof -
  obtain p' where "p = CHR ''/'' # p'" using assms(2) by (cases p) (auto simp: plain_path_def)
  with assms(3) web_scheme_chars(2) [OF assms(1)] show ?thesis
    by (simp add: urlunparse_def Let_def web_url_def)
qed

lemma plain_examples:
  "web_scheme ''https''" "plain_host ''repo.x''" "plain_path ''/alma/9''" "plain_path ''/a''"
  by code_simp+

definition plain_target :: "string \<times> string \<times> string \<Rightarrow> bool" where
  "plain_target t \<longleftrightarrow> (case t of (s, h, p) \<Rightarrow> web_scheme s \<and> plain_host h \<and> h \<noteq> [] \<and> plain_path p)"

abbreviation target_str :: "string \<times> string \<times> string \<Rightarrow> string" where
  "target_str t \<equiv> (case t of (s, h, p) \<Rightarrow> web_url s h p)"

lemma before_empty: "before c [] = []" "after c [] = []"
  by (simp_all add: before_def after_def)

definition simple_host :: "string \<Rightarrow> bool" where
  \<comment> \<open>a domain name without user, port and zone\<close>
  "simple_host h \<longleftrightarrow> h \<noteq> [] \<and> CHR ''@'' \<notin> set h \<and> CHR '':'' \<notin> set h \<and> CHR ''%'' \<notin> set h \<and> CHR ''['' \<notin> set h"

lemma after_last_none: "c \<notin> set h \<Longrightarrow> after_last c h = h"
  using last_append(2) [of c h "[]"] by (simp add: after_last_def)

lemma hostname_simple: "simple_host (u_netloc q) \<Longrightarrow> hostname q = Some (lower (u_netloc q))"
  by (simp add: hostname_def simple_host_def after_last_none)

end
