(* ===== verification/Fastly_Contract.thy ===== *)
theory Fastly_Contract
  imports Fastly Web_Url
begin

text \<open>
  What the Fastly provider promises: the endpoint of an ordinary URL, the URLs it is expanded to, the
  result of a batch as the worst of its answers, and the cache of the discovered domains; and the
  file names whose URLs share an endpoint.
\<close>

section \<open>Endpoints\<close>

text \<open>
  The purge endpoint of an ordinary http or https URL is the API base, \<open>/purge/\<close>, the host and
  the path, with the scheme dropped; two such URLs on one scheme share an endpoint only when they are
  equal.
\<close>

lemma endpoint_of_plain:
  assumes "web_scheme s" "plain_host h" "plain_path p" "plain_host h'" "plain_path p'"
  shows "purge_endpoint (web_url s h p) = Inr (''https://api.fastly.com/purge/'' @ h @ p) \<and>
    (purge_endpoint (web_url s h p) = purge_endpoint (web_url s h' p') \<longleftrightarrow> web_url s h p = web_url s h' p')"
proof -
  have e: "purge_endpoint (web_url s g q) = Inr (''https://api.fastly.com/purge/'' @ g @ q)"
    if "plain_host g" "plain_path q" for g q
    using urlparse_plain [OF assms(1) that] by (simp add: purge_endpoint_def fastly_api_base_def)
  then show ?thesis using assms(2-5) by (simp add: web_url_def)
qed

text \<open>
  The endpoint is not injective on file names: a semicolon in the last segment starts parameters,
  and a number sign starts a fragment, and both are dropped. The file whose name continues after the
  character is never purged itself; the URL without that part is.
\<close>

lemma endpoint_drops_params:
  assumes "web_scheme s" "plain_host h" "plain_path p" "\<forall>c \<in> set x. kept_char c"
    and "CHR ''/'' \<notin> set x" "CHR ''#'' \<notin> set x" "CHR ''?'' \<notin> set x"
  shows "purge_endpoint (web_url s h (p @ '';'' @ x)) = purge_endpoint (web_url s h p) \<and>
    purge_endpoint (web_url s h (p @ ''#'' @ x)) = purge_endpoint (web_url s h p)"
proof -
  have p: "take 1 p = ''/''" "\<forall>c \<in> set p. kept_char c" "CHR ''?'' \<notin> set p" "CHR ''#'' \<notin> set p" "CHR '';'' \<notin> set p"
    using assms(3) by (auto simp: plain_path_def)
  have k: "\<forall>c \<in> set (p @ [d] @ x). kept_char c" if "d = CHR '';'' \<or> d = CHR ''#''" for d
    using that p(2) assms(4) by (auto simp: kept_char_def)
  have t: "take 1 (p @ [d] @ x) = ''/''" for d using p(1) by (cases p) auto
  have "CHR ''/'' \<notin> set ('';'' @ x)" using assms(5) by simp
  note last = last_append [OF this, of p]
  have "CHR '';'' \<notin> set (after_last CHR ''/'' p)"
    using p(5) upto_after_last [of "CHR ''/''" p] by (metis Un_iff set_append)
  then have sp: "fst (split_params (p @ '';'' @ x)) = p"
    unfolding split_params_def last Let_def using upto_after_last [of "CHR ''/''" p] by simp
  have none: "CHR ''#'' \<notin> set (p @ '';'' @ x)" "CHR ''?'' \<notin> set (p @ '';'' @ x)"
    using p(3,4) assms(6,7) by simp_all
  have plain: "purge_endpoint (web_url s h p) = Inr (fastly_api_base @ ''/purge/'' @ h @ p)"
    using urlparse_plain [OF assms(1-3)] by (simp add: purge_endpoint_def)
  have "purge_endpoint (web_url s h (p @ '';'' @ x)) = Inr (fastly_api_base @ ''/purge/'' @ h @ p)"
    unfolding purge_endpoint_def urlparse_web [OF assms(1,2) t k [OF disjI1 [OF refl]]] Let_def
      before_none [OF none(1)] before_none [OF none(2)] sp by simp
  moreover have "purge_endpoint (web_url s h (p @ ''#'' @ x)) = Inr (fastly_api_base @ ''/purge/'' @ h @ p)"
    unfolding purge_endpoint_def urlparse_web [OF assms(1,2) t k [OF disjI2 [OF refl]]] Let_def
    using p(3-5) by (simp add: split_params_none)
  ultimately show ?thesis using plain by simp
qed

section \<open>Expansion over the domains of a service\<close>

lemma variants_plain:
  assumes "plain_target t" "\<forall>d \<in> set ds. d \<noteq> []"
  shows "url_variants ds (target_str t) =
    Inr (case t of (s, h, p) \<Rightarrow> map (\<lambda>d. web_url s d p) (h # ds))"
proof -
  obtain s h p where t: "t = (s, h, p)" by (cases t)
  have "web_scheme s" "plain_host h" "plain_path p" "\<forall>d \<in> set (h # ds). d \<noteq> []"
    using assms by (simp_all add: t plain_target_def)
  then show ?thesis
    by (simp add: t url_variants_def urlparse_plain urlunparse_plain)
qed

text \<open>
  With domains discovered, a batch of ordinary URLs expands, without an exception, to each path
  on its own host and on every domain of the service, each resulting URL once.
\<close>

lemma expansion_covers:
  assumes "\<forall>t \<in> set ts. plain_target t" "ds \<noteq> []" "\<forall>d \<in> set ds. d \<noteq> []"
  shows "\<exists>vs. expand_urls_across_domains (map target_str ts) ds = Inr vs \<and> distinct vs \<and>
    set vs = {web_url s d p | s h d p. (s, h, p) \<in> set ts \<and> (d = h \<or> d \<in> set ds)}"
proof -
  have "map_res (url_variants ds) (map target_str ts) =
      Inr (map (\<lambda>(s, h, p). map (\<lambda>d. web_url s d p) (h # ds)) ts)"
    using assms(1,3) by (induction ts) (simp_all add: variants_plain)
  with assms(2) have "expand_urls_across_domains (map target_str ts) ds =
      Inr (keep_first [] (concat (map (\<lambda>(s, h, p). map (\<lambda>d. web_url s d p) (h # ds)) ts)))"
    by (simp add: expand_urls_across_domains_def)
  moreover have "set (concat (map (\<lambda>(s, h, p). map (\<lambda>d. web_url s d p) (h # ds)) ts)) =
      {web_url s d p | s h d p. (s, h, p) \<in> set ts \<and> (d = h \<or> d \<in> set ds)}"
    by force
  ultimately show ?thesis by simp
qed

section \<open>Discovery\<close>

text \<open>
  Discovery happens once: a call that obtains the domains caches them, and every later call
  returns the same domains whatever the API would answer; a call that fails, with a result or with
  an exception, leaves the provider as it was, so that the next purge asks again.
\<close>

lemma discovery_cached:
  "case ensure_domains w p of
     (p', Inr (Inr ds)) \<Rightarrow> f_domains p' = Some ds \<and> (\<forall>w'. ensure_domains w' p' = (p', Inr (Inr ds)))
   | (p', Inr (Inl err)) \<Rightarrow> p' = p \<and> \<not> ok err
   | (p', Inl e) \<Rightarrow> p' = p"
  using discover_error
  by (auto simp: ensure_domains_def split: option.splits sum.splits)

section \<open>Results\<close>

lemma gather_Inl:
  assumes "gather f xs = Inl e"
  shows "\<exists>i < length xs. f i (xs ! i) = Inl e"
proof -
  have "map_res g ys = Inl e \<Longrightarrow> \<exists>y \<in> set ys. g y = Inl e" for g :: "'c \<Rightarrow> 'd res" and ys
    by (induction ys) (auto simp: bind_res_def split: sum.splits)
  from this [OF assms [unfolded gather_def]] show ?thesis
    by (auto simp: in_set_enumerate_eq)
qed

definition known_domains :: "fastly_world \<Rightarrow> fastly \<Rightarrow> string list \<Rightarrow> fastly \<Rightarrow> bool" where
  \<comment> \<open>the domains of the service: the ones kept, or else the names the API gives for the first active
    version, which are then kept\<close>
  "known_domains w p ds p' \<longleftrightarrow>
     f_domains p = Some ds \<and> p' = p \<or>
     f_domains p = None \<and> p' = p\<lparr>f_domains := Some ds\<rparr> \<and>
       (\<exists>s t us n vs ns. is_2xx s \<and> is_2xx t \<and> (\<forall>v \<in> set us. \<not> fst v) \<and>
          w_service w (''/service/'' @ f_service_id p) = ApiResponse s (Inr (us @ (True, Some n) # vs)) \<and>
          w_domains w (''/service/'' @ f_service_id p @ ''/version/'' @ show_int n @ ''/domain'') =
            ApiResponse t (Inr ns) \<and> ds = concat (map (case_option [] (\<lambda>d. [d])) ns))"

lemma ensure_known:
  assumes "known_domains w p ds p'"
  shows "ensure_domains w p = (p', Inr (Inr ds))"
proof -
  have names: "List.map_filter id ns = concat (map (case_option [] (\<lambda>d. [d])) ns)" for ns :: "string option list"
    by (induction ns) (auto simp: List.map_filter_simps split: option.splits)
  have active: "active_version (us @ (True, Some n) # vs) = Some n" if "\<forall>v \<in> set us. \<not> fst v" for us n vs
    using that by (induction us) (auto simp: active_version_def)
  show ?thesis
    using assms unfolding known_domains_def
  proof (elim disjE exE conjE)
    fix s t us n vs ns
    assume none: "f_domains p = None" and p': "p' = p\<lparr>f_domains := Some ds\<rparr>"
      and ok: "is_2xx s" "is_2xx t" "\<forall>v \<in> set us. \<not> fst v"
      and service: "w_service w (''/service/'' @ f_service_id p) = ApiResponse s (Inr (us @ (True, Some n) # vs))"
      and domain: "w_domains w (''/service/'' @ f_service_id p @ ''/version/'' @ show_int n @ ''/domain'') = ApiResponse t (Inr ns)"
      and ds: "ds = concat (map (case_option [] (\<lambda>d. [d])) ns)"
    have "w_service w (service_path p) = ApiResponse s (Inr (us @ (True, Some n) # vs))"
      "w_domains w (domain_path p n) = ApiResponse t (Inr ns)"
      unfolding service_path_def domain_path_def append_assoc by (rule service, rule domain)
    then have "discover_domains w p = Inr (Inr ds)"
      by (simp add: discover_domains_def discovered_def api_get_def active ok names ds)
    with none p' show ?thesis by (simp add: ensure_domains_def)
  qed (simp add: ensure_domains_def)
qed

lemma plain_url_inj:
  assumes "plain_target t" "plain_target u" "target_str t = target_str u"
  shows "t = u"
proof -
  obtain s h x where t: "t = (s, h, x)" by (rule prod_cases3)
  obtain s' h' x' where u: "u = (s', h', x')" by (rule prod_cases3)
  have "web_scheme s" "plain_host h" "plain_path x" using assms(1) by (simp_all add: t plain_target_def)
  note p = urlparse_plain [OF this]
  have "web_scheme s'" "plain_host h'" "plain_path x'" using assms(2) by (simp_all add: u plain_target_def)
  note q = urlparse_plain [OF this]
  have "web_url s h x = web_url s' h' x'" using assms(3) by (simp only: t u prod.case)
  then have "urlparse (web_url s h x) = urlparse (web_url s' h' x')" by (rule arg_cong)
  then show ?thesis unfolding p q by (simp add: t u)
qed

lemma map_onto: "set ys \<subseteq> f ` X \<Longrightarrow> \<exists>xs. ys = map f xs \<and> set xs \<subseteq> X"
proof (induction ys)
  case (Cons y ys)
  then obtain x xs where "y = f x" "x \<in> X" "ys = map f xs" "set xs \<subseteq> X" by auto
  then show ?case by (intro exI [of _ "x # xs"]) simp
qed simp

text \<open>The targets that a batch posts to: those given, or with domains each path on its host and on every domain.\<close>

definition over_domains :: "string list \<Rightarrow> (string \<times> string \<times> string) list \<Rightarrow> (string \<times> string \<times> string) set" where
  "over_domains ds ts = {(s, d, x) | s h d x. (s, h, x) \<in> set ts \<and> (d = h \<or> d \<in> set ds)}"

lemma expanded_targets:
  assumes "\<forall>t \<in> set ts. plain_target t" "\<forall>d \<in> set ds. plain_host d \<and> d \<noteq> []"
  shows "\<exists>xs. expand_urls_across_domains (map target_str ts) ds = Inr (map target_str xs) \<and>
    (\<forall>x \<in> set xs. plain_target x) \<and>
    (if ds = [] then xs = ts else distinct xs \<and> set xs = over_domains ds ts)"
proof (cases "ds = []")
  case True
  with assms(1) show ?thesis by (intro exI [of _ ts]) (simp add: expand_urls_across_domains_def)
next
  case False
  have plain: "plain_target x" if "x \<in> over_domains ds ts" for x
    using that assms by (fastforce simp: over_domains_def plain_target_def)
  from expansion_covers [OF assms(1) False] assms(2) obtain vs where
    vs: "expand_urls_across_domains (map target_str ts) ds = Inr vs" "distinct vs"
      "set vs = {web_url s d x | s h d x. (s, h, x) \<in> set ts \<and> (d = h \<or> d \<in> set ds)}" by blast
  have img: "set vs = target_str ` over_domains ds ts"
    unfolding vs(3) over_domains_def by force
  then have "set vs \<subseteq> target_str ` over_domains ds ts" by simp
  from map_onto [OF this] obtain xs where xs: "vs = map target_str xs" "set xs \<subseteq> over_domains ds ts"
    by blast
  have "y \<in> set xs" if y: "y \<in> over_domains ds ts" for y
  proof -
    from y img have "target_str y \<in> set vs" by blast
    then obtain x where x: "x \<in> set xs" "target_str x = target_str y" by (auto simp: xs(1))
    with xs(2) plain y have "x = y" by (blast intro: plain_url_inj)
    with x(1) show ?thesis by simp
  qed
  with xs(2) have "set xs = over_domains ds ts" by blast
  moreover have "distinct xs" using vs(2) by (simp add: xs(1) distinct_map)
  ultimately show ?thesis using False vs(1) xs plain by (intro exI [of _ xs]) auto
qed

lemma purge_all_worst:
  assumes "\<forall>i < length us. purge_endpoint (us ! i) = Inr (e i)"
  shows "case fastly_purge_all w us of
      Inr r \<Rightarrow> (\<forall>i < length us. \<forall>x. w_post w i (e i) \<noteq> Raises x) \<and>
        severity r = Max (insert Accepted {answer_severity (w_post w i (e i)) | i. i < length us})
    | Inl x \<Rightarrow> \<exists>i < length us. w_post w i (e i) = Raises x"
proof -
  have one: "fastly_purge_one w i (us ! i) = http_outcome (w_post w i (e i))" if "i < length us" for i
    using assms that by (simp add: fastly_purge_one_def)
  show ?thesis
  proof (cases "gather (fastly_purge_one w) us")
    case (Inl x)
    from gather_Inl [OF this] obtain i where i: "i < length us" "http_outcome (w_post w i (e i)) = Inl x"
      using one by auto
    then have "w_post w i (e i) = Raises x" by (cases "w_post w i (e i)") auto
    with Inl i(1) show ?thesis by (auto simp: fastly_purge_all_def)
  next
    case (Inr rs)
    have out: "http_outcome (w_post w i (e i)) = Inr (rs ! i)" if "i < length us" for i
      using gather_Inr(2) [OF Inr that] one [OF that] by simp
    then have no: "\<forall>i < length us. \<forall>x. w_post w i (e i) \<noteq> Raises x" by force
    have "severity ` set rs = (\<lambda>i. severity (rs ! i)) ` {i. i < length us}"
      using gather_Inr(1) [OF Inr] by (auto simp: set_conv_nth)
    also have "\<dots> = {answer_severity (w_post w i (e i)) | i. i < length us}"
      unfolding setcompr_eq_image using outcome_severity [OF out] by (intro image_cong) simp_all
    finally have "severity (aggregate rs) = Max (insert Accepted {answer_severity (w_post w i (e i)) | i. i < length us})"
      by (simp add: worst_severity bot_severity_def)
    with no Inr show ?thesis by (simp add: fastly_purge_all_def)
  qed
qed

text \<open>
  C26. A Fastly batch of ordinary URLs, with and without the expansion over the domains of the service.
  It posts, for each URL in turn, or with domains exactly once for each path on its own host and on
  every domain, to the API base, \<open>/purge/\<close>, the host and the path. When all posts are answered, the
  result is the worst of their answers in the order accepted, retryable, terminal, however they are
  distributed; when the result is an exception, one of the posts raised it. The domains are those
  discovered before, or the names the API lists for the first active version, and are kept. When the
  discovery fails instead, the result is not ok and nothing is kept (\<open>discovery_fails\<close>).
\<close>

theorem batch_result_is_worst:
  assumes "ts \<noteq> []" "\<forall>t \<in> set ts. plain_target t"
    and "if f_expand p then known_domains w p ds p' \<and> (\<forall>d \<in> set ds. plain_host d \<and> d \<noteq> []) else ds = [] \<and> p' = p"
  shows "\<exists>xs. (if ds = [] then xs = ts else distinct xs \<and> set xs = over_domains ds ts) \<and>
    (let answer = (\<lambda>i. case xs ! i of (s, h, x) \<Rightarrow> w_post w i (''https://api.fastly.com/purge/'' @ h @ x)) in
      case fastly_purge w p (map target_str ts) of
        (q, Inr r) \<Rightarrow> q = p' \<and> (\<forall>i < length xs. \<forall>x. answer i \<noteq> Raises x) \<and>
          severity r = Max (insert Accepted {answer_severity (answer i) | i. i < length xs})
      | (q, Inl x) \<Rightarrow> q = p' \<and> (\<exists>i < length xs. answer i = Raises x))"
proof -
  have "\<forall>d \<in> set ds. plain_host d \<and> d \<noteq> []" using assms(3) by (auto split: if_splits)
  from expanded_targets [OF assms(2) this] obtain xs where
    xs: "expand_urls_across_domains (map target_str ts) ds = Inr (map target_str xs)" "\<forall>x \<in> set xs. plain_target x"
      "if ds = [] then xs = ts else distinct xs \<and> set xs = over_domains ds ts" by blast
  define e where "e = (\<lambda>i. case xs ! i of (s :: string, h, x) \<Rightarrow> ''https://api.fastly.com/purge/'' @ h @ x)"
  have e: "\<forall>i < length (map target_str xs). purge_endpoint (map target_str xs ! i) = Inr (e i)"
  proof (intro allI impI)
    fix i assume that: "i < length (map target_str xs)"
    obtain s h x where i: "xs ! i = (s, h, x)" by (cases "xs ! i")
    with that xs(2) nth_mem [of i xs] have "web_scheme s" "plain_host h" "plain_path x"
      by (auto simp: plain_target_def)
    from endpoint_of_plain [OF this this(2,3)] that show "purge_endpoint (map target_str xs ! i) = Inr (e i)"
      by (simp add: i e_def)
  qed
  have worst: "case fastly_purge_all w (map target_str xs) of
      Inr r \<Rightarrow> (\<forall>i < length xs. \<forall>x. w_post w i (e i) \<noteq> Raises x) \<and>
        severity r = Max (insert Accepted {answer_severity (w_post w i (e i)) | i. i < length xs})
    | Inl x \<Rightarrow> \<exists>i < length xs. w_post w i (e i) = Raises x"
    by (rule purge_all_worst [OF e, unfolded length_map])
  have post: "(case xs ! i of (s, h, x) \<Rightarrow> w_post w i (''https://api.fastly.com/purge/'' @ h @ x)) = w_post w i (e i)" for i
    by (simp add: e_def split: prod.splits)
  have run: "fastly_purge w p (map target_str ts) = (p', fastly_purge_all w (map target_str xs))"
  proof (cases "f_expand p")
    case True
    with assms(3) have "ensure_domains w p = (p', Inr (Inr ds))" by (auto intro: ensure_known)
    with True assms(1) xs(1) show ?thesis by (simp add: fastly_purge_def)
  next
    case False
    with assms(1,3) xs(3) show ?thesis by (simp add: fastly_purge_def)
  qed
  show ?thesis
    by (intro exI [of _ xs] conjI xs(3), unfold Let_def post run)
      (use worst in \<open>cases "fastly_purge_all w (map target_str xs)"; simp only: prod.case sum.case simp_thms\<close>)
qed

text \<open>A discovery that fails, with a result or an exception, is the result of the batch, and leaves the provider as it was.\<close>

lemma discovery_fails:
  assumes "us \<noteq> []" "f_expand p" "ensure_domains w p = (p', r)" "\<And>ds. r \<noteq> Inr (Inr ds)"
  shows "case fastly_purge w p us of (q, Inr err) \<Rightarrow> q = p \<and> \<not> ok err | (q, Inl e) \<Rightarrow> q = p \<and> r = Inl e"
  using assms discovery_cached [where w = w and p = p]
  by (auto simp: fastly_purge_def split: sum.splits)

definition sample_fastly :: fastly where
  "sample_fastly = init_fastly ''svc'' ''token'' False"

definition flaky_world :: fastly_world where
  \<comment> \<open>the second request is throttled\<close>
  "flaky_world = \<lparr>w_service = (\<lambda>p. ApiTransport []), w_domains = (\<lambda>p. ApiTransport []),
     w_post = (\<lambda>i e. if i = 1 then Response 429 else Response 200)\<rparr>"

definition two_domain_world :: fastly_world where
  \<comment> \<open>version 3 is active and has two named domains; the first request to the second one is throttled\<close>
  "two_domain_world = \<lparr>w_service = (\<lambda>p. if p = ''/service/svc'' then ApiResponse 200 (Inr [(False, Some 2), (True, Some 3)])
       else ApiResponse 404 (Inr [])),
     w_domains = (\<lambda>p. if p = ''/service/svc/version/3/domain'' then ApiResponse 200 (Inr [Some ''m.x'', None])
       else ApiResponse 404 (Inr [])),
     w_post = (\<lambda>i e. if e = ''https://api.fastly.com/purge/m.x/alma/9'' then Response 429 else Response 200)\<rparr>"

theorem batch_result_is_worst_witness:
  "\<exists>r. fastly_purge two_domain_world (sample_fastly\<lparr>f_expand := True\<rparr>) [''https://repo.x/alma/9''] =
      (sample_fastly\<lparr>f_expand := True, f_domains := Some [''m.x'']\<rparr>, Inr r) \<and> severity r = Retry"
proof -
  let ?p = "sample_fastly\<lparr>f_expand := True\<rparr>" and ?q = "sample_fastly\<lparr>f_expand := True, f_domains := Some [''m.x'']\<rparr>"
  let ?ts = "[(''https'', ''repo.x'', ''/alma/9'')]"
  have ne: "?ts \<noteq> []" by simp
  have t: "\<forall>t \<in> set ?ts. plain_target t" using plain_examples by (simp add: plain_target_def)
  have h: "plain_host ''m.x''" and n: "show_int 3 = ''3''" by code_simp+
  have "known_domains two_domain_world ?p [''m.x''] ?q"
    unfolding known_domains_def
    by (intro disjI2 conjI exI [of _ 200] exI [of _ "[(False, Some 2)]"] exI [of _ 3] exI [of _ "[]"]
        exI [of _ "[Some ''m.x'', None]"])
      (simp_all add: two_domain_world_def sample_fastly_def init_fastly_def is_2xx_def n)
  with h have d: "if f_expand ?p then known_domains two_domain_world ?p [''m.x''] ?q \<and>
      (\<forall>d \<in> set [''m.x'']. plain_host d \<and> d \<noteq> []) else [''m.x''] = [] \<and> ?q = ?p" by simp
  from batch_result_is_worst [OF ne t d] obtain xs where
    xs: "if [''m.x''] = [] then xs = ?ts else distinct xs \<and> set xs = over_domains [''m.x''] ?ts"
    and r: "let answer = (\<lambda>i. case xs ! i of (s, h, x) \<Rightarrow> w_post two_domain_world i (''https://api.fastly.com/purge/'' @ h @ x)) in
      case fastly_purge two_domain_world ?p (map target_str ?ts) of
        (q, Inr r) \<Rightarrow> q = ?q \<and> (\<forall>i < length xs. \<forall>x. answer i \<noteq> Raises x) \<and>
          severity r = Max (insert Accepted {answer_severity (answer i) | i. i < length xs})
      | (q, Inl x) \<Rightarrow> q = ?q \<and> (\<exists>i < length xs. answer i = Raises x)"
    by (elim exE conjE) (rule that)
  define sev where "sev = (\<lambda>(s :: string, h, x). if ''https://api.fastly.com/purge/'' @ h @ x = ''https://api.fastly.com/purge/m.x/alma/9''
      then Retry else Accepted)"
  have post: "(case y of (s :: string, h, x) \<Rightarrow> w_post two_domain_world i (''https://api.fastly.com/purge/'' @ h @ x)) =
      (if sev y = Retry then Response 429 else Response 200)" for y i
    by (cases y) (simp add: two_domain_world_def sev_def)
  have sevs: "answer_severity (if sev y = Retry then Response 429 else Response 200) = sev y" for y
    by (cases y) (auto simp: sev_def answer_severity_def is_2xx_def)
  have "over_domains [''m.x''] ?ts = {(''https'', ''repo.x'', ''/alma/9''), (''https'', ''m.x'', ''/alma/9'')}"
    by (auto simp: over_domains_def)
  then have "sev ` set xs = {Accepted, Retry}" using xs by (auto simp: sev_def)
  moreover have "set xs = (\<lambda>i. xs ! i) ` {i. i < length xs}" by (auto simp: set_conv_nth)
  then have "{sev (xs ! i) | i. i < length xs} = sev ` set xs" by (simp only: setcompr_eq_image image_image)
  ultimately have m: "Max (insert Accepted {sev (xs ! i) | i. i < length xs}) = Retry"
    by (simp add: max_def less_eq_severity_def)
  obtain q y where qy: "fastly_purge two_domain_world ?p (map target_str ?ts) = (q, y)" by fastforce
  have u: "map target_str ?ts = [''https://repo.x/alma/9'']" by (simp add: web_url_def)
  from r [unfolded Let_def post sevs m] qy show ?thesis unfolding u by (cases y) (auto split: if_splits)
qed

end
