(* ===== verification/Semaphore.thy ===== *)
theory Semaphore
  imports Prelude
begin

text \<open>
  \<open>asyncio.Semaphore\<close> of Python 3.12, which bounds the requests a provider has in flight
  (\<open>self._sem\<close> in \<open>providers/fastly.py\<close> and \<open>providers/gcp.py\<close>): its counter and its queue of waiting
  tasks. \<open>release\<close> hands the permit to the first task that still sleeps; the task stays in the queue,
  marked, until it runs again, and passes a further free permit on when it does.
\<close>

section \<open>Operations\<close>

record sem =
  sem_value :: nat
  sem_waiters :: "(nat \<times> bool) list" \<comment> \<open>the tasks in the order of their calls; True: its future is done\<close>

definition init_sem :: "int \<Rightarrow> sem res" where
  "init_sem n =
     (if n < 0 then Inl (ValueError ''Semaphore initial value must be >= 0'')
      else Inr \<lparr>sem_value = nat n, sem_waiters = []\<rparr>)"

definition sem_locked :: "sem \<Rightarrow> bool" where
  "sem_locked s \<longleftrightarrow> sem_value s = 0 \<or> sem_waiters s \<noteq> []"

definition sem_acquire :: "nat \<Rightarrow> sem \<Rightarrow> sem \<times> bool" where
  \<comment> \<open>up to its first \<open>await\<close>: True if task \<open>i\<close> has a permit at once\<close>
  "sem_acquire i s =
     (if sem_locked s then (s\<lparr>sem_waiters := sem_waiters s @ [(i, False)]\<rparr>, False)
      else (s\<lparr>sem_value := sem_value s - 1\<rparr>, True))"

fun wake_first :: "(nat \<times> bool) list \<Rightarrow> (nat \<times> bool) list option" where
  "wake_first [] = None"
| "wake_first ((i, woken) # ws) =
     (if woken then map_option (\<lambda>ws'. (i, woken) # ws') (wake_first ws) else Some ((i, True) # ws))"

definition wake_next :: "sem \<Rightarrow> sem" where
  "wake_next s =
     (case wake_first (sem_waiters s) of
        None \<Rightarrow> s
      | Some ws \<Rightarrow> s\<lparr>sem_value := sem_value s - 1, sem_waiters := ws\<rparr>)"

definition sem_release :: "sem \<Rightarrow> sem" where
  "sem_release s = wake_next (s\<lparr>sem_value := Suc (sem_value s)\<rparr>)"

definition sem_resume :: "nat \<Rightarrow> sem \<Rightarrow> sem" where
  \<comment> \<open>task \<open>i\<close> runs again after its future is done\<close>
  "sem_resume i s =
     (let s' = s\<lparr>sem_waiters := filter (\<lambda>w. fst w \<noteq> i) (sem_waiters s)\<rparr> in
        if 0 < sem_value s' then wake_next s' else s')"

section \<open>Accounting\<close>

text \<open>
  The permits nobody holds are the counter and those handed to tasks that have not run again yet.
\<close>

definition free_permits :: "sem \<Rightarrow> nat" where
  "free_permits s = sem_value s + length (filter snd (sem_waiters s))"

definition waiting :: "sem \<Rightarrow> nat set" where
  "waiting s = fst ` set (sem_waiters s)"

definition sem_ok :: "sem \<Rightarrow> bool" where
  \<comment> \<open>no wake-up is lost: while a permit is free and a task sleeps, another task has been woken\<close>
  "sem_ok s \<longleftrightarrow> distinct (map fst (sem_waiters s)) \<and>
     (0 < sem_value s \<and> (\<exists>w \<in> set (sem_waiters s). \<not> snd w) \<longrightarrow> (\<exists>w \<in> set (sem_waiters s). snd w))"

lemma wake_first_None: "wake_first ws = None \<longleftrightarrow> (\<forall>w \<in> set ws. snd w)"
  by (induction ws rule: wake_first.induct) auto

lemma wake_first_Some:
  "wake_first ws = Some ws' \<Longrightarrow>
     map fst ws' = map fst ws \<and> length (filter snd ws') = Suc (length (filter snd ws)) \<and> (\<exists>w \<in> set ws'. snd w)"
  by (induction ws arbitrary: ws' rule: wake_first.induct) (fastforce split: if_splits)+

lemma wake_next_ok:
  assumes "distinct (map fst (sem_waiters s))" "0 < sem_value s"
  shows "sem_ok (wake_next s)" "free_permits (wake_next s) = free_permits s" "waiting (wake_next s) = waiting s"
proof -
  have "sem_ok (wake_next s) \<and> free_permits (wake_next s) = free_permits s \<and> waiting (wake_next s) = waiting s"
  proof (cases "wake_first (sem_waiters s)")
    case None
    then have "wake_next s = s" "\<forall>w \<in> set (sem_waiters s). snd w"
      by (simp add: wake_next_def) (use None wake_first_None in blast)
    with assms show ?thesis by (auto simp: sem_ok_def)
  next
    case (Some ws)
    note ws = wake_first_Some [OF Some]
    then have "fst ` set ws = fst ` set (sem_waiters s)" by (metis list.set_map)
    with ws assms Some show ?thesis
      by (auto simp: wake_next_def sem_ok_def free_permits_def waiting_def)
  qed
  then show "sem_ok (wake_next s)" "free_permits (wake_next s) = free_permits s" "waiting (wake_next s) = waiting s"
    by simp_all
qed

lemma init_sem_ok: "init_sem n = Inr s \<Longrightarrow> sem_ok s \<and> free_permits s = nat n \<and> waiting s = {} \<and> 0 \<le> n"
  by (auto simp: init_sem_def sem_ok_def free_permits_def waiting_def split: if_splits)

lemma release_ok:
  assumes "sem_ok s"
  shows "sem_ok (sem_release s)" "free_permits (sem_release s) = Suc (free_permits s)" "waiting (sem_release s) = waiting s"
  using assms wake_next_ok [of "s\<lparr>sem_value := Suc (sem_value s)\<rparr>"]
  by (simp_all add: sem_release_def sem_ok_def free_permits_def waiting_def)

lemma acquire_ok:
  assumes "sem_ok s" "i \<notin> waiting s" "sem_acquire i s = (s', got)"
  shows "sem_ok s'" "free_permits s = free_permits s' + (if got then 1 else 0)"
    "waiting s' = (if got then waiting s else insert i (waiting s))"
  using assms by (auto simp: sem_acquire_def sem_locked_def sem_ok_def free_permits_def waiting_def neq_Nil_conv
      split: if_splits)

lemma filter_one:
  "distinct (map fst ws) \<Longrightarrow> (i, True) \<in> set ws \<Longrightarrow>
     length (filter snd ws) = Suc (length (filter snd (filter (\<lambda>w. fst w \<noteq> i) ws)))"
proof (induction ws)
  case (Cons w ws)
  show ?case
  proof (cases "fst w = i")
    case True
    with Cons.prems have "w = (i, True)" "filter (\<lambda>w. fst w \<noteq> i) ws = ws"
      by (auto simp: filter_id_conv image_iff)
    then show ?thesis by simp
  qed (use Cons in auto)
qed simp

lemma resume_ok:
  assumes "sem_ok s" "(i, True) \<in> set (sem_waiters s)"
  shows "sem_ok (sem_resume i s)" "free_permits s = Suc (free_permits (sem_resume i s))"
    "waiting (sem_resume i s) = waiting s - {i}"
proof -
  let ?s = "s\<lparr>sem_waiters := filter (\<lambda>w. fst w \<noteq> i) (sem_waiters s)\<rparr>"
  have d: "distinct (map fst (sem_waiters ?s))" using assms(1) by (simp add: sem_ok_def distinct_map_filter)
  have w: "waiting ?s = waiting s - {i}" by (auto simp: waiting_def)
  have f: "free_permits s = Suc (free_permits ?s)"
    using filter_one [OF _ assms(2)] assms(1) by (simp add: sem_ok_def free_permits_def)
  have "sem_ok (sem_resume i s) \<and> free_permits s = Suc (free_permits (sem_resume i s)) \<and>
      waiting (sem_resume i s) = waiting s - {i}"
  proof (cases "0 < sem_value s")
    case True
    then have "sem_resume i s = wake_next ?s" by (simp add: sem_resume_def)
    with True wake_next_ok [OF d] w f show ?thesis by simp
  next
    case False
    then have "sem_resume i s = ?s" by (simp add: sem_resume_def)
    with False w f d show ?thesis by (simp add: sem_ok_def)
  qed
  then show "sem_ok (sem_resume i s)" "free_permits s = Suc (free_permits (sem_resume i s))"
    "waiting (sem_resume i s) = waiting s - {i}"
    by simp_all
qed

lemma no_lost_wakeup:
  assumes "sem_ok s" "0 < free_permits s" "waiting s \<noteq> {}"
  shows "\<exists>i. (i, True) \<in> set (sem_waiters s)"
proof (rule ccontr)
  assume "\<nexists>i. (i, True) \<in> set (sem_waiters s)"
  then have n: "\<forall>w \<in> set (sem_waiters s). \<not> snd w" by auto
  then have "filter snd (sem_waiters s) = []" by (simp add: filter_empty_conv)
  with assms(2) have "0 < sem_value s" by (simp add: free_permits_def)
  with assms(1,3) n show False by (fastforce simp: sem_ok_def waiting_def)
qed

end
