(* ===== verification/Task_Pool.thy ===== *)
theory Task_Pool
  imports Provider Semaphore
begin

text \<open>
  The tasks that one \<open>asyncio.gather\<close> of a provider's \<open>purge\<close> starts, one per URL, interleaved in any
  order. A task runs from one \<open>await\<close> to the next: first the part before \<open>async with self._sem\<close>
  (\<open>outer\<close>; in \<open>gcp.py\<close> the limiter), then the wait for a permit, then the part under the semaphore
  (\<open>inner\<close>), which ends with a result or an exception and gives the permit back. What the tasks do is
  a \<open>task_code\<close>; \<open>Fastly_Tasks\<close> and \<open>Gcp_Tasks\<close> give the two that the program has.
\<close>

section \<open>The machine\<close>

datatype ('o, 'h) phase =
    Outside 'o
  | Queued
  | Inside 'h
  | Finished "purge_result res"

datatype 'o outer_move = Sleep 'o | Ask | OuterRaise exn

datatype 'h inner_move = Await 'h | Return purge_result | InnerRaise exn

record ('o, 'h, 'g) task_code =
  outer0 :: 'o
  outer :: "nat \<Rightarrow> 'o \<Rightarrow> 'g \<Rightarrow> ('g \<times> 'o outer_move) option" \<comment> \<open>None: what the task awaits has not happened\<close>
  inner0 :: 'h
  inner :: "nat \<Rightarrow> 'h \<Rightarrow> 'g \<Rightarrow> 'g \<times> 'h inner_move"
  elapse :: "real \<Rightarrow> 'g \<Rightarrow> 'g"

record ('o, 'h, 'g) pool =
  gate :: sem
  phases :: "('o, 'h) phase list"
  shared :: 'g \<comment> \<open>the provider's fields\<close>
  raised :: "exn option" \<comment> \<open>the first exception of a task\<close>

definition start_pool :: "('o, 'h, 'g) task_code \<Rightarrow> sem \<Rightarrow> nat \<Rightarrow> 'g \<Rightarrow> ('o, 'h, 'g) pool" where
  "start_pool b s n g = \<lparr>gate = s, phases = replicate n (Outside (outer0 b)), shared = g, raised = None\<rparr>"

definition finish :: "nat \<Rightarrow> purge_result res \<Rightarrow> ('o, 'h, 'g) pool \<Rightarrow> ('o, 'h, 'g) pool" where
  "finish i r p =
     p\<lparr>phases := (phases p)[i := Finished r],
       raised := (case (raised p, r) of (None, Inl e) \<Rightarrow> Some e | (x, _) \<Rightarrow> x)\<rparr>"

definition move_to :: "nat \<Rightarrow> ('o, 'h) phase \<Rightarrow> ('o, 'h, 'g) pool \<Rightarrow> ('o, 'h, 'g) pool" where
  "move_to i x p = p\<lparr>phases := (phases p)[i := x]\<rparr>"

definition ask :: "'h \<Rightarrow> nat \<Rightarrow> ('o, 'h, 'g) pool \<Rightarrow> ('o, 'h, 'g) pool" where
  \<comment> \<open>\<open>async with self._sem\<close>\<close>
  "ask h i p =
     (case sem_acquire i (gate p) of (s, got) \<Rightarrow> move_to i (if got then Inside h else Queued) (p\<lparr>gate := s\<rparr>))"

definition leave :: "nat \<Rightarrow> purge_result res \<Rightarrow> ('o, 'h, 'g) pool \<Rightarrow> ('o, 'h, 'g) pool" where
  "leave i r p = finish i r (p\<lparr>gate := sem_release (gate p)\<rparr>)"

definition stretch :: "('o, 'h, 'g) task_code \<Rightarrow> nat \<Rightarrow> ('o, 'h, 'g) pool \<Rightarrow> ('o, 'h, 'g) pool option" where
  \<comment> \<open>task \<open>i\<close> runs to its next \<open>await\<close> or to the permit it gets; None if it cannot run\<close>
  "stretch b i p =
     (if length (phases p) \<le> i then None
      else case phases p ! i of
        Outside o1 \<Rightarrow> map_option (\<lambda>(g, m). let p1 = p\<lparr>shared := g\<rparr> in case m of
            Sleep o2 \<Rightarrow> move_to i (Outside o2) p1
          | Ask \<Rightarrow> ask (inner0 b) i p1
          | OuterRaise e \<Rightarrow> finish i (Inl e) p1) (outer b i o1 (shared p))
      | Queued \<Rightarrow>
          if (i, True) \<in> set (sem_waiters (gate p))
          then Some (move_to i (Inside (inner0 b)) (p\<lparr>gate := sem_resume i (gate p)\<rparr>)) else None
      | Inside h \<Rightarrow> (case inner b i h (shared p) of (g, m) \<Rightarrow> let p1 = p\<lparr>shared := g\<rparr> in Some (case m of
            Await h2 \<Rightarrow> move_to i (Inside h2) p1
          | Return r \<Rightarrow> leave i (Inr r) p1
          | InnerRaise e \<Rightarrow> leave i (Inl e) p1))
      | Finished r \<Rightarrow> None)"

definition in_section :: "('o, 'h) phase \<Rightarrow> bool" where
  "in_section x \<longleftrightarrow> (case x of Inside _ \<Rightarrow> True | _ \<Rightarrow> False)"

definition advance :: "('o, 'h, 'g) task_code \<Rightarrow> nat \<Rightarrow> ('o, 'h, 'g) pool \<Rightarrow> ('o, 'h, 'g) pool option" where
  \<comment> \<open>task \<open>i\<close> runs to its next \<open>await\<close>: with a permit that was free, or that it has been handed, it goes
    straight on under the semaphore\<close>
  "advance b i p =
     (case stretch b i p of
        None \<Rightarrow> None
      | Some p1 \<Rightarrow> if \<not> in_section (phases p ! i) \<and> in_section (phases p1 ! i) then stretch b i p1 else Some p1)"

datatype pool_action = Run nat | Elapse real

definition pool_step :: "('o, 'h, 'g) task_code \<Rightarrow> pool_action \<Rightarrow> ('o, 'h, 'g) pool \<Rightarrow> ('o, 'h, 'g) pool option" where
  "pool_step b a p = (case a of Run i \<Rightarrow> advance b i p | Elapse d \<Rightarrow> Some (p\<lparr>shared := elapse b d (shared p)\<rparr>))"

fun pool_run :: "('o, 'h, 'g) task_code \<Rightarrow> pool_action list \<Rightarrow> ('o, 'h, 'g) pool \<Rightarrow> ('o, 'h, 'g) pool option" where
  "pool_run b [] p = Some p"
| "pool_run b (a # as) p = Option.bind (pool_step b a p) (pool_run b as)"

fun is_finished :: "('o, 'h) phase \<Rightarrow> bool" where
  "is_finished (Finished r) = True"
| "is_finished x = False"

definition all_finished :: "('o, 'h, 'g) pool \<Rightarrow> bool" where
  "all_finished p \<longleftrightarrow> list_all is_finished (phases p)"

definition gathered :: "('o, 'h, 'g) pool \<Rightarrow> purge_result list res option" where
  \<comment> \<open>what the \<open>await\<close> of the gather has returned: nothing yet, the first exception, or all results\<close>
  "gathered p =
     (case raised p of
        Some e \<Rightarrow> Some (Inl e)
      | None \<Rightarrow> if all_finished p
          then Some (map_res (\<lambda>x. case x of Finished r \<Rightarrow> r | _ \<Rightarrow> Inl AssertionError) (phases p)) else None)"

text \<open>The client of a provider, which \<open>_get_client\<close> opens on first use.\<close>

record http_side =
  http_client :: "nat option"
  http_opened :: nat \<comment> \<open>how many clients have been opened\<close>

definition http_get_client :: "('a http_side_scheme) \<Rightarrow> ('a http_side_scheme)" where
  "http_get_client g =
     (case http_client g of
        None \<Rightarrow> g\<lparr>http_client := Some (http_opened g), http_opened := Suc (http_opened g)\<rparr>
      | Some c \<Rightarrow> g)"

section \<open>Steps\<close>

lemmas pool_moves = move_to_def ask_def leave_def finish_def

lemma stretch_cases:
  assumes "stretch b i p = Some p'"
  obtains
    (sleep) o1 g o2 where "i < length (phases p)" "phases p ! i = Outside o1"
      "outer b i o1 (shared p) = Some (g, Sleep o2)" "p' = move_to i (Outside o2) (p\<lparr>shared := g\<rparr>)"
  | (ask) o1 g where "i < length (phases p)" "phases p ! i = Outside o1"
      "outer b i o1 (shared p) = Some (g, Ask)" "p' = ask (inner0 b) i (p\<lparr>shared := g\<rparr>)"
  | (outer_raise) o1 g e where "i < length (phases p)" "phases p ! i = Outside o1"
      "outer b i o1 (shared p) = Some (g, OuterRaise e)" "p' = finish i (Inl e) (p\<lparr>shared := g\<rparr>)"
  | (resume) "i < length (phases p)" "phases p ! i = Queued" "(i, True) \<in> set (sem_waiters (gate p))"
      "p' = move_to i (Inside (inner0 b)) (p\<lparr>gate := sem_resume i (gate p)\<rparr>)"
  | (await) h g h2 where "i < length (phases p)" "phases p ! i = Inside h"
      "inner b i h (shared p) = (g, Await h2)" "p' = move_to i (Inside h2) (p\<lparr>shared := g\<rparr>)"
  | (leave) h g r where "i < length (phases p)" "phases p ! i = Inside h"
      "inner b i h (shared p) = (g, case r of Inr v \<Rightarrow> Return v | Inl e \<Rightarrow> InnerRaise e)"
      "p' = leave i r (p\<lparr>shared := g\<rparr>)"
proof (cases "phases p ! i")
  case (Outside o1)
  with assms obtain g m where "outer b i o1 (shared p) = Some (g, m)" "i < length (phases p)"
    by (auto simp: stretch_def split: if_splits)
  with Outside assms sleep ask outer_raise show thesis by (cases m) (auto simp: stretch_def Let_def)
next
  case (Inside h)
  obtain g m where m: "inner b i h (shared p) = (g, m)" by fastforce
  show thesis
  proof (cases m)
    case (Await h2)
    with m Inside assms await show thesis by (auto simp: stretch_def Let_def split: if_splits)
  next
    case (Return v)
    with m Inside assms leave [of h g "Inr v"] show thesis by (auto simp: stretch_def Let_def split: if_splits)
  next
    case (InnerRaise e)
    with m Inside assms leave [of h g "Inl e"] show thesis by (auto simp: stretch_def Let_def split: if_splits)
  qed
qed (use assms resume in \<open>auto simp: stretch_def split: if_splits\<close>)

lemma stretch_inside: "i < length (phases p) \<Longrightarrow> phases p ! i = Inside h \<Longrightarrow> stretch b i p \<noteq> None"
  by (simp add: stretch_def Let_def split: prod.splits)

lemma stretch_length: "stretch b i p = Some p' \<Longrightarrow> length (phases p') = length (phases p)"
  by (erule stretch_cases) (auto simp: pool_moves split: prod.splits)

lemma stretch_index: "stretch b i p = Some p' \<Longrightarrow> i < length (phases p)"
  by (erule stretch_cases)

text \<open>A turn of a task is one stretch or two, so what every stretch keeps, every turn keeps.\<close>

lemma advance_stretches:
  assumes "advance b i p = Some p'"
  obtains p1 where "stretch b i p = Some p1" "p' = p1 \<or> stretch b i p1 = Some p'"
  using assms by (auto simp: advance_def split: option.splits if_splits)

lemma advance_keeps:
  assumes "advance b i p = Some p'" "Q p" "\<And>p p'. Q p \<Longrightarrow> stretch b i p = Some p' \<Longrightarrow> Q p'"
  shows "Q p'"
  using assms(1) by (rule advance_stretches) (use assms(2,3) in blast)

lemma advance_length: "advance b i p = Some p' \<Longrightarrow> length (phases p') = length (phases p)"
  by (erule advance_keeps [where Q = "\<lambda>q. length (phases q) = length (phases p)"]) (simp_all add: stretch_length)

lemma advance_ready: "advance b i p \<noteq> None \<longleftrightarrow> stretch b i p \<noteq> None"
proof (cases "stretch b i p")
  case (Some p1)
  show ?thesis
  proof (cases "in_section (phases p1 ! i)")
    case True
    then obtain h where "phases p1 ! i = Inside h" by (auto simp: in_section_def split: phase.splits)
    with stretch_inside [of i p1 h b] stretch_index [OF Some] stretch_length [OF Some] Some
    show ?thesis by (simp add: advance_def)
  qed (simp add: advance_def Some)
qed (simp add: advance_def)

lemma count_update:
  "i < length xs \<Longrightarrow> length (filter P (xs[i := y])) + (if P (xs ! i) then 1 else 0) =
     length (filter P xs) + (if P y then 1 else 0)"
proof (induction xs arbitrary: i)
  case (Cons x xs)
  then show ?case by (cases i) (auto split: if_splits)
qed simp

section \<open>Permits\<close>

definition holders :: "('o, 'h, 'g) pool \<Rightarrow> nat" where
  \<comment> \<open>the tasks inside \<open>async with self._sem\<close>, among them those whose request is in flight\<close>
  "holders p = length (filter in_section (phases p))"

lemma in_section_simps [simp]:
  "in_section (Inside h)" "\<not> in_section (Outside o1)" "\<not> in_section Queued" "\<not> in_section (Finished r)"
  by (simp_all add: in_section_def)

definition raised_ok :: "exn option \<Rightarrow> ('o, 'h) phase list \<Rightarrow> bool" where
  "raised_ok ra xs \<longleftrightarrow> (case ra of
     None \<Rightarrow> \<forall>e. Finished (Inl e) \<notin> set xs
   | Some e \<Rightarrow> Finished (Inl e) \<in> set xs)"

definition queued :: "('o, 'h) phase list \<Rightarrow> nat set" where
  "queued xs = {i. i < length xs \<and> xs ! i = Queued}"

definition pool_inv :: "nat \<Rightarrow> ('o, 'h, 'g) pool \<Rightarrow> bool" where
  "pool_inv c p \<longleftrightarrow> sem_ok (gate p) \<and> free_permits (gate p) + holders p = c \<and>
     waiting (gate p) = queued (phases p) \<and> raised_ok (raised p) (phases p)"

lemma start_pool_inv:
  "init_sem c = Inr s \<Longrightarrow> pool_inv (nat c) (start_pool b s n g)"
  using init_sem_ok [of c s]
  by (auto simp: pool_inv_def start_pool_def holders_def filter_empty_conv queued_def raised_ok_def)

lemma queued_update:
  "i < length xs \<Longrightarrow> queued (xs[i := y]) = (if y = Queued then insert i (queued xs) else queued xs - {i})"
  by (auto simp: queued_def nth_list_update)

lemma raised_update:
  assumes "raised_ok ra xs" "i < length xs" "\<forall>r. xs ! i \<noteq> Finished r"
  shows "raised_ok (case (ra, r) of (None, Inl e) \<Rightarrow> Some e | (x, _) \<Rightarrow> x) (xs[i := Finished r])"
    and "\<forall>r. y \<noteq> Finished r \<Longrightarrow> raised_ok ra (xs[i := y])"
proof -
  have new: "y \<in> set (xs[i := y])" for y using assms(2) by (simp add: set_update_memI)
  have sub: "z \<in> set (xs[i := y]) \<Longrightarrow> z = y \<or> z \<in> set xs" for y z by (meson insertE set_update_subset_insert subsetD)
  have keep: "Finished q \<in> set xs \<Longrightarrow> Finished q \<in> set (xs[i := y])" for q y
    using assms(3) by (metis in_set_conv_nth length_list_update nth_list_update_neq)
  show "raised_ok (case (ra, r) of (None, Inl e) \<Rightarrow> Some e | (x, _) \<Rightarrow> x) (xs[i := Finished r])"
    using assms(1) new [of "Finished r"] keep
    by (cases ra; cases r) (auto simp: raised_ok_def dest: sub)
  show "raised_ok ra (xs[i := y])" if "\<forall>r. y \<noteq> Finished r"
    using assms(1) that keep by (cases ra) (auto simp: raised_ok_def dest: sub)
qed

lemma pool_sel:
  "gate (move_to i x p) = gate p" "raised (move_to i x p) = raised p" "shared (move_to i x p) = shared p"
  "phases (move_to i x p) = (phases p)[i := x]"
  "gate (finish i r p) = gate p" "shared (finish i r p) = shared p" "phases (finish i r p) = (phases p)[i := Finished r]"
  "raised (finish i r p) = (case (raised p, r) of (None, Inl e) \<Rightarrow> Some e | (x, _) \<Rightarrow> x)"
  by (simp_all add: pool_moves)

lemma move_inv:
  assumes "raised_ok (raised p) (phases p)" "i < length (phases p)" "\<forall>r. phases p ! i \<noteq> Finished r"
    and "sem_ok (gate p)" "waiting (gate p) = queued ((phases p)[i := x])" "\<forall>r. x \<noteq> Finished r"
    and "free_permits (gate p) + holders p + (if in_section x then 1 else 0) =
      c + (if in_section (phases p ! i) then 1 else 0)"
  shows "pool_inv c (move_to i x p)"
  using assms raised_update(2) [OF assms(1-3,6)] count_update [OF assms(2), where P = in_section and y = x]
  by (simp add: pool_inv_def pool_sel holders_def split: if_splits)

lemma finish_inv:
  assumes "raised_ok (raised p) (phases p)" "i < length (phases p)" "\<forall>r. phases p ! i \<noteq> Finished r"
    and "sem_ok (gate p)" "waiting (gate p) = queued (phases p) - {i}"
    and "free_permits (gate p) + holders p = c + (if in_section (phases p ! i) then 1 else 0)"
  shows "pool_inv c (finish i r p)"
  using assms raised_update(1) [OF assms(1-3), of r]
    count_update [OF assms(2), where P = in_section and y = "Finished r"] queued_update [OF assms(2), of "Finished r"]
  by (simp add: pool_inv_def pool_sel holders_def split: if_splits)

lemma not_queued: "phases p ! i \<noteq> Queued \<Longrightarrow> i \<notin> queued (phases p)"
  by (simp add: queued_def)

lemma with_shared [simp]: "holders (p\<lparr>shared := g\<rparr>) = holders p" "holders (p\<lparr>gate := s\<rparr>) = holders p"
  by (simp_all add: holders_def)

lemma stretch_inv:
  assumes "pool_inv c p" "stretch b i p = Some p'"
  shows "pool_inv c p'"
proof -
  have s: "sem_ok (gate p)" "free_permits (gate p) + holders p = c" "waiting (gate p) = queued (phases p)"
    and ra: "raised_ok (raised p) (phases p)"
    using assms(1) by (simp_all add: pool_inv_def)
  from assms(2) show ?thesis
  proof (cases rule: stretch_cases)
    case (sleep o1 g o2)
    show ?thesis unfolding sleep(4)
      by (rule move_inv) (use sleep s ra in \<open>auto simp: queued_update not_queued\<close>)
  next
    case (ask o1 g)
    obtain t got where t: "sem_acquire i (gate p) = (t, got)" by fastforce
    have n: "i \<notin> waiting (gate p)" using s(3) ask(2) by (simp add: not_queued)
    note a = acquire_ok [OF s(1) n t]
    have p': "p' = move_to i (if got then Inside (inner0 b) else Queued) (p\<lparr>shared := g, gate := t\<rparr>)"
      using ask(4) t by (simp add: ask_def)
    show ?thesis unfolding p'
      by (rule move_inv) (use ask s ra a n in \<open>simp_all add: queued_update split: if_splits\<close>)
  next
    case (outer_raise o1 g e)
    show ?thesis unfolding outer_raise(4)
      by (rule finish_inv) (use outer_raise s ra in \<open>auto simp: not_queued\<close>)
  next
    case resume
    note r = resume_ok [OF s(1) resume(3)]
    show ?thesis unfolding resume(4)
      by (rule move_inv) (use resume s ra r in \<open>auto simp: queued_update\<close>)
  next
    case (await h g h2)
    show ?thesis unfolding await(4)
      by (rule move_inv) (use await s ra in \<open>auto simp: queued_update not_queued\<close>)
  next
    case (leave h g r)
    show ?thesis unfolding leave(4) leave_def
      by (rule finish_inv) (use leave s ra release_ok [OF s(1)] in \<open>auto simp: not_queued\<close>)
  qed
qed

lemma advance_inv: "pool_inv c p \<Longrightarrow> advance b i p = Some p' \<Longrightarrow> pool_inv c p'"
  by (rule advance_keeps [where Q = "pool_inv c"]) (auto intro: stretch_inv)

lemma pool_run_inv:
  "pool_inv c p \<Longrightarrow> pool_run b as p = Some p' \<Longrightarrow> pool_inv c p' \<and> length (phases p') = length (phases p)"
proof (induction as arbitrary: p)
  case (Cons a as)
  from Cons.prems(2) obtain p1 where p1: "pool_step b a p = Some p1" "pool_run b as p1 = Some p'"
    by (auto simp: bind_eq_Some_conv)
  have "pool_inv c p1 \<and> length (phases p1) = length (phases p)"
  proof (cases a)
    case (Run i)
    with p1(1) advance_inv [OF Cons.prems(1)] advance_length show ?thesis by (auto simp: pool_step_def)
  next
    case (Elapse d)
    with p1(1) Cons.prems(1) show ?thesis by (auto simp: pool_step_def pool_inv_def holders_def)
  qed
  with Cons.IH [OF _ p1(2)] show ?case by simp
qed simp

lemma pool_run_append: "pool_run b (as @ bs) p = Option.bind (pool_run b as p) (pool_run b bs)"
  by (induction as arbitrary: p) (auto split: bind_split)

text \<open>Tasks of an interval that run one after another, each a turn.\<close>

lemma in_turn:
  assumes "\<And>j p. m \<le> j \<Longrightarrow> j < m + k \<Longrightarrow> I j p \<Longrightarrow> j < length (phases p) \<Longrightarrow> A (phases p ! j) \<Longrightarrow>
      \<exists>p' x. advance b j p = Some p' \<and> phases p' = (phases p)[j := x] \<and> B x \<and> I (Suc j) p'"
    and "I m p" "m + k \<le> length (phases p)" "\<forall>j \<in> {m..<m + k}. A (phases p ! j)"
  shows "\<exists>p'. pool_run b (map Run [m..<m + k]) p = Some p' \<and> I (m + k) p' \<and> length (phases p') = length (phases p) \<and>
    (\<forall>j < length (phases p). if j \<in> {m..<m + k} then B (phases p' ! j) else phases p' ! j = phases p ! j)"
  using assms
proof (induction k arbitrary: m p)
  case (Suc k)
  from Suc.prems(1) [of m p] Suc.prems(2-4) obtain p1 x where
    p1: "advance b m p = Some p1" "phases p1 = (phases p)[m := x]" "B x" "I (Suc m) p1" by auto
  have "\<exists>p'. pool_run b (map Run [Suc m..<Suc m + k]) p1 = Some p' \<and> I (Suc m + k) p' \<and>
      length (phases p') = length (phases p1) \<and>
      (\<forall>j < length (phases p1). if j \<in> {Suc m..<Suc m + k} then B (phases p' ! j) else phases p' ! j = phases p1 ! j)"
    by (rule Suc.IH) (use Suc.prems p1 in auto)
  then obtain p' where p': "pool_run b (map Run [Suc m..<Suc m + k]) p1 = Some p'" "I (Suc m + k) p'"
    "length (phases p') = length (phases p1)"
    "\<forall>j < length (phases p1). if j \<in> {Suc m..<Suc m + k} then B (phases p' ! j) else phases p' ! j = phases p1 ! j"
    by blast
  have "map Run [m..<m + Suc k] = Run m # map Run [Suc m..<Suc m + k]"
    by (simp add: upt_conv_Cons del: upt_Suc)
  then have "pool_run b (map Run [m..<m + Suc k]) p = Some p'"
    using p1(1) p'(1) by (simp add: pool_step_def del: upt_Suc)
  moreover have "if j \<in> {m..<m + Suc k} then B (phases p' ! j) else phases p' ! j = phases p ! j"
    if j: "j < length (phases p)" for j
  proof (cases "j = m")
    case True
    with p'(4) [rule_format, of m] p1(2,3) j show ?thesis by simp
  next
    case False
    with p'(4) [rule_format, of j] j show ?thesis by (auto simp: p1(2) split: if_splits)
  qed
  ultimately show ?case using p'(2,3) by (auto simp: p1(2))
qed simp

definition resting :: "('o, 'h, 'g) task_code \<Rightarrow> ('o, 'h, 'g) pool \<Rightarrow> bool" where
  \<comment> \<open>nothing is left to run: a task that could go on is one whose call is outstanding\<close>
  "resting b p \<longleftrightarrow> (\<forall>i < length (phases p). advance b i p = None \<or> in_section (phases p ! i))"

lemma holders_bounded: "pool_inv c p \<Longrightarrow> holders p \<le> c"
  by (auto simp: pool_inv_def)

text \<open>
  No task is forgotten: with at least one permit, a pool that is not finished has a task that is
  before the semaphore, inside it, or woken.
\<close>

lemma some_task_ready:
  assumes "pool_inv c p" "1 \<le> c" "\<not> all_finished p"
  shows "\<exists>i < length (phases p). (\<exists>o1. phases p ! i = Outside o1) \<or> (\<exists>h. phases p ! i = Inside h) \<or>
    phases p ! i = Queued \<and> (i, True) \<in> set (sem_waiters (gate p))"
proof -
  from assms(3) obtain i where i: "i < length (phases p)" "\<not> is_finished (phases p ! i)"
    by (auto simp: all_finished_def list_all_length)
  show ?thesis
  proof (cases "phases p ! i")
    case Queued
    then have w: "waiting (gate p) \<noteq> {}" using i assms(1) by (auto simp: pool_inv_def queued_def)
    show ?thesis
    proof (cases "holders p = 0")
      case True
      with assms(1,2) have "0 < free_permits (gate p)" by (simp add: pool_inv_def)
      then obtain j where j: "(j, True) \<in> set (sem_waiters (gate p))"
        using no_lost_wakeup [OF _ _ w] assms(1) by (auto simp: pool_inv_def)
      then have "j \<in> waiting (gate p)" by (force simp: waiting_def)
      with j assms(1) show ?thesis by (auto simp: pool_inv_def queued_def)
    next
      case False
      then obtain x where "x \<in> set (phases p)" "in_section x" by (auto simp: holders_def filter_empty_conv)
      then show ?thesis by (auto simp: in_set_conv_nth in_section_def split: phase.splits)
    qed
  qed (use i in auto)
qed

lemma map_res_of_map: "map_res f (map g xs) = map_res (f \<circ> g) xs"
  by (induction xs) simp_all

lemma gather_by_index: "gather f xs = map_res (\<lambda>i. f i (xs ! i)) [0..<length xs]"
proof -
  have "List.enumerate 0 xs = map (\<lambda>i. (i, xs ! i)) [0..<length xs]"
    by (rule nth_equalityI) (simp_all add: nth_enumerate_eq)
  then show ?thesis by (simp add: gather_def map_res_of_map comp_def)
qed

section \<open>Ending, and what the tasks return\<close>

text \<open>
  The contract of a code whose tasks end: a task under the semaphore awaits a bounded number of times,
  and one before it sleeps again only after another task has got through (\<open>may_sleep\<close>).
\<close>

definition phase_rank :: "('h \<Rightarrow> nat) \<Rightarrow> nat \<Rightarrow> ('o, 'h) phase \<Rightarrow> nat" where
  "phase_rank f k x = (case x of Outside _ \<Rightarrow> k + 3 | Queued \<Rightarrow> k + 2 | Inside h \<Rightarrow> Suc (f h) | Finished _ \<Rightarrow> 0)"

definition sleepers :: "('o \<Rightarrow> bool) \<Rightarrow> ('o, 'h) phase \<Rightarrow> bool" where
  "sleepers f x \<longleftrightarrow> (case x of Outside o1 \<Rightarrow> f o1 | _ \<Rightarrow> False)"

lemma sleepers_simps [simp]:
  "sleepers f (Outside o1) = f o1" "\<not> sleepers f Queued" "\<not> sleepers f (Inside h)" "\<not> sleepers f (Finished r)"
  by (simp_all add: sleepers_def)

lemma phase_rank_simps [simp]:
  "phase_rank f k (Outside o1) = k + 3" "phase_rank f k Queued = k + 2" "phase_rank f k (Inside h) = Suc (f h)"
  "phase_rank f k (Finished r) = 0"
  by (simp_all add: phase_rank_def)

lemma filter_weaker: "(\<And>x. P x \<Longrightarrow> Q x) \<Longrightarrow> length (filter P xs) \<le> length (filter Q xs)"
  by (induction xs) auto

lemma fewer:
  "i < length xs \<Longrightarrow> \<forall>x. P x \<longrightarrow> Q x \<Longrightarrow> Q (xs ! i) \<Longrightarrow> \<not> P y \<Longrightarrow>
     length (filter P (xs[i := y])) < length (filter Q xs)"
proof (induction xs arbitrary: i)
  case (Cons x xs)
  show ?case
  proof (cases i)
    case 0
    with Cons.prems filter_weaker [of P Q xs] show ?thesis by (simp add: less_Suc_eq_le)
  next
    case (Suc j)
    with Cons.prems have "length (filter P (xs[j := y])) < length (filter Q xs)"
      by (intro Cons.IH) simp_all
    with Suc Cons.prems(2) show ?thesis by auto
  qed
qed simp

lemma scaled_less: "r' < (r :: nat) \<Longrightarrow> s' \<le> n \<Longrightarrow> r' * Suc n + s' < r * Suc n + s"
proof -
  assume "r' < r" "s' \<le> n"
  then have "Suc r' * Suc n \<le> r * Suc n" by (intro mult_le_mono1) simp
  with \<open>s' \<le> n\<close> show ?thesis by simp
qed

fun is_run :: "pool_action \<Rightarrow> bool" where
  "is_run (Run i) = True"
| "is_run (Elapse d) = False"

locale ending_tasks =
  fixes b :: "('o, 'h, 'g) task_code"
    and good :: "'g \<Rightarrow> bool"
    and may_sleep :: "'g \<Rightarrow> 'o \<Rightarrow> bool"
    and rank_in :: "'h \<Rightarrow> nat"
    and top_rank :: nat
  assumes outer_good: "good g \<Longrightarrow> outer b i o1 g = Some (g', m) \<Longrightarrow> good g'"
    and inner_good: "good g \<Longrightarrow> inner b i h g = (g', m') \<Longrightarrow> good g'"
    and elapse_good: "good g \<Longrightarrow> good (elapse b d g)"
    and elapse_sleep: "may_sleep (elapse b d g) o1 = may_sleep g o1"
    and sleeps: "good g \<Longrightarrow> outer b i o1 g = Some (g', Sleep o2) \<Longrightarrow>
      may_sleep g o1 \<and> \<not> may_sleep g' o2 \<and> (\<forall>o3. may_sleep g' o3 \<longrightarrow> may_sleep g o3)"
    and inner0_rank: "rank_in (inner0 b) \<le> top_rank"
    and await_rank: "inner b i h g = (g', Await h2) \<Longrightarrow> rank_in h2 < rank_in h"
    and await_sleep: "inner b i h g = (g', m') \<Longrightarrow> may_sleep g' o1 = may_sleep g o1"
    and wakes: "good g \<Longrightarrow> \<exists>d. outer b i o1 (elapse b d g) \<noteq> None"
begin

definition total_rank :: "('o, 'h, 'g) pool \<Rightarrow> nat" where
  "total_rank p = sum_list (map (phase_rank rank_in top_rank) (phases p))"

definition to_sleep :: "('o, 'h, 'g) pool \<Rightarrow> nat" where
  "to_sleep p = length (filter (sleepers (may_sleep (shared p))) (phases p))"

definition budget :: "('o, 'h, 'g) pool \<Rightarrow> nat" where
  "budget p = total_rank p * Suc (length (phases p)) + to_sleep p"

lemma rank_update:
  "i < length xs \<Longrightarrow> phase_rank rank_in top_rank y < phase_rank rank_in top_rank (xs ! i) \<Longrightarrow>
     sum_list (map (phase_rank rank_in top_rank) (xs[i := y])) < sum_list (map (phase_rank rank_in top_rank) xs)"
proof (induction xs arbitrary: i)
  case (Cons x xs)
  then show ?case by (cases i) auto
qed simp

lemma lower_rank:
  assumes "total_rank p' < total_rank p" "length (phases p') = length (phases p)"
  shows "budget p' < budget p"
  unfolding budget_def assms(2)
  by (rule scaled_less [OF assms(1)]) (simp add: to_sleep_def assms(2) [symmetric])

lemma stretch_budget:
  assumes "good (shared p)" "stretch b i p = Some p'"
  shows "good (shared p') \<and> budget p' < budget p"
proof -
  have len: "length (phases p') = length (phases p)" by (rule stretch_length [OF assms(2)])
  from assms(2) show ?thesis
  proof (cases rule: stretch_cases)
    case (sleep o1 g o2)
    note s = sleeps [OF assms(1) sleep(3)]
    have same: "(map f (phases p))[i := f (phases p ! i)] = map f (phases p)" for f
      by (metis list_update_id map_update)
    then have "total_rank p' = total_rank p"
      using sleep(2) same [of "phase_rank rank_in top_rank"] by (simp add: total_rank_def sleep(4) pool_sel map_update)
    moreover have "to_sleep p' < to_sleep p"
      using fewer [OF sleep(1), where P = "sleepers (may_sleep g)" and Q = "sleepers (may_sleep (shared p))"
          and y = "Outside o2"] s sleep(2)
      by (simp add: to_sleep_def sleep(4) pool_sel sleepers_def split: phase.splits)
    ultimately show ?thesis
      using outer_good [OF assms(1) sleep(3)] len by (simp add: budget_def sleep(4) pool_sel)
  next
    case (ask o1 g)
    obtain t got where t: "sem_acquire i (gate p) = (t, got)" by fastforce
    have "total_rank p' < total_rank p"
      using ask(1,2,4) t rank_update [OF ask(1)] inner0_rank
      by (simp add: total_rank_def ask_def pool_sel split: if_splits)
    with lower_rank len outer_good [OF assms(1) ask(3)] ask(4) t show ?thesis
      by (simp add: ask_def pool_sel)
  next
    case (outer_raise o1 g e)
    then have "total_rank p' < total_rank p"
      using rank_update [OF outer_raise(1)] by (simp add: total_rank_def pool_sel)
    with lower_rank len outer_good [OF assms(1) outer_raise(3)] outer_raise(4) show ?thesis by (simp add: pool_sel)
  next
    case resume
    then have "total_rank p' < total_rank p"
      using rank_update [OF resume(1)] inner0_rank by (simp add: total_rank_def pool_sel)
    with lower_rank len assms(1) resume(4) show ?thesis by (simp add: pool_sel)
  next
    case (await h g h2)
    then have "total_rank p' < total_rank p"
      using rank_update [OF await(1)] await_rank [OF await(3)] by (simp add: total_rank_def pool_sel)
    with lower_rank len inner_good [OF assms(1) await(3)] await(4) show ?thesis by (simp add: pool_sel)
  next
    case (leave h g r)
    then have "total_rank p' < total_rank p"
      using rank_update [OF leave(1)] by (simp add: total_rank_def leave_def pool_sel)
    with lower_rank len inner_good [OF assms(1) leave(3)] leave(4) show ?thesis by (simp add: leave_def pool_sel)
  qed
qed

lemma advance_budget:
  assumes "good (shared p)" "advance b i p = Some p'"
  shows "good (shared p') \<and> budget p' < budget p"
  using assms(2)
proof (rule advance_stretches)
  fix p1 assume p1: "stretch b i p = Some p1" "p' = p1 \<or> stretch b i p1 = Some p'"
  with stretch_budget [OF assms(1) p1(1)] stretch_budget [of p1 i p'] show ?thesis by auto
qed

lemma elapse_sleeping: "may_sleep (elapse b d g) = may_sleep g"
  by (rule ext) (rule elapse_sleep)

lemma run_budget:
  "good (shared p) \<Longrightarrow> pool_run b as p = Some p' \<Longrightarrow>
     good (shared p') \<and> length (filter is_run as) + budget p' \<le> budget p"
proof (induction as arbitrary: p)
  case (Cons a as)
  from Cons.prems(2) obtain p1 where p1: "pool_step b a p = Some p1" "pool_run b as p1 = Some p'"
    by (auto simp: bind_eq_Some_conv)
  show ?case
  proof (cases a)
    case (Run i)
    with p1(1) advance_budget [OF Cons.prems(1)] have "good (shared p1)" "budget p1 < budget p"
      by (simp_all add: pool_step_def)
    with Cons.IH [OF _ p1(2)] Run show ?thesis by simp
  next
    case (Elapse d)
    with p1(1) have e: "p1 = p\<lparr>shared := elapse b d (shared p)\<rparr>" by (simp add: pool_step_def)
    then have "good (shared p1)" "budget p1 = budget p"
      using Cons.prems(1) by (simp_all add: elapse_good budget_def total_rank_def to_sleep_def elapse_sleeping)
    with Cons.IH [OF _ p1(2)] Elapse show ?thesis by simp
  qed
qed simp

lemma start_budget: "budget (start_pool b s n g) \<le> n * (top_rank + 3) * Suc n + n"
proof -
  have "to_sleep (start_pool b s n g) \<le> n"
    unfolding to_sleep_def by (rule le_trans [OF length_filter_le]) (simp add: start_pool_def)
  then show ?thesis by (simp add: budget_def total_rank_def start_pool_def sum_list_replicate)
qed

text \<open>The tasks end: no run makes more steps than this, whatever the interleaving.\<close>

lemma bounded_run:
  assumes "good g" "pool_run b as (start_pool b s n g) = Some p"
  shows "length (filter is_run as) \<le> n * (top_rank + 3) * Suc n + n"
  using run_budget [OF _ assms(2)] assms(1) start_budget [of s n g] by (simp add: start_pool_def)

text \<open>And nothing stops before that: a pool that is not finished can always make a step.\<close>

lemma can_step:
  assumes "good (shared p)" "pool_inv c p" "1 \<le> c" "\<not> all_finished p"
  shows "\<exists>d i p'. pool_run b [Elapse d, Run i] p = Some p'"
proof -
  obtain i where i: "i < length (phases p)"
    "(\<exists>o1. phases p ! i = Outside o1) \<or> (\<exists>h. phases p ! i = Inside h) \<or>
     phases p ! i = Queued \<and> (i, True) \<in> set (sem_waiters (gate p))"
    using some_task_ready [OF assms(2-4)] by blast
  have "\<exists>d. advance b i (p\<lparr>shared := elapse b d (shared p)\<rparr>) \<noteq> None"
    unfolding advance_ready
  proof (cases "phases p ! i")
    case (Outside o1)
    with wakes [OF assms(1), of i o1] i(1) show "\<exists>d. stretch b i (p\<lparr>shared := elapse b d (shared p)\<rparr>) \<noteq> None"
      by (auto simp: stretch_def)
  next
    case (Inside h)
    with i(1) show "\<exists>d. stretch b i (p\<lparr>shared := elapse b d (shared p)\<rparr>) \<noteq> None"
      by (auto simp: stretch_def Let_def case_prod_beta)
  qed (use i in \<open>auto simp: stretch_def\<close>)
  then obtain d p' where "advance b i (p\<lparr>shared := elapse b d (shared p)\<rparr>) = Some p'" by blast
  then have "pool_run b [Elapse d, Run i] p = Some p'" by (simp add: pool_step_def)
  then show ?thesis by blast
qed

lemma can_finish:
  "good (shared p) \<Longrightarrow> pool_inv c p \<Longrightarrow> 1 \<le> c \<Longrightarrow> \<exists>as p'. pool_run b as p = Some p' \<and> all_finished p'"
proof (induction "budget p" arbitrary: p rule: less_induct)
  case less
  show ?case
  proof (cases "all_finished p")
    case True
    then have "pool_run b [] p = Some p \<and> all_finished p" by simp
    then show ?thesis by blast
  next
    case False
    then obtain d i q where q: "pool_run b [Elapse d, Run i] p = Some q" using can_step less.prems by blast
    then have "budget q < budget p" "good (shared q)" "pool_inv c q"
      using run_budget [OF less.prems(1) q] pool_run_inv [OF less.prems(2) q] by simp_all
    with less obtain as p' where "pool_run b as q = Some p'" "all_finished p'" by blast
    with q have "pool_run b ([Elapse d, Run i] @ as) p = Some p'" by (auto simp: bind_eq_Some_conv)
    with \<open>all_finished p'\<close> show ?thesis by blast
  qed
qed

end

text \<open>
  The contract of a code whose results do not depend on the interleaving: \<open>result i\<close> is what task \<open>i\<close>
  returns or raises, whenever it runs (\<open>at_pc\<close> says what its local state may be).
\<close>

locale determined_tasks = ending_tasks b good may_sleep rank_in top_rank
  for b :: "('o, 'h, 'g) task_code"
    and good :: "'g \<Rightarrow> bool"
    and may_sleep :: "'g \<Rightarrow> 'o \<Rightarrow> bool"
    and rank_in :: "'h \<Rightarrow> nat"
    and top_rank :: nat +
  fixes result :: "nat \<Rightarrow> purge_result res"
    and at_pc :: "nat \<Rightarrow> 'h \<Rightarrow> bool"
  assumes at_start: "at_pc i (inner0 b)"
    and at_await: "good g \<Longrightarrow> at_pc i h \<Longrightarrow> inner b i h g = (g', Await h2) \<Longrightarrow> at_pc i h2"
    and at_return: "good g \<Longrightarrow> at_pc i h \<Longrightarrow> inner b i h g = (g', Return r) \<Longrightarrow> result i = Inr r"
    and at_raise: "good g \<Longrightarrow> at_pc i h \<Longrightarrow> inner b i h g = (g', InnerRaise e) \<Longrightarrow> result i = Inl e"
    and outer_raises: "good g \<Longrightarrow> outer b i o1 g = Some (g', OuterRaise e) \<Longrightarrow> result i = Inl e"
begin

definition phase_ok :: "nat \<Rightarrow> ('o, 'h) phase \<Rightarrow> bool" where
  "phase_ok i x \<longleftrightarrow> (case x of Inside h \<Rightarrow> at_pc i h | Finished r \<Rightarrow> r = result i | _ \<Rightarrow> True)"

definition determined :: "('o, 'h, 'g) pool \<Rightarrow> bool" where
  "determined p \<longleftrightarrow> good (shared p) \<and> (\<forall>i < length (phases p). phase_ok i (phases p ! i))"

lemma phase_ok_simps [simp]:
  "phase_ok i (Inside h) = at_pc i h" "phase_ok i (Finished r) = (r = result i)" "phase_ok i Queued"
  "phase_ok i (Outside o1)"
  by (simp_all add: phase_ok_def)

lemma stretch_phase:
  assumes "stretch b i p = Some p'"
  obtains x where "phases p' = (phases p)[i := x]"
  using assms by (cases rule: stretch_cases) (auto simp: pool_moves split: prod.splits)

lemma stretch_determined:
  assumes "determined p" "stretch b i p = Some p'"
  shows "determined p'"
proof -
  have g: "good (shared p)" and ok: "\<And>j. j < length (phases p) \<Longrightarrow> phase_ok j (phases p ! j)"
    using assms(1) by (auto simp: determined_def)
  have "good (shared p')" using stretch_budget [OF g assms(2)] by simp
  moreover have "i < length (phases p) \<Longrightarrow> phase_ok i (phases p' ! i)"
    using assms(2)
  proof (cases rule: stretch_cases)
    case (ask o1 g')
    then show ?thesis using at_start by (auto simp: ask_def pool_sel split: prod.splits)
  next
    case (outer_raise o1 g' e)
    then show ?thesis using outer_raises [OF g] by (simp add: pool_sel)
  next
    case (await h g' h2)
    then show ?thesis using at_await [OF g _ await(3)] ok [of i] by (simp add: pool_sel)
  next
    case (leave h g' r)
    then show ?thesis using at_return [OF g, of i h g'] at_raise [OF g, of i h g'] ok [of i]
      by (cases r) (auto simp: leave_def pool_sel)
  qed (simp_all add: pool_sel at_start)
  moreover obtain x where "phases p' = (phases p)[i := x]" by (rule stretch_phase [OF assms(2)])
  ultimately show ?thesis using ok
    by (simp add: determined_def) (metis nth_list_update_eq nth_list_update_neq)
qed

lemma advance_determined: "determined p \<Longrightarrow> advance b i p = Some p' \<Longrightarrow> determined p'"
  by (rule advance_keeps [where Q = determined]) (auto intro: stretch_determined)

lemma elapse_determined: "determined p \<Longrightarrow> determined (p\<lparr>shared := elapse b d (shared p)\<rparr>)"
  by (simp add: determined_def elapse_good)

lemma run_determined: "determined p \<Longrightarrow> pool_run b as p = Some p' \<Longrightarrow> determined p'"
proof (induction as arbitrary: p)
  case (Cons a as)
  from Cons.prems(2) obtain p1 where p1: "pool_step b a p = Some p1" "pool_run b as p1 = Some p'"
    by (auto simp: bind_eq_Some_conv)
  have "determined p1"
  proof (cases a)
    case (Run i)
    with p1(1) advance_determined [OF Cons.prems(1)] show ?thesis by (simp add: pool_step_def)
  next
    case (Elapse d)
    with p1(1) elapse_determined [OF Cons.prems(1)] show ?thesis by (auto simp: pool_step_def)
  qed
  with Cons.IH p1(2) show ?case by blast
qed simp

text \<open>
  Whatever the interleaving, the gather returns what the tasks return one after another, and raises
  exactly when one of them would; which exception it raises is that of the first task to raise.
\<close>

lemma gathered_results:
  assumes "good g" "init_sem c = Inr s" "pool_run b as (start_pool b s n g) = Some p" "gathered p = Some r"
  shows "case r of
      Inr rs \<Rightarrow> map_res result [0..<n] = Inr rs
    | Inl e \<Rightarrow> (\<exists>i < n. result i = Inl e) \<and> (\<exists>e'. map_res result [0..<n] = Inl e')"
proof -
  have inv: "pool_inv (nat c) p" "length (phases p) = n"
    using pool_run_inv [OF start_pool_inv [OF assms(2)] assms(3)] by (simp_all add: start_pool_def)
  have det: "phase_ok i (phases p ! i)" if "i < n" for i
    using run_determined [OF _ assms(3)] assms(1) that inv(2) by (auto simp: determined_def start_pool_def)
  show ?thesis
  proof (cases "raised p")
    case (Some e)
    then have "Finished (Inl e) \<in> set (phases p)" using inv(1) by (simp add: pool_inv_def raised_ok_def)
    then obtain i where i: "i < n" "result i = Inl e" using det inv(2) by (force simp: in_set_conv_nth)
    have "\<exists>e'. map_res result [0..<n] = Inl e'"
    proof (cases "map_res result [0..<n]")
      case (Inr rs)
      from map_res_InrD [OF this] i show ?thesis by auto
    qed simp
    with i Some assms(4) show ?thesis by (auto simp: gathered_def)
  next
    case None
    with assms(4) have fin: "all_finished p"
      and r: "r = map_res (\<lambda>x. case x of Finished r \<Rightarrow> r | _ \<Rightarrow> Inl AssertionError) (phases p)"
      by (auto simp: gathered_def split: if_splits)
    have each: "phases p ! i = Finished (result i)" if "i < n" for i
      using fin that inv(2) det [OF that] by (cases "phases p ! i") (auto simp: all_finished_def list_all_length)
    then have "phases p = map (\<lambda>i. Finished (result i)) [0..<n]"
      using inv(2) by (intro nth_equalityI) simp_all
    then have "r = map_res result [0..<n]" by (simp add: r map_res_of_map comp_def)
    moreover have "\<exists>x. result i = Inr x" if "i < n" for i
    proof (cases "result i")
      case (Inl e)
      with each [OF that] that inv have "Finished (Inl e) \<in> set (phases p)" by (metis nth_mem)
      with None inv(1) show ?thesis by (simp add: pool_inv_def raised_ok_def)
    qed simp
    then have "\<forall>i \<in> set [0..<n]. \<exists>x. result i = Inr x" by simp
    moreover obtain y where "map_res result [0..<n] = Inr y"
      using map_res_Inr [where f = result and xs = "[0..<n]" and g = "\<lambda>i. projr (result i)"] calculation(2)
      by force
    ultimately show ?thesis by simp
  qed
qed

end

end
