(* ===== verification/Fastly_Tasks.thy ===== *)
theory Fastly_Tasks
  imports Task_Pool Fastly_Contract
begin

text \<open>
  The tasks of a Fastly batch (\<open>_purge_one\<close> of \<open>providers/fastly.py\<close>) as they run at the same time,
  bounded by the provider's semaphore. \<open>Fastly\<close> runs them one after another; here every interleaving
  is shown to give the same result.
\<close>

definition fastly_default_concurrency :: int where
  "fastly_default_concurrency = 10"

datatype fastly_pc = Entered | Posting string \<comment> \<open>\<open>await client.post(endpoint)\<close>\<close>

definition fastly_inner :: "fastly_world \<Rightarrow> string list \<Rightarrow> nat \<Rightarrow> fastly_pc \<Rightarrow> http_side \<Rightarrow> http_side \<times> fastly_pc inner_move" where
  "fastly_inner w us i pc g =
     (case pc of
        Entered \<Rightarrow>
          (http_get_client g,
           case purge_endpoint (us ! i) of Inl e \<Rightarrow> InnerRaise e | Inr u \<Rightarrow> Await (Posting u))
      | Posting u \<Rightarrow> (g, case http_outcome (w_post w i u) of Inl e \<Rightarrow> InnerRaise e | Inr r \<Rightarrow> Return r))"

definition fastly_code :: "fastly_world \<Rightarrow> string list \<Rightarrow> (unit, fastly_pc, http_side) task_code" where
  "fastly_code w us =
     \<lparr>outer0 = (), outer = (\<lambda>i x g. Some (g, Ask)), inner0 = Entered, inner = fastly_inner w us, elapse = (\<lambda>d g. g)\<rparr>"

definition fastly_batch :: "fastly_world \<Rightarrow> sem \<Rightarrow> string list \<Rightarrow> (unit, fastly_pc, http_side) pool" where
  \<comment> \<open>the tasks that \<open>gather\<close> has created, none of them started\<close>
  "fastly_batch w s us = start_pool (fastly_code w us) s (length us) \<lparr>http_client = None, http_opened = 0\<rparr>"

lemma fastly_code_sel [simp]:
  "outer0 (fastly_code w us) = ()" "outer (fastly_code w us) i x g = Some (g, Ask)"
  "inner0 (fastly_code w us) = Entered" "inner (fastly_code w us) = fastly_inner w us"
  "elapse (fastly_code w us) d g = g"
  by (simp_all add: fastly_code_def)

lemma get_client_once:
  "http_opened g = (if http_client g = None then 0 else 1) \<Longrightarrow>
     http_opened (http_get_client g) = 1 \<and> http_client (http_get_client g) \<noteq> None"
  by (auto simp: http_get_client_def split: option.splits if_splits)

interpretation fastly_tasks: determined_tasks "fastly_code w us"
    "\<lambda>g. http_opened g = (if http_client g = None then 0 else 1)" "\<lambda>g x. False"
    "\<lambda>pc. case pc of Entered \<Rightarrow> 1 | Posting u \<Rightarrow> 0" 1
    "\<lambda>i. fastly_purge_one w i (us ! i)"
    "\<lambda>i pc. case pc of Entered \<Rightarrow> True | Posting u \<Rightarrow> purge_endpoint (us ! i) = Inr u"
  for w us
proof unfold_locales
  fix g g' :: http_side and i :: nat and pc m
  assume "http_opened g = (if http_client g = None then 0 else 1)" "inner (fastly_code w us) i pc g = (g', m)"
  then show "http_opened g' = (if http_client g' = None then 0 else 1)"
    using get_client_once [of g] by (cases pc) (auto simp: fastly_inner_def)
qed (auto simp: fastly_inner_def fastly_purge_one_def split: fastly_pc.splits sum.splits)

section \<open>What every interleaving gives\<close>

lemma fastly_batch_start: "init_sem c = Inr s \<Longrightarrow> pool_inv (nat c) (fastly_batch w s us)"
  unfolding fastly_batch_def by (rule start_pool_inv)

definition posting :: "(unit, fastly_pc, http_side) pool \<Rightarrow> nat" where
  \<comment> \<open>the requests in flight\<close>
  "posting p = length (filter (\<lambda>x. case x of Inside (Posting u) \<Rightarrow> True | _ \<Rightarrow> False) (phases p))"

lemma posting_holders: "posting p \<le> holders p"
  unfolding posting_def holders_def by (rule filter_weaker) (simp add: in_section_def split: phase.splits)

lemma fastly_batch_run:
  assumes "init_sem c = Inr s" "pool_run (fastly_code w us) as (fastly_batch w s us) = Some p"
  shows "pool_inv (nat c) p" "http_opened (shared p) = (if http_client (shared p) = None then 0 else 1)"
    "length (filter is_run as) \<le> length us * 4 * Suc (length us) + length us"
  using pool_run_inv [OF fastly_batch_start [OF assms(1)] assms(2)]
    fastly_tasks.run_budget [OF _ assms(2)] fastly_tasks.bounded_run [OF _ assms(2) [unfolded fastly_batch_def]]
  by (simp_all add: fastly_batch_def start_pool_def)

text \<open>
  C22. However the tasks of a batch are interleaved and however long each answer takes, \<open>purge\<close> returns
  what the tasks would give one after another; it raises exactly when one of them would, and then an
  exception of one of them.
\<close>

theorem fastly_any_interleaving:
  assumes "init_sem c = Inr s"
    and "pool_run (fastly_code w us) as (fastly_batch w s us) = Some p" "gathered p = Some r"
  shows "case r of
      Inr rs \<Rightarrow> fastly_purge_all w us = Inr (aggregate rs)
    | Inl e \<Rightarrow> (\<exists>i < length us. fastly_purge_one w i (us ! i) = Inl e) \<and> (\<exists>e'. fastly_purge_all w us = Inl e')"
  using fastly_tasks.gathered_results [OF _ assms(1) assms(2) [unfolded fastly_batch_def] assms(3)]
  by (auto simp: fastly_purge_all_def gather_by_index split: sum.splits)

definition one_permit :: sem where
  "one_permit = \<lparr>sem_value = 1, sem_waiters = []\<rparr>"

definition swapped_run :: "pool_action list" where
  \<comment> \<open>two tasks and one permit: the second runs first, and the first waits for it\<close>
  "swapped_run = [Run 1, Run 0, Elapse 3, Run 1, Run 0, Run 0]"

definition two_urls :: "string list" where
  "two_urls = [''https://repo.x/alma/9'', ''https://repo.x/alma/9'']"

lemma swapped_run_result:
  "\<exists>p. pool_run (fastly_code flaky_world two_urls) swapped_run (fastly_batch flaky_world one_permit two_urls) = Some p \<and>
     gathered p = Some (Inr [success ''ok'', failure True ''HTTP 429''])"
proof -
  have "purge_endpoint ''https://repo.x/alma/9'' = Inr ''https://api.fastly.com/purge/repo.x/alma/9''"
    "show_int 429 = ''429''"
    by code_simp+
  then show ?thesis
    by (simp add: swapped_run_def fastly_batch_def start_pool_def one_permit_def two_urls_def pool_step_def advance_def stretch_def in_section_def
        pool_moves sem_acquire_def sem_locked_def sem_release_def sem_resume_def wake_next_def fastly_inner_def
        flaky_world_def classify_def is_2xx_def retryable_status_def gathered_def all_finished_def Let_def
        numeral_2_eq_2)
qed

theorem fastly_any_interleaving_witness:
  "fastly_purge_all flaky_world two_urls = Inr (aggregate [success ''ok'', failure True ''HTTP 429''])"
proof -
  have "init_sem 1 = Inr one_permit" by (simp add: init_sem_def one_permit_def)
  with swapped_run_result fastly_any_interleaving [of 1 one_permit flaky_world two_urls swapped_run]
  show ?thesis by fastforce
qed

text \<open>
  In every state that the tasks of a batch can reach, at most \<open>concurrency\<close> requests are in flight, with
  the default at most ten, and one HTTP client has been opened.
\<close>

lemma fastly_requests_bounded:
  assumes "init_sem c = Inr s" "pool_run (fastly_code w us) as (fastly_batch w s us) = Some p"
  shows "int (posting p) \<le> c \<and> http_opened (shared p) \<le> 1 \<and>
    (c = fastly_default_concurrency \<longrightarrow> posting p \<le> 10)"
proof -
  have "0 \<le> c" using init_sem_ok [OF assms(1)] by simp
  moreover have "posting p \<le> nat c"
    using posting_holders [of p] holders_bounded [OF fastly_batch_run(1) [OF assms]] by linarith
  ultimately show ?thesis
    using fastly_batch_run(2) [OF assms] by (auto simp: fastly_default_concurrency_def)
qed

text \<open>
  A batch ends: with at least one permit every state it can reach can be continued until all tasks
  have finished, no wake-up is lost, and no interleaving makes more steps than the bound.
\<close>

lemma fastly_batch_ends:
  assumes "init_sem c = Inr s" "1 \<le> c"
    and "pool_run (fastly_code w us) as (fastly_batch w s us) = Some p"
  shows "length (filter is_run as) \<le> length us * 4 * Suc (length us) + length us \<and>
    (\<exists>bs p' r. pool_run (fastly_code w us) bs p = Some p' \<and> all_finished p' \<and> gathered p' = Some r)"
proof -
  note run = fastly_batch_run [OF assms(1,3)]
  have "1 \<le> nat c" using assms(2) by simp
  from fastly_tasks.can_finish [OF run(2) run(1) this] obtain bs p' where
    "pool_run (fastly_code w us) bs p = Some p'" "all_finished p'" by blast
  moreover from this have "\<exists>r. gathered p' = Some r" by (auto simp: gathered_def split: option.splits)
  ultimately show ?thesis using run(3) by blast
qed

end
