(* ===== verification/Limiter.thy ===== *)
theory Limiter
  imports Prelude
begin

text \<open>
  \<open>_SlidingWindowLimiter\<close> of \<open>providers/gcp.py\<close>. The section that \<open>acquire\<close> runs under the lock is
  \<open>try_acquire\<close>: it admits the call, says how long to sleep, or raises. \<open>acquire\<close> is the loop of one
  waiter; the interleaving of many waiters is any sequence of \<open>try_acquire\<close> at times that do not
  decrease.
\<close>

record limiter =
  capacity :: int
  window_seconds :: real
  calls :: "real list" \<comment> \<open>the deque, oldest first\<close>

datatype admission = Admitted | WaitFor real

definition init_limiter :: "int \<Rightarrow> real \<Rightarrow> limiter" where
  "init_limiter cap w = \<lparr>capacity = cap, window_seconds = w, calls = []\<rparr>"

definition recent :: "real \<Rightarrow> limiter \<Rightarrow> real list" where
  \<comment> \<open>the deque after the \<open>popleft\<close> loop\<close>
  "recent now l = dropWhile (\<lambda>t. t \<le> now - window_seconds l) (calls l)"

definition try_acquire :: "real \<Rightarrow> limiter \<Rightarrow> limiter \<times> admission res" where
  "try_acquire now l =
     (let cs = recent now l in
        if int (length cs) < capacity l then (l\<lparr>calls := cs @ [now]\<rparr>, Inr Admitted)
        else (case cs of
                [] \<Rightarrow> (l\<lparr>calls := cs\<rparr>, Inl IndexError)
              | oldest # _ \<Rightarrow> (l\<lparr>calls := cs\<rparr>, Inr (WaitFor (max 0 (oldest + window_seconds l - now))))))"

lemma try_acquire_wait:
  assumes "try_acquire now l = (l', Inr (WaitFor d))" "now + d \<le> later"
  shows "length (recent later l') < length (recent now l)" "0 \<le> d" "calls l' = recent now l"
    "capacity l' = capacity l" "window_seconds l' = window_seconds l"
proof -
  from assms(1) obtain c cs where c: "recent now l = c # cs" "l' = l\<lparr>calls := c # cs\<rparr>"
    "d = max 0 (c + window_seconds l - now)"
    by (auto simp: try_acquire_def Let_def split: if_splits list.splits)
  then have "c \<le> later - window_seconds l" using assms(2) by (simp add: max_def split: if_splits)
  then have "recent later l' = dropWhile (\<lambda>t. t \<le> later - window_seconds l) cs"
    by (simp add: recent_def c(2))
  then show "length (recent later l') < length (recent now l)"
    using length_dropWhile_le [of "\<lambda>t. t \<le> later - window_seconds l" cs] by (simp add: c(1) less_Suc_eq_le)
  show "0 \<le> d" "calls l' = recent now l" "capacity l' = capacity l" "window_seconds l' = window_seconds l"
    using c by simp_all
qed

text \<open>
  The loop of one waiter, whose sleeps last exactly as long as asked: the limiter afterwards and the
  time of the admission. Each turn leaves fewer calls in the window, so it ends.
\<close>

function acquire :: "limiter \<Rightarrow> real \<Rightarrow> limiter \<times> real res" where
  "acquire l now =
     (case try_acquire now l of
        (l', Inl e) \<Rightarrow> (l', Inl e)
      | (l', Inr Admitted) \<Rightarrow> (l', Inr now)
      | (l', Inr (WaitFor d)) \<Rightarrow> acquire l' (now + d))"
  by pat_completeness auto

termination acquire
  by (relation "measure (\<lambda>(l, now). length (recent now l))")
     (auto intro: try_acquire_wait(1) [OF sym])

declare acquire.simps [simp del]

lemma acquire_cases:
  "snd (try_acquire now l) = Inl e \<Longrightarrow> acquire l now = (fst (try_acquire now l), Inl e)"
  "snd (try_acquire now l) = Inr Admitted \<Longrightarrow> acquire l now = (fst (try_acquire now l), Inr now)"
  "snd (try_acquire now l) = Inr (WaitFor d) \<Longrightarrow> acquire l now = acquire (fst (try_acquire now l)) (now + d)"
  by (subst acquire.simps; auto split: prod.splits)+

section \<open>Many waiters\<close>

fun attempts_at :: "real list \<Rightarrow> limiter \<Rightarrow> limiter \<times> real list" where
  \<comment> \<open>locked sections at these times: the limiter and the times of the admissions\<close>
  "attempts_at [] l = (l, [])"
| "attempts_at (t # ts) l =
     (case try_acquire t l of
        (l1, r) \<Rightarrow> (case attempts_at ts l1 of (l2, as) \<Rightarrow> (l2, if r = Inr Admitted then t # as else as)))"

definition in_window :: "real \<Rightarrow> real \<Rightarrow> real list \<Rightarrow> nat" where
  \<comment> \<open>how many of the times lie in the window of length \<open>w\<close> that ends at \<open>x\<close>\<close>
  "in_window w x as = length (filter (\<lambda>a. x - w < a \<and> a \<le> x) as)"

definition limiter_inv :: "real list \<Rightarrow> real \<Rightarrow> limiter \<Rightarrow> bool" where
  \<comment> \<open>\<open>as\<close> have been admitted so far, none after \<open>now\<close>: those the deque has dropped are out of the window\<close>
  "limiter_inv as now l \<longleftrightarrow> sorted as \<and> (\<forall>a \<in> set as. a \<le> now) \<and>
     (\<exists>old. as = old @ calls l \<and> (\<forall>a \<in> set old. a \<le> now - window_seconds l)) \<and>
     (\<forall>x. int (in_window (window_seconds l) x as) \<le> max 0 (capacity l))"

lemma init_limiter_inv: "limiter_inv [] now (init_limiter cap w)"
  by (simp add: limiter_inv_def init_limiter_def in_window_def)

lemma takeWhile_recent: "calls l = takeWhile (\<lambda>t. t \<le> now - window_seconds l) (calls l) @ recent now l"
  by (simp add: recent_def)

lemma expire_inv:
  assumes "limiter_inv as now l" "now \<le> t"
  shows "limiter_inv as t (l\<lparr>calls := recent t l\<rparr>)"
proof -
  from assms(1) obtain old where old: "as = old @ calls l" "\<forall>a \<in> set old. a \<le> now - window_seconds l"
    by (auto simp: limiter_inv_def)
  let ?old = "old @ takeWhile (\<lambda>a. a \<le> t - window_seconds l) (calls l)"
  have "as = ?old @ recent t l" using old(1) takeWhile_recent [of l t] by simp
  moreover have "\<forall>a \<in> set ?old. a \<le> t - window_seconds l"
    using old(2) assms(2) by (auto dest: set_takeWhileD)
  ultimately show ?thesis using assms unfolding limiter_inv_def by fastforce
qed

lemma admit_inv:
  assumes "limiter_inv as t l" "int (length (calls l)) < capacity l"
  shows "limiter_inv (as @ [t]) t (l\<lparr>calls := calls l @ [t]\<rparr>)"
proof -
  let ?w = "window_seconds l"
  from assms(1) obtain old where old: "as = old @ calls l" "\<forall>a \<in> set old. a \<le> t - ?w"
    and le: "\<forall>a \<in> set as. a \<le> t" and so: "sorted as"
    and cap: "\<And>x. int (in_window ?w x as) \<le> max 0 (capacity l)"
    by (auto simp: limiter_inv_def)
  have "int (in_window ?w x (as @ [t])) \<le> max 0 (capacity l)" for x
  proof (cases "t \<le> x")
    case False
    with cap [of x] show ?thesis by (simp add: in_window_def)
  next
    case True
    then have "filter (\<lambda>a. x - ?w < a \<and> a \<le> x) old = []"
      using old(2) by (force simp: filter_empty_conv)
    then have "in_window ?w x (as @ [t]) \<le> length (calls l) + 1"
      using length_filter_le [of "\<lambda>a. x - ?w < a \<and> a \<le> x" "calls l"]
      by (auto simp: in_window_def old(1) intro!: le_SucI)
    with assms(2) show ?thesis by simp
  qed
  with old le so show ?thesis
    unfolding limiter_inv_def by (auto simp: sorted_append)
qed

lemma try_acquire_inv:
  assumes "limiter_inv as now l" "now \<le> t" "try_acquire t l = (l', r)"
  shows "limiter_inv (if r = Inr Admitted then as @ [t] else as) t l'"
proof -
  have e: "limiter_inv as t (l\<lparr>calls := recent t l\<rparr>)" by (rule expire_inv [OF assms(1,2)])
  show ?thesis
    using assms(3) e admit_inv [OF e]
    by (auto simp: try_acquire_def Let_def split: if_splits list.splits)
qed

lemma attempts_inv:
  "limiter_inv as now l \<Longrightarrow> sorted ts \<Longrightarrow> \<forall>t \<in> set ts. now \<le> t \<Longrightarrow> attempts_at ts l = (l', bs) \<Longrightarrow>
     \<exists>later. limiter_inv (as @ bs) later l' \<and> window_seconds l' = window_seconds l \<and> capacity l' = capacity l"
proof (induction ts arbitrary: as now l l' bs)
  case (Cons t ts)
  obtain l1 r where t: "try_acquire t l = (l1, r)" by fastforce
  obtain l2 cs where a: "attempts_at ts l1 = (l2, cs)" by fastforce
  have bs: "bs = (if r = Inr Admitted then t # cs else cs)" "l' = l2"
    using Cons.prems(4) t a by auto
  have "window_seconds l1 = window_seconds l \<and> capacity l1 = capacity l"
    using t by (auto simp: try_acquire_def Let_def split: if_splits list.splits)
  with Cons.IH [OF try_acquire_inv [OF Cons.prems(1) _ t] _ _ a] Cons.prems(2,3)
  show ?case by (auto simp: bs split: if_splits)
qed auto

lemma recent_bound: "limiter_inv as now l \<Longrightarrow> c \<in> set (recent now l) \<Longrightarrow> c \<le> now"
  by (auto simp: limiter_inv_def recent_def dest: set_dropWhileD)

lemma recent_length:
  assumes "limiter_inv as now l"
  shows "int (length (recent now l)) \<le> max 0 (capacity l)"
proof -
  have "sorted (calls l)" "\<forall>a \<in> set (calls l). a \<le> now" and cap: "int (in_window (window_seconds l) now as) \<le> max 0 (capacity l)"
    using assms by (auto simp: limiter_inv_def sorted_append)
  obtain old where old: "as = old @ calls l" using assms by (auto simp: limiter_inv_def)
  have "\<forall>c \<in> set (recent now l). now - window_seconds l < c"
  proof
    fix c assume "c \<in> set (recent now l)"
    then obtain d ds where r: "recent now l = d # ds" "c \<in> set (d # ds)" by (cases "recent now l") auto
    then have "\<not> d \<le> now - window_seconds l" by (metis recent_def hd_dropWhile list.distinct(1) list.sel(1))
    moreover have "sorted (d # ds)" using \<open>sorted (calls l)\<close> r(1) sorted_dropWhile by (metis recent_def)
    ultimately show "now - window_seconds l < c" using r(2) by fastforce
  qed
  with \<open>\<forall>a \<in> set (calls l). a \<le> now\<close>
  have "filter (\<lambda>a. now - window_seconds l < a \<and> a \<le> now) (recent now l) = recent now l"
    by (auto simp: filter_id_conv recent_def dest: set_dropWhileD)
  moreover have "length (filter P (recent now l)) \<le> length (filter P (calls l))" for P
    using arg_cong [where f = "\<lambda>cs. length (filter P cs)", OF takeWhile_recent [of l now]]
    by (simp only: filter_append length_append)
  ultimately have "length (recent now l) \<le> in_window (window_seconds l) now as"
    unfolding in_window_def old by (simp only: filter_append length_append) (metis le_add2 le_trans)
  with cap show ?thesis by linarith
qed

lemma try_acquire_sel:
  "try_acquire t l = (l', r) \<Longrightarrow> window_seconds l' = window_seconds l \<and> capacity l' = capacity l"
  by (auto simp: try_acquire_def Let_def split: if_splits list.splits)

lemma acquire_inv:
  "limiter_inv as now l \<Longrightarrow> acquire l now = (l', r) \<Longrightarrow>
     capacity l' = capacity l \<and> window_seconds l' = window_seconds l \<and>
     (case r of Inl e \<Rightarrow> limiter_inv as now l' \<and> capacity l \<le> 0
      | Inr t \<Rightarrow> now \<le> t \<and> limiter_inv (as @ [t]) t l')"
proof (induction l now arbitrary: l' r rule: acquire.induct)
  case (1 l now)
  obtain l1 a where t: "try_acquire now l = (l1, a)" by fastforce
  have sel: "window_seconds l1 = window_seconds l" "capacity l1 = capacity l"
    using try_acquire_sel [OF t] by simp_all
  have inv: "limiter_inv (if a = Inr Admitted then as @ [now] else as) now l1"
    by (rule try_acquire_inv [OF 1(2) order_refl t])
  consider (raise) e where "a = Inl e" | (admit) "a = Inr Admitted" | (wait) d where "a = Inr (WaitFor d)"
    by (metis admission.exhaust sumE)
  then show ?case
  proof cases
    case raise
    then have "capacity l \<le> 0" using t by (auto simp: try_acquire_def Let_def split: if_splits list.splits)
    moreover have "l' = l1" "r = Inl e"
      using 1(3) t raise by (subst (asm) acquire.simps, simp)+
    ultimately show ?thesis using inv sel raise by simp
  next
    case admit
    then have "l' = l1" "r = Inr now"
      using 1(3) t by (subst (asm) acquire.simps, simp)+
    then show ?thesis using inv sel admit by simp
  next
    case wait
    then have next1: "acquire l1 (now + d) = (l', r)"
      using 1(3) t by (subst (asm) acquire.simps) simp
    have "recent now l \<noteq> []" "0 \<le> d"
      using t wait by (auto simp: try_acquire_def Let_def split: if_splits list.splits)
    then have "\<not> capacity l \<le> 0" using recent_length [OF 1(2)] by (cases "recent now l") auto
    moreover have "limiter_inv as (now + d) l1"
      using inv wait \<open>0 \<le> d\<close> by (auto simp: limiter_inv_def sel intro!: exI)
    note 1(1) [OF t [symmetric] wait _ this next1]
    ultimately show ?thesis using sel \<open>0 \<le> d\<close> wait by (auto split: sum.splits)
  qed
qed

section \<open>The contract\<close>

text \<open>
  The rate limit holds over any interleaving of waiters: whatever the times of their attempts, as
  long as the clock does not run backwards, no window of \<open>window_seconds\<close> contains more admissions than
  the capacity.
\<close>

lemma rate_bounded:
  assumes "sorted ts" "attempts_at ts (init_limiter cap w) = (l, as)"
  shows "int (in_window w x as) \<le> max 0 cap"
proof -
  have "limiter_inv [] (if ts = [] then 0 else hd ts) (init_limiter cap w)" by (rule init_limiter_inv)
  moreover have "\<forall>t \<in> set ts. (if ts = [] then 0 else hd ts) \<le> t"
    using assms(1) by (cases ts) auto
  ultimately have "\<exists>later. limiter_inv ([] @ as) later l \<and>
      window_seconds l = window_seconds (init_limiter cap w) \<and> capacity l = capacity (init_limiter cap w)"
    using assms by (intro attempts_inv)
  then show ?thesis by (auto simp: limiter_inv_def init_limiter_def)
qed

text \<open>
  A waiter gets through: with a capacity of at least one, \<open>acquire\<close> returns, and not later than
  one window after the call; with a capacity of zero or less it raises IndexError.
\<close>

lemma acquire_returns:
  assumes "limiter_inv as now l" "0 \<le> window_seconds l"
  shows "(if 1 \<le> capacity l
      then \<exists>l' t. acquire l now = (l', Inr t) \<and> now \<le> t \<and> t \<le> now + window_seconds l
      else acquire l now = (l\<lparr>calls := []\<rparr>, Inl IndexError))"
proof -
  have "acquire l now = (l\<lparr>calls := []\<rparr>, Inl IndexError)" if "\<not> 1 \<le> capacity l"
  proof -
    have "recent now l = []" using recent_length [OF assms(1)] that by simp
    with that show ?thesis by (subst acquire.simps) (simp add: try_acquire_def)
  qed
  moreover have "\<exists>l' t. acquire l now = (l', Inr t) \<and> now \<le> t \<and> t \<le> now + window_seconds l"
    if cap: "1 \<le> capacity l"
  proof (cases "int (length (recent now l)) < capacity l")
    case True
    then show ?thesis
      using assms(2) by (subst acquire.simps) (simp add: try_acquire_def Let_def)
  next
    case False
    then obtain c cs where c: "recent now l = c # cs" using cap by (cases "recent now l") auto
    have len: "int (length (c # cs)) \<le> capacity l" using recent_length [OF assms(1)] cap c by simp
    have "c \<le> now" using recent_bound [OF assms(1)] c by simp
    define d where "d = max 0 (c + window_seconds l - now)"
    define l1 where "l1 = l\<lparr>calls := c # cs\<rparr>"
    have try1: "try_acquire now l = (l1, Inr (WaitFor d))"
      using False c by (simp add: try_acquire_def Let_def l1_def d_def)
    have shorter: "length (recent (now + d) l1) < length (recent now l)"
      by (rule try_acquire_wait(1) [OF try1]) simp
    then have "int (length (recent (now + d) l1)) < capacity l1" using len c by (simp add: l1_def)
    then have "try_acquire (now + d) l1 = (l1\<lparr>calls := recent (now + d) l1 @ [now + d]\<rparr>, Inr Admitted)"
      by (simp add: try_acquire_def Let_def)
    then have "acquire l1 (now + d) = (l1\<lparr>calls := recent (now + d) l1 @ [now + d]\<rparr>, Inr (now + d))"
      by (subst acquire.simps) simp
    then have "acquire l now = (l1\<lparr>calls := recent (now + d) l1 @ [now + d]\<rparr>, Inr (now + d))"
      by (subst acquire.simps) (simp add: try1)
    moreover have "0 \<le> d" "d \<le> window_seconds l" using \<open>c \<le> now\<close> assms(2) by (simp_all add: d_def)
    ultimately show ?thesis by fastforce
  qed
  ultimately show ?thesis by simp
qed

end
