(* ===== verification/Gcp.thy ===== *)
theory Gcp
  imports Provider Limiter Web_Url
begin

text \<open>
  \<open>GcpCdnProvider\<close> of \<open>providers/gcp.py\<close>: one \<open>invalidateCache\<close> call per URL, each admitted by the
  limiter, with a bearer token from the service account. Here the tasks that \<open>gather\<close> starts run one
  after another in the order of the URLs, and a task that raises does not stop the others; \<open>Gcp_Tasks\<close>
  shows that every interleaving of them gives the same result. google-auth and the API are the
  parameter \<open>gcp_world\<close>.
\<close>

section \<open>Requests\<close>

definition gcp_compute_base :: string where
  "gcp_compute_base = ''https://compute.googleapis.com/compute/v1''"

record gcp_body =
  body_path :: string
  body_host :: string

definition gcp_body_of :: "url_parts \<Rightarrow> gcp_body" where
  "gcp_body_of q =
     \<lparr>body_path = (if u_path q = [] then ''/'' else u_path q),
      body_host = (case hostname q of None \<Rightarrow> [] | Some h \<Rightarrow> h)\<rparr>"

section \<open>The provider\<close>

datatype token = NoToken | StrToken string | OtherToken \<comment> \<open>a value that is not a \<open>str\<close>\<close>

record creds =
  creds_token :: token
  creds_expired :: bool

record gcp =
  g_project :: string
  g_url_map :: string
  g_sa_file :: string
  g_quota :: int
  g_window :: real
  g_limiter :: "limiter option"
  g_creds :: "creds option"
  g_endpoint :: string

record gcp_world =
  w_start :: real \<comment> \<open>the loop's clock when the call begins\<close>
  w_load :: "nat \<Rightarrow> string \<Rightarrow> string + creds" \<comment> \<open>reading the key file: the text of the exception, or credentials\<close>
  w_refresh :: "nat \<Rightarrow> creds \<Rightarrow> string + creds"
  w_invalidate :: "nat \<Rightarrow> string \<Rightarrow> string \<Rightarrow> gcp_body \<Rightarrow> http_result" \<comment> \<open>endpoint, token, body\<close>

definition init_gcp :: "string \<Rightarrow> string \<Rightarrow> string \<Rightarrow> int \<Rightarrow> gcp" where
  "init_gcp prj um sa quota =
     \<lparr>g_project = prj, g_url_map = um, g_sa_file = sa, g_quota = quota, g_window = 60, g_limiter = None,
      g_creds = None,
      g_endpoint = gcp_compute_base @ ''/projects/'' @ prj @ ''/global/urlMaps/'' @ um @ ''/invalidateCache''\<rparr>"

definition get_limiter :: "gcp \<Rightarrow> limiter" where
  "get_limiter p = (case g_limiter p of None \<Rightarrow> init_limiter (g_quota p) (g_window p) | Some l \<Rightarrow> l)"

definition fresh_creds :: "gcp_world \<Rightarrow> nat \<Rightarrow> gcp \<Rightarrow> gcp \<times> (string + creds)" where
  \<comment> \<open>the credentials, read once and refreshed when they have no token or are expired\<close>
  "fresh_creds w i p =
     (case (case g_creds p of None \<Rightarrow> w_load w i (g_sa_file p) | Some c \<Rightarrow> Inr c) of
        Inl e \<Rightarrow> (p, Inl e)
      | Inr c \<Rightarrow>
          if creds_token c = NoToken \<or> creds_token c = StrToken [] \<or> creds_expired c
          then (case w_refresh w i c of
                  Inl e \<Rightarrow> (p\<lparr>g_creds := Some c\<rparr>, Inl e)
                | Inr c' \<Rightarrow> (p\<lparr>g_creds := Some c'\<rparr>, Inr c'))
          else (p\<lparr>g_creds := Some c\<rparr>, Inr c))"

definition get_token :: "gcp_world \<Rightarrow> nat \<Rightarrow> gcp \<Rightarrow> gcp \<times> (string + string)" where
  "get_token w i p =
     (case fresh_creds w i p of
        (p', Inl e) \<Rightarrow> (p', Inl e)
      | (p', Inr c) \<Rightarrow>
          (p', case creds_token c of
                 StrToken t \<Rightarrow> Inr t
               | _ \<Rightarrow> Inl ''GCP credential refresh produced no string token''))"

definition gcp_send :: "gcp_world \<Rightarrow> nat \<Rightarrow> string \<Rightarrow> gcp \<Rightarrow> gcp \<times> purge_result res" where
  \<comment> \<open>\<open>_purge_one\<close> once it is admitted\<close>
  "gcp_send w i u p =
     (case urlparse u of
        Inl e \<Rightarrow> (p, Inl e)
      | Inr q \<Rightarrow>
          (case get_token w i p of
             (p', Inl e) \<Rightarrow> (p', Inr (failure False (''auth: '' @ e)))
           | (p', Inr t) \<Rightarrow> (p', http_outcome (w_invalidate w i (g_endpoint p') t (gcp_body_of q)))))"

definition gcp_purge_one :: "gcp_world \<Rightarrow> nat \<Rightarrow> string \<Rightarrow> real \<Rightarrow> gcp \<Rightarrow> gcp \<times> real option \<times> purge_result res" where
  \<comment> \<open>also the time of the admission, if there is one\<close>
  "gcp_purge_one w i u now p =
     (case acquire (get_limiter p) now of
        (l, Inl e) \<Rightarrow> (p\<lparr>g_limiter := Some l\<rparr>, None, Inl e)
      | (l, Inr t) \<Rightarrow> (case gcp_send w i u (p\<lparr>g_limiter := Some l\<rparr>) of (p', r) \<Rightarrow> (p', Some t, r)))"

fun gcp_tasks :: "gcp_world \<Rightarrow> nat \<Rightarrow> string list \<Rightarrow> real \<Rightarrow> gcp \<Rightarrow> gcp \<times> real list \<times> purge_result res list" where
  \<comment> \<open>the tasks of one \<open>gather\<close>: their admissions and their outcomes\<close>
  "gcp_tasks w i [] now p = (p, [], [])"
| "gcp_tasks w i (u # us) now p =
     (case gcp_purge_one w i u now p of
        (p1, None, r) \<Rightarrow> (case gcp_tasks w (Suc i) us now p1 of (p', as, rs) \<Rightarrow> (p', as, r # rs))
      | (p1, Some t, r) \<Rightarrow> (case gcp_tasks w (Suc i) us t p1 of (p', as, rs) \<Rightarrow> (p', t # as, r # rs)))"

definition gcp_purge :: "gcp_world \<Rightarrow> gcp \<Rightarrow> string list \<Rightarrow> gcp \<times> purge_result res" where
  "gcp_purge w p us =
     (if us = [] then (p, Inr (success ''empty''))
      else (case gcp_tasks w 0 us (w_start w) p of
              (p', as, rs) \<Rightarrow> (p', bind_res (map_res id rs) (\<lambda>rs'. Inr (aggregate rs')))))"

section \<open>Acceptance\<close>

definition gcp_accepted :: "gcp_world \<Rightarrow> gcp \<Rightarrow> string list \<Rightarrow> string set" where
  \<comment> \<open>an invalidation of the host and path of this URL was answered with a 2xx status\<close>
  "gcp_accepted w p us =
     {u. \<exists>q i t s. urlparse u = Inr q \<and> w_invalidate w i (g_endpoint p) t (gcp_body_of q) = Response s \<and> is_2xx s}"

lemma fresh_creds_endpoint: "fresh_creds w i p = (p', r) \<Longrightarrow> g_endpoint p' = g_endpoint p"
  by (auto simp: fresh_creds_def split: option.splits sum.splits if_splits)

lemma get_token_endpoint: "get_token w i p = (p', r) \<Longrightarrow> g_endpoint p' = g_endpoint p"
  by (auto simp: get_token_def dest: fresh_creds_endpoint split: prod.splits sum.splits)

lemma gcp_send_endpoint: "gcp_send w i u p = (p', r) \<Longrightarrow> g_endpoint p' = g_endpoint p"
  by (auto simp: gcp_send_def dest: get_token_endpoint split: prod.splits sum.splits)

lemma gcp_one_endpoint: "gcp_purge_one w i u now p = (p', a, r) \<Longrightarrow> g_endpoint p' = g_endpoint p"
  by (auto simp: gcp_purge_one_def dest: gcp_send_endpoint split: prod.splits sum.splits)

lemma gcp_one_ok:
  assumes "gcp_purge_one w i u now p = (p', a, Inr r)" "ok r"
  shows "u \<in> gcp_accepted w p us"
proof -
  from assms(1) obtain l t where s: "gcp_send w i u (p\<lparr>g_limiter := Some l\<rparr>) = (p', Inr r)"
    by (auto simp: gcp_purge_one_def split: prod.splits sum.splits)
  obtain p1 tr where t: "get_token w i (p\<lparr>g_limiter := Some l\<rparr>) = (p1, tr)" by fastforce
  then have "g_endpoint p1 = g_endpoint p" using get_token_endpoint [OF t] by simp
  moreover obtain q tk where "urlparse u = Inr q"
    "http_outcome (w_invalidate w i (g_endpoint p1) tk (gcp_body_of q)) = Inr r"
    using s t assms(2) by (auto simp: gcp_send_def split: sum.splits)
  ultimately have "urlparse u = Inr q" "http_outcome (w_invalidate w i (g_endpoint p) tk (gcp_body_of q)) = Inr r"
    by simp_all
  with assms(2) http_outcome_ok show ?thesis by (auto simp: gcp_accepted_def)
qed

lemma gcp_tasks_ok:
  "gcp_tasks w i us now p = (p', as, map Inr rs) \<Longrightarrow> \<forall>r \<in> set rs. ok r \<Longrightarrow> u \<in> set us \<Longrightarrow>
     u \<in> gcp_accepted w p vs"
proof (induction us arbitrary: i now p as rs)
  case (Cons v us)
  obtain p1 a r where one: "gcp_purge_one w i v now p = (p1, a, r)" by (metis prod_cases3)
  from Cons.prems(1) one obtain t as' r' rs' where
    rest: "gcp_tasks w (Suc i) us t p1 = (p', as', map Inr rs')" "rs = r' # rs'" "r = Inr r'"
    by (cases a) (auto split: prod.splits)
  have "gcp_accepted w p1 vs = gcp_accepted w p vs"
    using gcp_one_endpoint [OF one] by (simp add: gcp_accepted_def)
  with Cons.IH [OF rest(1)] Cons.prems(2,3) gcp_one_ok [of w i v now p p1 a r' vs] one rest(2,3)
  show ?case by auto
qed simp

lemma map_res_id: "map_res id rs = Inr ys \<longleftrightarrow> rs = map Inr ys"
  by (induction rs arbitrary: ys) (auto simp: bind_res_eq_Inr)

lemma map_res_Inr_list: "map_res id (map Inr rs) = Inr rs"
  by (simp add: map_res_id)

lemma gcp_ok_accepted:
  assumes "gcp_purge w p us = (p', Inr r)" "ok r"
  shows "set us \<subseteq> gcp_accepted w p us"
proof (cases "us = []")
  case False
  with assms(1) obtain as rs where "gcp_tasks w 0 us (w_start w) p = (p', as, map Inr rs)" "r = aggregate rs"
    by (auto simp: gcp_purge_def bind_res_eq_Inr map_res_id split: prod.splits)
  with assms(2) gcp_tasks_ok show ?thesis by (auto simp: aggregate_ok)
qed simp

interpretation gcp: cdn_provider gcp_purge gcp_accepted
  by unfold_locales (rule gcp_ok_accepted)

end
