(* ===== verification/Gcp_Contract.thy ===== *)
theory Gcp_Contract
  imports Gcp
begin

text \<open>
  What the GCP provider promises: over a whole session of purges no window holds more admissions than
  the quota, and a batch sends one request per URL, with its path and host, whose worst answer is the
  result.
\<close>

section \<open>The quota\<close>

definition gcp_inv :: "real list \<Rightarrow> real \<Rightarrow> gcp \<Rightarrow> bool" where
  \<comment> \<open>\<open>as\<close> are the admissions so far\<close>
  "gcp_inv as now p \<longleftrightarrow> limiter_inv as now (get_limiter p) \<and>
     capacity (get_limiter p) = g_quota p \<and> window_seconds (get_limiter p) = g_window p"

lemma init_gcp_inv: "gcp_inv [] now (init_gcp prj um sa quota)"
  by (simp add: gcp_inv_def get_limiter_def init_gcp_def init_limiter_inv) (simp add: init_limiter_def)

definition same_limits :: "gcp \<Rightarrow> gcp \<Rightarrow> bool" where
  "same_limits p' p \<longleftrightarrow> g_limiter p' = g_limiter p \<and> g_quota p' = g_quota p \<and> g_window p' = g_window p"

lemma get_token_limits: "get_token w i p = (p', r) \<Longrightarrow> same_limits p' p"
  by (auto simp: get_token_def fresh_creds_def same_limits_def
      split: prod.splits sum.splits option.splits if_splits)

lemma gcp_send_limits: "gcp_send w i u p = (p', r) \<Longrightarrow> same_limits p' p"
  using get_token_limits [of w i p]
  by (auto simp: gcp_send_def same_limits_def split: prod.splits sum.splits)

lemma gcp_one_inv:
  assumes "gcp_inv as now p" "gcp_purge_one w i u now p = (p', a, r)"
  shows "g_quota p' = g_quota p \<and> g_window p' = g_window p \<and>
    (case a of None \<Rightarrow> gcp_inv as now p' | Some t \<Rightarrow> now \<le> t \<and> gcp_inv (as @ [t]) t p')"
proof -
  obtain l b where q: "acquire (get_limiter p) now = (l, b)" by fastforce
  have *: "capacity l = g_quota p" "window_seconds l = g_window p"
    "case b of Inl e \<Rightarrow> limiter_inv as now l | Inr t \<Rightarrow> now \<le> t \<and> limiter_inv (as @ [t]) t l"
    using acquire_inv [OF _ q, of as] assms(1) by (auto simp: gcp_inv_def split: sum.splits)
  show ?thesis
  proof (cases b)
    case (Inl e)
    with assms(2) q have "p' = p\<lparr>g_limiter := Some l\<rparr>" "a = None" by (auto simp: gcp_purge_one_def)
    with * Inl show ?thesis by (simp add: gcp_inv_def get_limiter_def)
  next
    case (Inr t)
    obtain p1 r1 where s: "gcp_send w i u (p\<lparr>g_limiter := Some l\<rparr>) = (p1, r1)" by fastforce
    with assms(2) q Inr have "p' = p1" "a = Some t" by (auto simp: gcp_purge_one_def)
    with * Inr gcp_send_limits [OF s] show ?thesis
      by (simp add: gcp_inv_def get_limiter_def same_limits_def)
  qed
qed

lemma gcp_tasks_inv:
  "gcp_inv as now p \<Longrightarrow> gcp_tasks w i us now p = (p', bs, rs) \<Longrightarrow>
     g_quota p' = g_quota p \<and> g_window p' = g_window p \<and> gcp_inv (as @ bs) (last (now # bs)) p'"
proof (induction us arbitrary: i now p as bs rs)
  case (Cons v us)
  obtain p1 a r where one: "gcp_purge_one w i v now p = (p1, a, r)" by (metis prod_cases3)
  note inv = gcp_one_inv [OF Cons.prems(1) one]
  show ?case
  proof (cases a)
    case None
    with one Cons.prems(2) obtain rs' where "gcp_tasks w (Suc i) us now p1 = (p', bs, rs')"
      by (auto split: prod.splits)
    with Cons.IH [of as now p1] inv None show ?thesis by auto
  next
    case (Some t)
    with one Cons.prems(2) obtain cs rs' where "gcp_tasks w (Suc i) us t p1 = (p', cs, rs')" "bs = t # cs"
      by (auto split: prod.splits)
    with Cons.IH [of "as @ [t]" t p1] inv Some show ?thesis by auto
  qed
qed simp

fun gcp_session :: "real \<Rightarrow> (real \<times> gcp_world \<times> string list) list \<Rightarrow> gcp \<Rightarrow> gcp \<times> real list" where
  \<comment> \<open>purges one after another, as the worker of the CDN makes them: each begins the given pause after
    the last admission of the one before; all admissions\<close>
  "gcp_session now [] p = (p, [])"
| "gcp_session now ((pause, w, us) # cs) p =
     (case gcp_tasks w 0 us (now + pause) p of
        (p1, as, rs) \<Rightarrow> (case gcp_session (last ((now + pause) # as)) cs p1 of (p2, bs) \<Rightarrow> (p2, as @ bs)))"

lemma gcp_inv_later: "gcp_inv as now p \<Longrightarrow> now \<le> later \<Longrightarrow> gcp_inv as later p"
  by (force simp: gcp_inv_def limiter_inv_def)

lemma gcp_session_inv:
  "gcp_inv as now p \<Longrightarrow> \<forall>c \<in> set cs. 0 \<le> fst c \<Longrightarrow> gcp_session now cs p = (p', bs) \<Longrightarrow>
     g_quota p' = g_quota p \<and> g_window p' = g_window p \<and> (\<exists>later. gcp_inv (as @ bs) later p')"
proof (induction cs arbitrary: now p as bs)
  case (Cons c cs)
  obtain pause w us where c: "c = (pause, w, us)" by (cases c)
  obtain p1 ds0 rs where one: "gcp_tasks w 0 us (now + pause) p = (p1, ds0, rs)" by (metis prod_cases3)
  with Cons.prems(3) c obtain ds where rest: "gcp_session (last ((now + pause) # ds0)) cs p1 = (p', ds)" "bs = ds0 @ ds"
    by (auto split: prod.splits)
  have "0 \<le> pause" using Cons.prems(2) c by simp
  then have "gcp_inv as (now + pause) p" by (intro gcp_inv_later [OF Cons.prems(1)]) simp
  from gcp_tasks_inv [OF this one] have inv: "g_quota p1 = g_quota p" "g_window p1 = g_window p"
    "gcp_inv (as @ ds0) (last ((now + pause) # ds0)) p1" by blast+
  have "\<forall>c \<in> set cs. 0 \<le> fst c" using Cons.prems(2) by simp
  from Cons.IH [OF inv(3) this rest(1)] show ?case by (simp only: inv(1,2) rest(2) append_assoc)
qed auto

text \<open>
  The quota: over any sequence of purges of one provider, however many URLs they have and whatever
  google-auth and the API answer, no window of sixty seconds holds more admissions than
  \<open>quota_per_minute\<close>.
\<close>

lemma quota_respected:
  assumes "\<forall>c \<in> set cs. 0 \<le> fst c" "gcp_session now cs (init_gcp prj um sa quota) = (p, as)"
  shows "int (in_window 60 x as) \<le> max 0 quota"
  using gcp_session_inv [OF init_gcp_inv assms]
  by (auto simp: gcp_inv_def limiter_inv_def init_gcp_def)

text \<open>A provider, credentials and answers to evaluate batches on.\<close>

definition sample_gcp :: gcp where
  "sample_gcp = init_gcp ''prj'' ''um'' ''/sa.json'' 2"

definition sample_creds :: creds where
  "sample_creds = \<lparr>creds_token = StrToken ''tok'', creds_expired = False\<rparr>"

definition sample_gcp_world :: gcp_world where
  "sample_gcp_world = \<lparr>w_start = 0, w_load = (\<lambda>i f. Inr sample_creds), w_refresh = (\<lambda>i c. Inr c),
     w_invalidate = (\<lambda>i e t b. if i = 1 then Response 503 else Response 200)\<rparr>"

lemma parse_a: "urlparse ''https://repo.x/a'' = Inr \<lparr>u_scheme = ''https'', u_netloc = ''repo.x'',
    u_path = ''/a'', u_params = [], u_query = [], u_fragment = []\<rparr>"
  using urlparse_plain [OF plain_examples(1,2,4)] by (simp add: web_url_def)

section \<open>Batches\<close>

definition with_token :: "gcp \<Rightarrow> string \<Rightarrow> bool" where
  "with_token p t \<longleftrightarrow> g_creds p = Some \<lparr>creds_token = StrToken t, creds_expired = False\<rparr> \<and> t \<noteq> []"

lemma get_token_cached: "with_token p t \<Longrightarrow> get_token w i p = (p, Inr t)"
  by (auto simp: with_token_def get_token_def fresh_creds_def)

lemma gcp_one_admitted:
  assumes "gcp_inv as now p" "1 \<le> g_quota p" "0 \<le> g_window p"
  shows "\<exists>l t. acquire (get_limiter p) now = (l, Inr t)"
proof -
  obtain l b where q: "acquire (get_limiter p) now = (l, b)" by fastforce
  with acquire_inv [OF _ q, of as] assms show ?thesis
    by (cases b) (auto simp: gcp_inv_def)
qed

lemma gcp_tasks_run:
  "gcp_inv as now p \<Longrightarrow> 1 \<le> g_quota p \<Longrightarrow> with_token p tk \<Longrightarrow>
     \<forall>j < length us. urlparse (us ! j) = Inr (q j) \<and>
       (\<exists>r. http_outcome (w_invalidate w (i + j) (g_endpoint p) tk (gcp_body_of (q j))) = Inr r) \<Longrightarrow>
     \<exists>p' bs rs. gcp_tasks w i us now p = (p', bs, map Inr rs) \<and> length bs = length us \<and> length rs = length us \<and>
       (\<forall>j < length us. http_outcome (w_invalidate w (i + j) (g_endpoint p) tk (gcp_body_of (q j))) = Inr (rs ! j))"
proof (induction us arbitrary: i now p as q)
  case (Cons u us)
  have q0: "urlparse u = Inr (q 0)" using Cons.prems(4) by auto
  obtain l b where a: "acquire (get_limiter p) now = (l, b)" by fastforce
  note inv = acquire_inv [OF _ a, of as]
  from inv Cons.prems(1,2) obtain t where b: "b = Inr t" by (cases b) (auto simp: gcp_inv_def)
  define p1 where "p1 = p\<lparr>g_limiter := Some l\<rparr>"
  obtain r where r: "http_outcome (w_invalidate w i (g_endpoint p) tk (gcp_body_of (q 0))) = Inr r"
    using Cons.prems(4) by force
  have "with_token p1 tk" using Cons.prems(3) by (simp add: with_token_def p1_def)
  then have "gcp_send w i u p1 = (p1, Inr r)"
    using q0 r by (simp add: gcp_send_def get_token_cached) (simp add: p1_def)
  then have one: "gcp_purge_one w i u now p = (p1, Some t, Inr r)"
    using a b by (simp add: gcp_purge_one_def p1_def)
  have "gcp_inv (as @ [t]) t p1" "1 \<le> g_quota p1"
    using gcp_one_inv [OF Cons.prems(1) one] Cons.prems(2) by auto
  moreover have "\<forall>j < length us. urlparse (us ! j) = Inr (q (Suc j)) \<and>
      (\<exists>r. http_outcome (w_invalidate w (Suc i + j) (g_endpoint p1) tk (gcp_body_of (q (Suc j)))) = Inr r)"
    using Cons.prems(4) by (auto simp: p1_def dest: spec [of _ "Suc _"])
  ultimately obtain p' bs rs where rest: "gcp_tasks w (Suc i) us t p1 = (p', bs, map Inr rs)"
    "length bs = length us" "length rs = length us"
    "\<forall>j < length us. http_outcome (w_invalidate w (Suc i + j) (g_endpoint p1) tk (gcp_body_of (q (Suc j)))) = Inr (rs ! j)"
    using Cons.IH [of "as @ [t]" t p1 "\<lambda>j. q (Suc j)" "Suc i"] \<open>with_token p1 tk\<close> by blast
  have "gcp_tasks w i (u # us) now p = (p', t # bs, map Inr (r # rs))"
    using one rest(1) by simp
  moreover have "\<forall>j < length (u # us).
      http_outcome (w_invalidate w (i + j) (g_endpoint p) tk (gcp_body_of (q j))) = Inr ((r # rs) ! j)"
    using r rest(4) by (auto simp: less_Suc_eq_0_disj p1_def)
  ultimately show ?case using rest(2,3) by force
qed simp

definition target_body :: "string \<times> string \<times> string \<Rightarrow> gcp_body" where
  "target_body t = (case t of (s, h, p) \<Rightarrow> \<lparr>body_path = p, body_host = lower h\<rparr>)"

lemma body_plain:
  assumes "plain_target t" "simple_host (fst (snd t))"
  shows "\<exists>q. urlparse (target_str t) = Inr q \<and> gcp_body_of q = target_body t"
proof -
  obtain s h p where t: "t = (s, h, p)" by (cases t)
  have "simple_host h" "web_scheme s" "plain_host h" "plain_path p"
    using assms by (simp_all add: t plain_target_def)
  moreover from this have "p \<noteq> []" by (simp add: plain_path_def) (cases p; simp)
  ultimately show ?thesis by (simp add: t urlparse_plain gcp_body_of_def hostname_simple target_body_def)
qed

lemma http_outcome_returns: "\<forall>x. h \<noteq> Raises x \<Longrightarrow> \<exists>r. http_outcome h = Inr r"
  by (cases h) auto

text \<open>
  C27. A GCP batch of ordinary URLs with a token sends, per URL, its path and its lower-cased host, in
  the order of the URLs, and returns the worst of the answers in the order accepted, retryable,
  terminal; the quota delays it and never makes it fail.
\<close>

theorem gcp_batch_result:
  assumes "ts \<noteq> []" "\<forall>t \<in> set ts. plain_target t \<and> simple_host (fst (snd t))"
    and "gcp_inv as (w_start w) p" "1 \<le> g_quota p" "with_token p tk"
    and "\<forall>j < length ts. \<forall>x. w_invalidate w j (g_endpoint p) tk (target_body (ts ! j)) \<noteq> Raises x"
  shows "\<exists>p' r. gcp_purge w p (map target_str ts) = (p', Inr r) \<and>
    severity r =
      Max (insert Accepted {answer_severity (w_invalidate w j (g_endpoint p) tk (target_body (ts ! j))) | j. j < length ts})"
proof -
  let ?us = "map target_str ts" and ?h = "\<lambda>j. w_invalidate w j (g_endpoint p) tk (target_body (ts ! j))"
  have "\<exists>q. urlparse (?us ! j) = Inr q \<and> gcp_body_of q = target_body (ts ! j)" if "j < length ts" for j
    using body_plain [of "ts ! j"] assms(2) that by simp
  then obtain q where q: "\<And>j. j < length ts \<Longrightarrow> urlparse (?us ! j) = Inr (q j)"
    "\<And>j. j < length ts \<Longrightarrow> gcp_body_of (q j) = target_body (ts ! j)"
    by metis
  have "\<forall>j < length ?us. urlparse (?us ! j) = Inr (q j) \<and>
      (\<exists>r. http_outcome (w_invalidate w (0 + j) (g_endpoint p) tk (gcp_body_of (q j))) = Inr r)"
    using q assms(6) by (simp add: http_outcome_returns)
  from gcp_tasks_run [OF assms(3-5) this] obtain p' bs rs where run:
    "gcp_tasks w 0 ?us (w_start w) p = (p', bs, map Inr rs)" "length rs = length ts"
    "\<forall>j < length ts. http_outcome (w_invalidate w j (g_endpoint p) tk (gcp_body_of (q j))) = Inr (rs ! j)"
    by auto
  have sev: "severity (rs ! j) = answer_severity (?h j)" if "j < length ts" for j
    using run(3) q(2) that outcome_severity [of "?h j"] by auto
  then have "severity ` set rs = {answer_severity (?h j) | j. j < length ts}"
    using run(2) by (force simp: in_set_conv_nth image_iff)
  moreover have "gcp_purge w p ?us = (p', Inr (aggregate rs))"
    using assms(1) run(1) by (simp add: gcp_purge_def map_res_Inr_list)
  ultimately show ?thesis by (auto simp: worst_severity bot_severity_def)
qed

definition ready_gcp :: gcp where
  "ready_gcp = sample_gcp\<lparr>g_creds := Some \<lparr>creds_token = StrToken ''tok'', creds_expired = False\<rparr>\<rparr>"

theorem gcp_batch_result_witness:
  "\<exists>p' r. gcp_purge sample_gcp_world ready_gcp [''https://repo.x/a'', ''https://repo.x/alma/9''] = (p', Inr r) \<and>
    severity r = Retry"
proof -
  let ?ts = "[(''https'', ''repo.x'', ''/a''), (''https'', ''repo.x'', ''/alma/9'')]"
  have t: "\<forall>t \<in> set ?ts. plain_target t \<and> simple_host (fst (snd t))"
    using plain_examples by (simp add: plain_target_def simple_host_def)
  have i: "gcp_inv [] (w_start sample_gcp_world) ready_gcp" "1 \<le> g_quota ready_gcp" "with_token ready_gcp ''tok''"
    using init_gcp_inv [of 0 "''prj''" "''um''" "''/sa.json''" 2]
    by (simp_all add: ready_gcp_def sample_gcp_def gcp_inv_def get_limiter_def sample_gcp_world_def with_token_def)
       (simp_all add: init_gcp_def)
  have "\<forall>j < length ?ts. \<forall>x. w_invalidate sample_gcp_world j (g_endpoint ready_gcp) ''tok'' (target_body (?ts ! j)) \<noteq> Raises x"
    by (simp add: sample_gcp_world_def)
  moreover have "{answer_severity (w_invalidate sample_gcp_world j (g_endpoint ready_gcp) ''tok'' (target_body (?ts ! j))) | j.
      j < length ?ts} = {Accepted, Retry}"
    by (auto simp: less_Suc_eq sample_gcp_world_def answer_severity_def is_2xx_def)
  ultimately show ?thesis
    using gcp_batch_result [OF _ t i]
    by (simp add: web_url_def max_def less_eq_severity_def)
qed

end
