(* ===== verification/Gcp_Tasks.thy ===== *)
theory Gcp_Tasks
  imports Task_Pool Gcp_Contract
begin

text \<open>
  The tasks of a GCP batch as they run at the same time: each is first admitted by the limiter, then
  waits for a permit, then reads or refreshes the token that all tasks share, and sends its request.
  \<open>gcp_side\<close> is the provider with the clock, and records when tasks were admitted and when requests
  were sent. The refresh of a token runs in a thread; its effect on the shared credentials and the
  continuation of the task are one step.
\<close>

section \<open>The tasks\<close>

definition gcp_default_concurrency :: int where
  "gcp_default_concurrency = 10"

datatype gcp_wait = Starting | SleepingUntil real

datatype gcp_pc =
    Admitted_Task
  | Refreshing creds gcp_body \<comment> \<open>\<open>await asyncio.to_thread(creds.refresh, Request())\<close>\<close>
  | Sending string gcp_body \<comment> \<open>\<open>await client.post(...)\<close>\<close>

record gcp_side = http_side +
  sh_gcp :: gcp
  sh_now :: real
  sh_admitted :: "real list"
  sh_sent :: "real list"

definition gcp_outer :: "nat \<Rightarrow> gcp_wait \<Rightarrow> gcp_side \<Rightarrow> (gcp_side \<times> gcp_wait outer_move) option" where
  \<comment> \<open>one turn of the loop of \<open>acquire\<close>, up to its \<open>sleep\<close> or its return\<close>
  "gcp_outer i pc g =
     (if (case pc of Starting \<Rightarrow> False | SleepingUntil u \<Rightarrow> sh_now g < u) then None
      else (case try_acquire (sh_now g) (get_limiter (sh_gcp g)) of
        (l, r) \<Rightarrow> let g1 = g\<lparr>sh_gcp := (sh_gcp g)\<lparr>g_limiter := Some l\<rparr>\<rparr> in Some (case r of
            Inl e \<Rightarrow> (g1, OuterRaise e)
          | Inr Admitted \<Rightarrow> (g1\<lparr>sh_admitted := sh_admitted g @ [sh_now g]\<rparr>, Ask)
          | Inr (WaitFor d) \<Rightarrow> (g1, Sleep (SleepingUntil (sh_now g + d))))))"

definition auth_error :: "string \<Rightarrow> purge_result" where
  "auth_error m = failure False (''auth: '' @ m)"

definition stale_creds :: "creds \<Rightarrow> bool" where
  "stale_creds c \<longleftrightarrow> creds_token c = NoToken \<or> creds_token c = StrToken [] \<or> creds_expired c"

definition send_with :: "creds \<Rightarrow> gcp_body \<Rightarrow> gcp_side \<Rightarrow> gcp_side \<times> gcp_pc inner_move" where
  "send_with c body g =
     (case creds_token c of
        StrToken t \<Rightarrow>
          (let g1 = http_get_client g in (g1\<lparr>sh_sent := sh_sent g1 @ [sh_now g1]\<rparr>, Await (Sending t body)))
      | _ \<Rightarrow> (g, Return (auth_error ''GCP credential refresh produced no string token'')))"

definition gcp_inner :: "gcp_world \<Rightarrow> string list \<Rightarrow> nat \<Rightarrow> gcp_pc \<Rightarrow> gcp_side \<Rightarrow> gcp_side \<times> gcp_pc inner_move" where
  "gcp_inner w us i pc g =
     (case pc of
        Admitted_Task \<Rightarrow>
          (case urlparse (us ! i) of
             Inl e \<Rightarrow> (g, InnerRaise e)
           | Inr q \<Rightarrow>
               (case (case g_creds (sh_gcp g) of None \<Rightarrow> w_load w i (g_sa_file (sh_gcp g)) | Some c \<Rightarrow> Inr c) of
                  Inl m \<Rightarrow> (g, Return (auth_error m))
                | Inr c \<Rightarrow>
                    let g1 = g\<lparr>sh_gcp := (sh_gcp g)\<lparr>g_creds := Some c\<rparr>\<rparr> in
                      if stale_creds c then (g1, Await (Refreshing c (gcp_body_of q)))
                      else send_with c (gcp_body_of q) g1))
      | Refreshing c body \<Rightarrow>
          (case w_refresh w i c of
             Inl m \<Rightarrow> (g, Return (auth_error m))
           | Inr c2 \<Rightarrow> send_with c2 body (g\<lparr>sh_gcp := (sh_gcp g)\<lparr>g_creds := Some c2\<rparr>\<rparr>))
      | Sending t body \<Rightarrow>
          (g, case http_outcome (w_invalidate w i (g_endpoint (sh_gcp g)) t body) of
                Inl e \<Rightarrow> InnerRaise e
              | Inr r \<Rightarrow> Return r))"

definition gcp_elapse :: "real \<Rightarrow> gcp_side \<Rightarrow> gcp_side" where
  "gcp_elapse d g = g\<lparr>sh_now := sh_now g + max 0 d\<rparr>"

definition gcp_code :: "gcp_world \<Rightarrow> string list \<Rightarrow> (gcp_wait, gcp_pc, gcp_side) task_code" where
  "gcp_code w us =
     \<lparr>outer0 = Starting, outer = gcp_outer, inner0 = Admitted_Task, inner = gcp_inner w us, elapse = gcp_elapse\<rparr>"

definition gcp_start :: "real \<Rightarrow> gcp \<Rightarrow> gcp_side" where
  "gcp_start now p =
     \<lparr>http_client = None, http_opened = 0, sh_gcp = p, sh_now = now, sh_admitted = [], sh_sent = []\<rparr>"

definition gcp_batch :: "gcp_world \<Rightarrow> sem \<Rightarrow> string list \<Rightarrow> gcp \<Rightarrow> (gcp_wait, gcp_pc, gcp_side) pool" where
  "gcp_batch w s us p = start_pool (gcp_code w us) s (length us) (gcp_start (w_start w) p)"

lemma gcp_code_sel [simp]:
  "outer0 (gcp_code w us) = Starting" "outer (gcp_code w us) = gcp_outer"
  "inner0 (gcp_code w us) = Admitted_Task" "inner (gcp_code w us) = gcp_inner w us"
  "elapse (gcp_code w us) = gcp_elapse"
  by (simp_all add: gcp_code_def)

section \<open>Progress\<close>

text \<open>
  A task that the limiter turned away sleeps until the oldest call leaves the window. Unless another
  task has been admitted meanwhile, it is admitted when it wakes.
\<close>

lemma dropWhile_weaker:
  assumes "\<And>x. Q x \<Longrightarrow> P x"
  shows "length (dropWhile P xs) \<le> length (dropWhile Q xs)" "length (dropWhile P (dropWhile Q xs)) \<le> length (dropWhile P xs)"
proof -
  show "length (dropWhile P xs) \<le> length (dropWhile Q xs)"
    using assms by (induction xs) (auto simp: le_Suc_eq length_dropWhile_le)
  show "length (dropWhile P (dropWhile Q xs)) \<le> length (dropWhile P xs)"
    using assms by (induction xs) auto
qed

definition turned_away :: "gcp_side \<Rightarrow> gcp_wait \<Rightarrow> bool" where
  \<comment> \<open>the limiter may turn this task away when it runs next\<close>
  "turned_away g pc = (case pc of
     Starting \<Rightarrow> True
   | SleepingUntil u \<Rightarrow> \<not> int (length (recent u (get_limiter (sh_gcp g)))) < capacity (get_limiter (sh_gcp g)))"

definition gcp_good :: "real list \<Rightarrow> gcp_side \<Rightarrow> bool" where
  \<comment> \<open>\<open>prior\<close>: the admissions of earlier batches of this provider\<close>
  "gcp_good prior g \<longleftrightarrow> gcp_inv (prior @ sh_admitted g) (sh_now g) (sh_gcp g) \<and>
     http_opened g = (if http_client g = None then 0 else 1)"

lemma recent_again:
  assumes "calls l' = recent now l" "window_seconds l' = window_seconds l" "capacity l' = capacity l"
  shows "length (recent u l') \<le> length (recent u l)"
proof (cases "now \<le> u")
  case True
  then show ?thesis
    unfolding recent_def [of u] assms(1,2) unfolding recent_def
    by (intro dropWhile_weaker(2)) simp
next
  case False
  have "recent u l' = recent now l"
  proof (cases "recent now l")
    case (Cons c cs)
    then have "\<not> c \<le> now - window_seconds l" by (metis recent_def hd_dropWhile list.distinct(1) list.sel(1))
    with False Cons show ?thesis by (simp add: recent_def [of u] assms(1,2))
  qed (simp add: recent_def [of u] assms(1))
  moreover have "length (recent now l) \<le> length (recent u l)"
    unfolding recent_def by (rule dropWhile_weaker(1)) (use False in simp)
  ultimately show ?thesis by simp
qed

lemma gcp_outer_cases:
  assumes "gcp_outer i pc g = Some (g', m)"
  obtains l r where "try_acquire (sh_now g) (get_limiter (sh_gcp g)) = (l, r)" "get_limiter (sh_gcp g') = l"
    "\<And>u. pc = SleepingUntil u \<Longrightarrow> u \<le> sh_now g"
    "case r of
       Inl e \<Rightarrow> m = OuterRaise e \<and> sh_admitted g' = sh_admitted g
     | Inr Admitted \<Rightarrow> m = Ask \<and> sh_admitted g' = sh_admitted g @ [sh_now g]
     | Inr (WaitFor d) \<Rightarrow> m = Sleep (SleepingUntil (sh_now g + d)) \<and> sh_admitted g' = sh_admitted g"
    "sh_now g' = sh_now g" "g_quota (sh_gcp g') = g_quota (sh_gcp g)" "g_window (sh_gcp g') = g_window (sh_gcp g)"
    "g_creds (sh_gcp g') = g_creds (sh_gcp g)" "g_endpoint (sh_gcp g') = g_endpoint (sh_gcp g)"
    "http_opened g' = http_opened g" "http_client g' = http_client g" "sh_sent g' = sh_sent g"
proof -
  obtain l r where t: "try_acquire (sh_now g) (get_limiter (sh_gcp g)) = (l, r)" by fastforce
  show thesis
    by (rule that [OF t])
       (use assms t in \<open>auto simp: gcp_outer_def Let_def get_limiter_def split: if_splits gcp_wait.splits sum.splits admission.splits\<close>)
qed

lemma gcp_outer_good: "gcp_good prior g \<Longrightarrow> gcp_outer i pc g = Some (g', m) \<Longrightarrow> gcp_good prior g'"
proof (erule gcp_outer_cases)
  fix l r
  assume g: "gcp_good prior g" and t: "try_acquire (sh_now g) (get_limiter (sh_gcp g)) = (l, r)"
    and l: "get_limiter (sh_gcp g') = l"
    and m: "case r of
       Inl e \<Rightarrow> m = OuterRaise e \<and> sh_admitted g' = sh_admitted g
     | Inr Admitted \<Rightarrow> m = Ask \<and> sh_admitted g' = sh_admitted g @ [sh_now g]
     | Inr (WaitFor d) \<Rightarrow> m = Sleep (SleepingUntil (sh_now g + d)) \<and> sh_admitted g' = sh_admitted g"
    and same: "sh_now g' = sh_now g" "g_quota (sh_gcp g') = g_quota (sh_gcp g)"
      "g_window (sh_gcp g') = g_window (sh_gcp g)" "http_opened g' = http_opened g" "http_client g' = http_client g"
  have "limiter_inv (if r = Inr Admitted then (prior @ sh_admitted g) @ [sh_now g] else prior @ sh_admitted g) (sh_now g) l"
    using g by (intro try_acquire_inv [OF _ order_refl t]) (simp add: gcp_good_def gcp_inv_def)
  then show "gcp_good prior g'"
    using g m same l try_acquire_sel [OF t]
    by (auto simp: gcp_good_def gcp_inv_def split: sum.splits admission.splits)
qed

lemma gcp_sleeps:
  assumes "gcp_good prior g" "gcp_outer i pc g = Some (g', Sleep pc2)"
  shows "turned_away g pc \<and> \<not> turned_away g' pc2 \<and> (\<forall>pc3. turned_away g' pc3 \<longrightarrow> turned_away g pc3)"
  using assms(2)
proof (cases rule: gcp_outer_cases)
  case (1 l r)
  let ?l = "get_limiter (sh_gcp g)" and ?now = "sh_now g"
  from 1(4) obtain d where r: "r = Inr (WaitFor d)" "pc2 = SleepingUntil (?now + d)"
    by (auto split: sum.splits admission.splits)
  note w = try_acquire_wait [OF 1(1) [unfolded r(1)] order_refl]
  have full: "\<not> int (length (recent ?now ?l)) < capacity ?l"
    using 1(1) r(1) by (auto simp: try_acquire_def Let_def split: if_splits)
  have "int (length (recent ?now ?l)) \<le> max 0 (capacity ?l)"
    by (rule recent_length [of "prior @ sh_admitted g"]) (use assms(1) in \<open>simp add: gcp_good_def gcp_inv_def\<close>)
  then have "\<not> turned_away g' pc2"
    using w(1,4) by (simp add: turned_away_def r(2) 1(2))
  moreover have "turned_away g pc"
  proof (cases pc)
    case (SleepingUntil u)
    then have "length (recent ?now ?l) \<le> length (recent u ?l)"
      unfolding recent_def using 1(3) by (intro dropWhile_weaker(1)) fastforce
    with full SleepingUntil show ?thesis by (simp add: turned_away_def)
  qed (simp add: turned_away_def)
  moreover have "turned_away g pc3" if "turned_away g' pc3" for pc3
  proof (cases pc3)
    case (SleepingUntil u)
    with that recent_again [OF w(3,5,4), of u] show ?thesis by (simp add: turned_away_def 1(2) w(4))
  qed (simp add: turned_away_def)
  ultimately show ?thesis by blast
qed

lemma send_with_same:
  "send_with c body g = (g', m) \<Longrightarrow>
     sh_gcp g' = sh_gcp g \<and> sh_now g' = sh_now g \<and> sh_admitted g' = sh_admitted g \<and>
     (http_opened g = (if http_client g = None then 0 else 1) \<longrightarrow>
      http_opened g' = (if http_client g' = None then 0 else 1))"
  by (auto simp: send_with_def http_get_client_def Let_def split: token.splits option.splits)

lemma gcp_inner_same:
  assumes "gcp_inner w us i pc g = (g', m)"
  shows "same_limits (sh_gcp g') (sh_gcp g) \<and> g_endpoint (sh_gcp g') = g_endpoint (sh_gcp g) \<and> sh_now g' = sh_now g \<and>
    sh_admitted g' = sh_admitted g \<and>
    (http_opened g = (if http_client g = None then 0 else 1) \<longrightarrow>
     http_opened g' = (if http_client g' = None then 0 else 1))"
  using assms
  by (cases pc)
     (auto simp: gcp_inner_def same_limits_def Let_def dest!: send_with_same split: sum.splits option.splits if_splits)

lemma same_limiter: "same_limits p' p \<Longrightarrow> get_limiter p' = get_limiter p"
  by (cases "g_limiter p") (simp_all add: same_limits_def get_limiter_def)

lemma gcp_inner_good: "gcp_good prior g \<Longrightarrow> gcp_inner w us i pc g = (g', m) \<Longrightarrow> gcp_good prior g'"
  using gcp_inner_same [of w us i pc g g' m] same_limiter [of "sh_gcp g'" "sh_gcp g"]
  by (auto simp: gcp_good_def gcp_inv_def same_limits_def)

lemma gcp_elapse_good: "gcp_good prior g \<Longrightarrow> gcp_good prior (gcp_elapse d g)"
  by (auto simp: gcp_good_def gcp_elapse_def intro: gcp_inv_later)

lemma gcp_wakes: "\<exists>d. gcp_outer i pc (gcp_elapse d g) \<noteq> None"
proof (cases pc)
  case (SleepingUntil u)
  then show ?thesis
    by (intro exI [of _ "u - sh_now g"]) (simp add: gcp_outer_def gcp_elapse_def Let_def split: prod.splits)
qed (simp add: gcp_outer_def Let_def split: prod.splits)

definition gcp_rank :: "gcp_pc \<Rightarrow> nat" where
  "gcp_rank pc = (case pc of Admitted_Task \<Rightarrow> 2 | Refreshing _ _ \<Rightarrow> 1 | Sending _ _ \<Rightarrow> 0)"

lemma send_with_await: "send_with c body g = (g', Await pc) \<Longrightarrow> \<exists>t. pc = Sending t body \<and> creds_token c = StrToken t"
  by (auto simp: send_with_def Let_def split: token.splits)

interpretation gcp_ending: ending_tasks "gcp_code w us" "gcp_good prior" turned_away gcp_rank 2
  for w us prior
proof unfold_locales
  fix g g' i h h2
  assume "inner (gcp_code w us) i h g = (g', Await h2)"
  then show "gcp_rank h2 < gcp_rank h"
    by (cases h) (auto simp: gcp_inner_def gcp_rank_def Let_def dest: send_with_await split: sum.splits option.splits if_splits)
next
  fix g g' i h m pc
  assume "inner (gcp_code w us) i h g = (g', m)"
  then show "turned_away g' pc = turned_away g pc"
    using gcp_inner_same [of w us i h g g' m] same_limiter [of "sh_gcp g'" "sh_gcp g"]
    by (cases pc) (simp_all add: turned_away_def)
next
  show "turned_away (elapse (gcp_code w us) d g) pc = turned_away g pc" for d g pc
    by (cases pc) (simp_all add: turned_away_def gcp_elapse_def)
qed (use gcp_wakes in \<open>auto simp: gcp_elapse_good gcp_rank_def intro: gcp_outer_good gcp_inner_good dest: gcp_sleeps\<close>)

section \<open>What every interleaving gives\<close>

lemma gcp_batch_run:
  assumes "init_sem c = Inr s" "gcp_inv prior (w_start w) q"
    and "pool_run (gcp_code w us) as (gcp_batch w s us q) = Some p"
  shows "pool_inv (nat c) p" "gcp_good prior (shared p)"
    "length (filter is_run as) \<le> length us * 5 * Suc (length us) + length us"
proof -
  have g: "gcp_good prior (gcp_start (w_start w) q)" using assms(2) by (simp add: gcp_good_def gcp_start_def)
  then have s: "gcp_good prior (shared (gcp_batch w s us q))" by (simp add: gcp_batch_def start_pool_def)
  show "pool_inv (nat c) p"
    using pool_run_inv [OF start_pool_inv [OF assms(1)] assms(3) [unfolded gcp_batch_def]] by simp
  show "gcp_good prior (shared p)" using gcp_ending.run_budget [OF s assms(3)] by simp
  show "length (filter is_run as) \<le> length us * 5 * Suc (length us) + length us"
    using gcp_ending.bounded_run [OF g assms(3) [unfolded gcp_batch_def]] by simp
qed

lemma gcp_limits_fixed:
  "pool_run (gcp_code w us) as p = Some p' \<Longrightarrow>
     g_quota (sh_gcp (shared p')) = g_quota (sh_gcp (shared p)) \<and>
     g_window (sh_gcp (shared p')) = g_window (sh_gcp (shared p))"
proof (induction as arbitrary: p)
  case (Cons a as)
  from Cons.prems obtain p1 where p1: "pool_step (gcp_code w us) a p = Some p1" "pool_run (gcp_code w us) as p1 = Some p'"
    by (auto simp: bind_eq_Some_conv)
  have "g_quota (sh_gcp (shared p1)) = g_quota (sh_gcp (shared p)) \<and>
      g_window (sh_gcp (shared p1)) = g_window (sh_gcp (shared p))"
  proof (cases a)
    case (Run i)
    with p1(1) have a: "advance (gcp_code w us) i p = Some p1" by (simp add: pool_step_def)
    let ?same = "\<lambda>x. g_quota (sh_gcp (shared x)) = g_quota (sh_gcp (shared p)) \<and>
      g_window (sh_gcp (shared x)) = g_window (sh_gcp (shared p))"
    have "?same y" if "?same x" "stretch (gcp_code w us) i x = Some y" for x y
      using that(2)
      by (cases rule: stretch_cases)
         (use that(1) in \<open>auto simp: ask_def leave_def pool_sel same_limits_def split: prod.splits
           dest!: gcp_inner_same elim: gcp_outer_cases\<close>)
    from advance_keeps [OF a, of ?same, OF _ this] show ?thesis by simp
  next
    case (Elapse d)
    with p1(1) show ?thesis by (auto simp: pool_step_def gcp_elapse_def)
  qed
  with Cons.IH [OF p1(2)] show ?case by simp
qed simp

text \<open>
  When the key file and the token endpoint work, what a task returns does not depend on when it runs,
  nor on which task reads the key or refreshes the token.
\<close>

definition tokens_work :: "gcp_world \<Rightarrow> string \<Rightarrow> bool" where
  "tokens_work w tk \<longleftrightarrow>
     (\<forall>i f. \<exists>c. w_load w i f = Inr c \<and> (stale_creds c \<or> creds_token c = StrToken tk)) \<and>
     (\<forall>i c. \<exists>c2. w_refresh w i c = Inr c2 \<and> creds_token c2 = StrToken tk)"

definition creds_ready :: "string \<Rightarrow> gcp \<Rightarrow> bool" where
  "creds_ready tk p \<longleftrightarrow> (case g_creds p of None \<Rightarrow> True | Some c \<Rightarrow> stale_creds c \<or> creds_token c = StrToken tk)"

definition gcp_result :: "gcp_world \<Rightarrow> string \<Rightarrow> string \<Rightarrow> nat \<Rightarrow> string \<Rightarrow> purge_result res" where
  "gcp_result w ep tk i u =
     bind_res (urlparse u) (\<lambda>q. http_outcome (w_invalidate w i ep tk (gcp_body_of q)))"

definition gcp_ready :: "gcp_world \<Rightarrow> real list \<Rightarrow> string \<Rightarrow> string \<Rightarrow> gcp_side \<Rightarrow> bool" where
  "gcp_ready w prior ep tk g \<longleftrightarrow> tokens_work w tk \<and> gcp_good prior g \<and> creds_ready tk (sh_gcp g) \<and> g_endpoint (sh_gcp g) = ep \<and>
     1 \<le> g_quota (sh_gcp g)"

definition gcp_at :: "string list \<Rightarrow> string \<Rightarrow> nat \<Rightarrow> gcp_pc \<Rightarrow> bool" where
  "gcp_at us tk i pc = (case pc of
     Admitted_Task \<Rightarrow> True
   | Refreshing c body \<Rightarrow> \<exists>q. urlparse (us ! i) = Inr q \<and> body = gcp_body_of q
   | Sending t body \<Rightarrow> t = tk \<and> (\<exists>q. urlparse (us ! i) = Inr q \<and> body = gcp_body_of q))"

lemma send_with_token:
  "send_with c body g = (g', m) \<Longrightarrow> creds_token c = StrToken tk \<Longrightarrow>
     m = Await (Sending tk body) \<and> sh_gcp g' = sh_gcp g"
  by (auto simp: send_with_def http_get_client_def Let_def split: option.splits)

lemma read_creds:
  assumes "tokens_work w tk" "creds_ready tk p"
  obtains c where "(case g_creds p of None \<Rightarrow> w_load w i (g_sa_file p) | Some c \<Rightarrow> Inr c) = Inr c"
    "stale_creds c \<or> creds_token c = StrToken tk"
proof (cases "g_creds p")
  case None
  obtain c where "w_load w i (g_sa_file p) = Inr c" "stale_creds c \<or> creds_token c = StrToken tk"
    using assms(1) unfolding tokens_work_def by metis
  with None that show thesis by simp
qed (use assms(2) that in \<open>simp add: creds_ready_def\<close>)

lemma refreshed_creds:
  assumes "tokens_work w tk"
  obtains c2 where "w_refresh w i c = Inr c2" "creds_token c2 = StrToken tk"
  using assms unfolding tokens_work_def by metis

lemma admitted_step:
  assumes "tokens_work w tk" "creds_ready tk (sh_gcp g)" "urlparse (us ! i) = Inr q"
  obtains (refresh) c where "gcp_inner w us i Admitted_Task g =
      (g\<lparr>sh_gcp := (sh_gcp g)\<lparr>g_creds := Some c\<rparr>\<rparr>, Await (Refreshing c (gcp_body_of q)))" "stale_creds c"
  | (send) c where "gcp_inner w us i Admitted_Task g =
      send_with c (gcp_body_of q) (g\<lparr>sh_gcp := (sh_gcp g)\<lparr>g_creds := Some c\<rparr>\<rparr>)" "creds_token c = StrToken tk"
proof -
  obtain c where c: "(case g_creds (sh_gcp g) of None \<Rightarrow> w_load w i (g_sa_file (sh_gcp g)) | Some c \<Rightarrow> Inr c) = Inr c"
    "stale_creds c \<or> creds_token c = StrToken tk"
    by (rule read_creds [OF assms(1,2)])
  show thesis
  proof (cases "stale_creds c")
    case True
    with c(1) assms(3) show thesis by (intro refresh) (simp_all add: gcp_inner_def)
  next
    case False
    with c assms(3) show thesis by (intro send) (simp_all add: gcp_inner_def)
  qed
qed

lemma refreshing_step:
  assumes "tokens_work w tk"
  obtains c2 where "gcp_inner w us i (Refreshing c body) g =
      send_with c2 body (g\<lparr>sh_gcp := (sh_gcp g)\<lparr>g_creds := Some c2\<rparr>\<rparr>)" "creds_token c2 = StrToken tk"
proof -
  obtain c2 where "w_refresh w i c = Inr c2" "creds_token c2 = StrToken tk" by (rule refreshed_creds [OF assms])
  then show thesis by (intro that) (simp_all add: gcp_inner_def)
qed

lemma inner_creds:
  assumes "tokens_work w tk" "creds_ready tk (sh_gcp g)" "gcp_inner w us i pc g = (g', m)"
  shows "creds_ready tk (sh_gcp g')"
proof (cases pc)
  case Admitted_Task
  show ?thesis
  proof (cases "urlparse (us ! i)")
    case (Inr q)
    from assms(1,2) Inr show ?thesis
    proof (cases rule: admitted_step)
      case (refresh c)
      with assms(3) Admitted_Task show ?thesis by (auto simp: creds_ready_def)
    next
      case (send c)
      with assms(3) Admitted_Task have "send_with c (gcp_body_of q) (g\<lparr>sh_gcp := (sh_gcp g)\<lparr>g_creds := Some c\<rparr>\<rparr>) = (g', m)"
        by simp
      from send_with_token [OF this send(2)] send(2) show ?thesis by (simp add: creds_ready_def)
    qed
  qed (use assms(2,3) Admitted_Task in \<open>simp add: gcp_inner_def\<close>)
next
  case (Refreshing c body)
  from assms(1) show ?thesis
    by (rule refreshing_step [where c = c and body = body and us = us and i = i and g = g])
       (use assms(3) Refreshing in \<open>auto simp: creds_ready_def dest!: send_with_token\<close>)
qed (use assms(2,3) in \<open>simp add: gcp_inner_def\<close>)

lemma inner_result:
  assumes "tokens_work w tk" "creds_ready tk (sh_gcp g)" "gcp_at us tk i pc" "gcp_inner w us i pc g = (g', m)"
  shows "case m of
      Await pc2 \<Rightarrow> gcp_at us tk i pc2
    | Return r \<Rightarrow> gcp_result w (g_endpoint (sh_gcp g)) tk i (us ! i) = Inr r
    | InnerRaise e \<Rightarrow> gcp_result w (g_endpoint (sh_gcp g)) tk i (us ! i) = Inl e"
proof (cases pc)
  case Admitted_Task
  show ?thesis
  proof (cases "urlparse (us ! i)")
    case (Inr q)
    from assms(1,2) Inr show ?thesis
    proof (cases rule: admitted_step)
      case (refresh c)
      with assms(4) Admitted_Task Inr show ?thesis by (auto simp: gcp_at_def)
    next
      case (send c)
      with assms(4) Admitted_Task have "send_with c (gcp_body_of q) (g\<lparr>sh_gcp := (sh_gcp g)\<lparr>g_creds := Some c\<rparr>\<rparr>) = (g', m)"
        by simp
      from send_with_token [OF this send(2)] Inr show ?thesis by (simp add: gcp_at_def)
    qed
  qed (use assms(4) Admitted_Task in \<open>auto simp: gcp_inner_def gcp_result_def\<close>)
next
  case (Refreshing c body)
  from assms(1) show ?thesis
    by (rule refreshing_step [where c = c and body = body and us = us and i = i and g = g])
       (use assms(3,4) Refreshing in \<open>auto simp: gcp_at_def dest!: send_with_token\<close>)
qed (use assms(3,4) in \<open>auto simp: gcp_inner_def gcp_at_def gcp_result_def split: sum.splits\<close>)

section \<open>One after another\<close>

lemma gcp_send_ready:
  assumes "tokens_work w tk" "creds_ready tk p"
  shows "\<exists>p'. gcp_send w i u p = (p', gcp_result w (g_endpoint p) tk i u) \<and> creds_ready tk p'"
proof (cases "urlparse u")
  case (Inl e)
  with assms(2) show ?thesis by (simp add: gcp_send_def gcp_result_def)
next
  case (Inr q)
  obtain c where c: "(case g_creds p of None \<Rightarrow> w_load w i (g_sa_file p) | Some c \<Rightarrow> Inr c) = Inr c"
    "stale_creds c \<or> creds_token c = StrToken tk"
    by (rule read_creds [OF assms])
  obtain c2 where c2: "w_refresh w i c = Inr c2" "creds_token c2 = StrToken tk" by (rule refreshed_creds [OF assms(1)])
  have "\<exists>p'. get_token w i p = (p', Inr tk) \<and> creds_ready tk p' \<and> g_endpoint p' = g_endpoint p"
    using c c2 by (auto simp: get_token_def fresh_creds_def stale_creds_def creds_ready_def)
  with Inr show ?thesis by (auto simp: gcp_send_def gcp_result_def)
qed

lemma gcp_tasks_results:
  "gcp_inv as now p \<Longrightarrow> 1 \<le> g_quota p \<Longrightarrow> tokens_work w tk \<Longrightarrow> creds_ready tk p \<Longrightarrow>
     \<exists>p' bs. gcp_tasks w i us now p =
       (p', bs, map (\<lambda>j. gcp_result w (g_endpoint p) tk (i + j) (us ! j)) [0..<length us])"
proof (induction us arbitrary: i now p as)
  case (Cons u us)
  obtain l b where a: "acquire (get_limiter p) now = (l, b)" by fastforce
  from acquire_inv [OF _ a, of as] Cons.prems(1,2) obtain t where b: "b = Inr t" by (cases b) (auto simp: gcp_inv_def)
  have "creds_ready tk (p\<lparr>g_limiter := Some l\<rparr>)" using Cons.prems(4) by (simp add: creds_ready_def)
  from gcp_send_ready [OF Cons.prems(3) this] obtain p1 where
    s: "gcp_send w i u (p\<lparr>g_limiter := Some l\<rparr>) = (p1, gcp_result w (g_endpoint p) tk i u)" "creds_ready tk p1"
    by auto
  have one: "gcp_purge_one w i u now p = (p1, Some t, gcp_result w (g_endpoint p) tk i u)"
    using a b s(1) by (simp add: gcp_purge_one_def)
  have "gcp_inv (as @ [t]) t p1" "1 \<le> g_quota p1" "g_endpoint p1 = g_endpoint p"
    using gcp_one_inv [OF Cons.prems(1) one] gcp_one_endpoint [OF one] Cons.prems(2) by auto
  from Cons.IH [OF this(1,2) Cons.prems(3) s(2), of "Suc i"] this(3) one show ?case
    by (auto simp: upt_conv_Cons map_Suc_upt [symmetric] comp_def simp del: upt_Suc)
qed simp

lemma gcp_outer_ready:
  assumes "gcp_ready w prior ep tk g" "gcp_outer i pc g = Some (g', m)"
  shows "gcp_ready w prior ep tk g' \<and> (\<forall>e. m \<noteq> OuterRaise e)"
  using assms(2)
proof (cases rule: gcp_outer_cases)
  case (1 l r)
  let ?l = "get_limiter (sh_gcp g)"
  have "int (length (recent (sh_now g) ?l)) \<le> max 0 (capacity ?l)" "1 \<le> capacity ?l"
    using assms(1) recent_length [of "prior @ sh_admitted g" "sh_now g" ?l]
    by (simp_all add: gcp_ready_def gcp_good_def gcp_inv_def)
  then have "\<forall>e. r \<noteq> Inl e"
    using 1(1) by (auto simp: try_acquire_def Let_def split: if_splits list.splits)
  with 1(4) have "\<forall>e. m \<noteq> OuterRaise e" by (auto split: sum.splits admission.splits)
  then show ?thesis
    using assms(1) gcp_outer_good [OF _ assms(2)] 1 by (simp add: gcp_ready_def creds_ready_def)
qed

lemma gcp_inner_ready:
  "gcp_ready w prior ep tk g \<Longrightarrow> gcp_inner w us i pc g = (g', m) \<Longrightarrow> gcp_ready w prior ep tk g'"
  using gcp_inner_same [of w us i pc g g' m] gcp_inner_good [of prior g w us i pc g' m] inner_creds [of w tk g us i pc g' m]
  by (simp add: gcp_ready_def same_limits_def)

interpretation gcp_tasks: determined_tasks "gcp_code w us" "gcp_ready w prior ep tk" turned_away gcp_rank 2
    "\<lambda>i. gcp_result w ep tk i (us ! i)" "gcp_at us tk"
  for w us prior ep tk
proof unfold_locales
  fix g g' i pc pc2
  assume g: "gcp_ready w prior ep tk g" and at: "gcp_at us tk i pc"
    and "inner (gcp_code w us) i pc g = (g', Await pc2)"
  then have "gcp_inner w us i pc g = (g', Await pc2)" by simp
  from inner_result [OF _ _ at this] g show "gcp_at us tk i pc2" by (simp add: gcp_ready_def)
next
  fix g g' i pc r
  assume g: "gcp_ready w prior ep tk g" and at: "gcp_at us tk i pc"
    and "inner (gcp_code w us) i pc g = (g', Return r)"
  then have "gcp_inner w us i pc g = (g', Return r)" by simp
  from inner_result [OF _ _ at this] g show "gcp_result w ep tk i (us ! i) = Inr r" by (auto simp: gcp_ready_def)
next
  fix g g' i pc e
  assume g: "gcp_ready w prior ep tk g" and at: "gcp_at us tk i pc"
    and "inner (gcp_code w us) i pc g = (g', InnerRaise e)"
  then have "gcp_inner w us i pc g = (g', InnerRaise e)" by simp
  from inner_result [OF _ _ at this] g show "gcp_result w ep tk i (us ! i) = Inl e" by (auto simp: gcp_ready_def)
next
  fix g d
  assume "gcp_ready w prior ep tk g"
  then show "gcp_ready w prior ep tk (elapse (gcp_code w us) d g)"
    using gcp_elapse_good [of prior g d] by (simp add: gcp_ready_def) (simp add: gcp_elapse_def)
next
  fix g g' i pc pc2
  assume "gcp_ready w prior ep tk g" "outer (gcp_code w us) i pc g = Some (g', Sleep pc2)"
  then show "turned_away g pc \<and> \<not> turned_away g' pc2 \<and> (\<forall>pc3. turned_away g' pc3 \<longrightarrow> turned_away g pc3)"
    using gcp_sleeps by (auto simp: gcp_ready_def)
next
  show "\<exists>d. outer (gcp_code w us) i pc (elapse (gcp_code w us) d g) \<noteq> None" for g i pc
    using gcp_wakes by simp
next
  show "turned_away (elapse (gcp_code w us) d g) pc = turned_away g pc" for g d pc
    by (rule gcp_ending.elapse_sleep)
next
  fix g g' i pc pc2
  assume "inner (gcp_code w us) i pc g = (g', Await pc2)"
  then show "gcp_rank pc2 < gcp_rank pc" by (rule gcp_ending.await_rank)
next
  fix g g' i pc pc2 m
  assume "inner (gcp_code w us) i pc g = (g', m)"
  then show "turned_away g' pc2 = turned_away g pc2" by (rule gcp_ending.await_sleep)
next
  fix g g' i pc m
  assume g: "gcp_ready w prior ep tk g"
  show "gcp_ready w prior ep tk g'" if "outer (gcp_code w us) i pc g = Some (g', m)"
    using gcp_outer_ready [OF g] that by simp
next
  fix g g' i pc m
  assume g: "gcp_ready w prior ep tk g"
  show "gcp_ready w prior ep tk g'" if "inner (gcp_code w us) i pc g = (g', m)"
    using gcp_inner_ready [OF g] that by simp
next
  fix g g' i pc e
  assume "gcp_ready w prior ep tk g" "outer (gcp_code w us) i pc g = Some (g', OuterRaise e)"
  then show "gcp_result w ep tk i (us ! i) = Inl e" using gcp_outer_ready by fastforce
qed (simp_all add: gcp_at_def gcp_rank_def)

text \<open>
  C23. However the tasks of a GCP batch are interleaved, whichever of them reads the key file, finds the
  token expired or refreshes it, and however long they wait for the limiter, a permit or an answer,
  \<open>purge\<close> returns what the tasks would give one after another, and raises exactly when one of them
  would.
\<close>

theorem gcp_any_interleaving:
  assumes "init_sem c = Inr s" "gcp_inv prior (w_start w) q" "1 \<le> g_quota q"
    and "tokens_work w tk" "creds_ready tk q" "us \<noteq> []"
    and "pool_run (gcp_code w us) as (gcp_batch w s us q) = Some p" "gathered p = Some r"
  shows "case r of
      Inr rs \<Rightarrow> \<exists>q'. gcp_purge w q us = (q', Inr (aggregate rs))
    | Inl e \<Rightarrow> \<exists>q' e'. gcp_purge w q us = (q', Inl e')"
proof -
  let ?f = "\<lambda>i. gcp_result w (g_endpoint q) tk i (us ! i)"
  have "gcp_ready w prior (g_endpoint q) tk (gcp_start (w_start w) q)"
    using assms(2-5) by (simp add: gcp_ready_def gcp_good_def gcp_start_def)
  note pool = gcp_tasks.gathered_results [OF this assms(1) assms(7) [unfolded gcp_batch_def] assms(8)]
  obtain q' bs where "gcp_tasks w 0 us (w_start w) q = (q', bs, map ?f [0..<length us])"
    using gcp_tasks_results [OF assms(2-5), where us = us and i = 0] by auto
  moreover have "map_res id (map ?f [0..<length us]) = map_res ?f [0..<length us]"
    by (simp add: map_res_of_map)
  ultimately show ?thesis
    using pool assms(6) by (auto simp: gcp_purge_def split: sum.splits)
qed

definition gcp_swapped :: "pool_action list" where
  \<comment> \<open>the second task is admitted first, and refreshes the token while the first waits for the permit\<close>
  "gcp_swapped = [Run 1, Run 0, Elapse 3, Run 1, Run 1, Run 0, Run 0]"

definition stale_world :: gcp_world where
  \<comment> \<open>the key file gives credentials without a token\<close>
  "stale_world = \<lparr>w_start = 0, w_load = (\<lambda>i f. Inr \<lparr>creds_token = NoToken, creds_expired = False\<rparr>),
     w_refresh = (\<lambda>i c. Inr sample_creds), w_invalidate = (\<lambda>i e t b. if i = 1 then Response 503 else Response 200)\<rparr>"

definition a_pair :: "string list" where
  "a_pair = [''https://repo.x/a'', ''https://repo.x/a'']"

lemma sample_inv: "gcp_inv [] now sample_gcp"
  unfolding sample_gcp_def by (rule init_gcp_inv)

lemma stale_tokens: "tokens_work stale_world ''tok''"
  by (simp add: tokens_work_def stale_world_def sample_creds_def stale_creds_def)

lemma sample_ready: "creds_ready ''tok'' sample_gcp"
  by (simp add: creds_ready_def sample_gcp_def init_gcp_def)

lemma gcp_swapped_result:
  "\<exists>p. pool_run (gcp_code stale_world a_pair) gcp_swapped (gcp_batch stale_world \<lparr>sem_value = 1, sem_waiters = []\<rparr> a_pair sample_gcp) = Some p \<and>
     gathered p = Some (Inr [success ''ok'', failure True (''HTTP '' @ show_int 503)])"
  by (simp add: gcp_swapped_def gcp_batch_def gcp_start_def start_pool_def a_pair_def pool_step_def advance_def stretch_def in_section_def
      gcp_outer_def gcp_inner_def pool_moves sem_acquire_def sem_locked_def sem_release_def sem_resume_def
      wake_next_def Let_def numeral_2_eq_2 stale_world_def try_acquire_def recent_def get_limiter_def
      sample_gcp_def init_gcp_def init_limiter_def parse_a stale_creds_def send_with_def sample_creds_def
      http_get_client_def classify_def is_2xx_def retryable_status_def gcp_elapse_def gathered_def all_finished_def)

lemma one_permit_init: "init_sem 1 = Inr \<lparr>sem_value = 1, sem_waiters = []\<rparr>"
  by (simp add: init_sem_def)

theorem gcp_any_interleaving_witness:
  "\<exists>q. gcp_purge stale_world sample_gcp a_pair =
     (q, Inr (aggregate [success ''ok'', failure True (''HTTP '' @ show_int 503)]))"
proof -
  obtain p where p: "pool_run (gcp_code stale_world a_pair) gcp_swapped
      (gcp_batch stale_world \<lparr>sem_value = 1, sem_waiters = []\<rparr> a_pair sample_gcp) = Some p"
    "gathered p = Some (Inr [success ''ok'', failure True (''HTTP '' @ show_int 503)])"
    using gcp_swapped_result by blast
  have "1 \<le> g_quota sample_gcp" "a_pair \<noteq> []" by (simp_all add: sample_gcp_def init_gcp_def a_pair_def)
  from gcp_any_interleaving [OF one_permit_init sample_inv this(1) stale_tokens sample_ready this(2) p]
  show ?thesis by simp
qed

text \<open>
  C24. In every state that the tasks of a GCP batch can reach, at most \<open>concurrency\<close> of them are under the
  semaphore, one HTTP client has been opened, and no window of the limiter's length holds more
  admissions than \<open>quota_per_minute\<close>, those of earlier batches included.
\<close>

theorem gcp_limits_respected:
  assumes "init_sem c = Inr s" "gcp_inv prior (w_start w) q"
    and "pool_run (gcp_code w us) as (gcp_batch w s us q) = Some p"
  shows "int (holders p) \<le> c \<and> http_opened (shared p) \<le> 1 \<and>
    int (in_window (g_window q) x (prior @ sh_admitted (shared p))) \<le> max 0 (g_quota q)"
proof -
  have "g_quota (sh_gcp (shared p)) = g_quota q" "g_window (sh_gcp (shared p)) = g_window q"
    using gcp_limits_fixed [OF assms(3)] by (simp_all add: gcp_batch_def start_pool_def gcp_start_def)
  moreover
  have "0 \<le> c" using init_sem_ok [OF assms(1)] by simp
  moreover have "holders p \<le> nat c" by (rule holders_bounded [OF gcp_batch_run(1) [OF assms]])
  moreover have "gcp_good prior (shared p)" by (rule gcp_batch_run(2) [OF assms])
  ultimately show ?thesis by (auto simp: gcp_good_def gcp_inv_def limiter_inv_def)
qed

theorem gcp_limits_respected_witness:
  "\<exists>p. pool_run (gcp_code stale_world a_pair) gcp_swapped (gcp_batch stale_world \<lparr>sem_value = 1, sem_waiters = []\<rparr> a_pair sample_gcp) = Some p \<and>
     holders p \<le> 1 \<and> http_opened (shared p) \<le> 1"
  using gcp_limits_respected [OF one_permit_init sample_inv] gcp_swapped_result by fastforce

text \<open>
  C34. A GCP batch ends: with at least one permit every state it can reach can be continued until all
  tasks have finished, however they contend for the limiter, the permits and the token; and no
  interleaving makes more steps than the bound, turns in which the limiter sends a task back to sleep
  included.
\<close>

theorem gcp_batch_ends:
  assumes "init_sem c = Inr s" "1 \<le> c" "gcp_inv prior (w_start w) q"
    and "pool_run (gcp_code w us) as (gcp_batch w s us q) = Some p"
  shows "length (filter is_run as) \<le> length us * 5 * Suc (length us) + length us \<and>
    (\<exists>bs p' r. pool_run (gcp_code w us) bs p = Some p' \<and> all_finished p' \<and> gathered p' = Some r)"
proof -
  note run = gcp_batch_run [OF assms(1,3,4)]
  have "1 \<le> nat c" using assms(2) by simp
  from gcp_ending.can_finish [OF run(2) run(1) this] obtain bs p' where
    "pool_run (gcp_code w us) bs p = Some p'" "all_finished p'" by blast
  moreover from this have "\<exists>r. gathered p' = Some r" by (auto simp: gathered_def split: option.splits)
  ultimately show ?thesis using run(3) by blast
qed

theorem gcp_batch_ends_witness:
  "\<exists>bs p' r. pool_run (gcp_code stale_world a_pair) bs (gcp_batch stale_world \<lparr>sem_value = 1, sem_waiters = []\<rparr> a_pair sample_gcp) = Some p' \<and>
     gathered p' = Some r"
  using gcp_batch_ends [OF one_permit_init _ sample_inv, of stale_world a_pair "[]"] by auto

end
