(* ===== verification/Gcp_Burst.thy ===== *)
theory Gcp_Burst
  imports Gcp_Tasks
begin

text \<open>
  The limiter counts admissions, not requests: a task that has been admitted may still wait for a permit
  or for the token. The runs of this theory let the admissions of two windows pile up behind the first
  refresh of the token, before the first request is sent. Time passes in them only when nothing is left
  to run.
\<close>

section \<open>Requests that are still to be sent\<close>

definition unsent :: "(gcp_wait, gcp_pc) phase \<Rightarrow> bool" where
  "unsent x \<longleftrightarrow> (case x of Inside (Sending t b) \<Rightarrow> False | Finished r \<Rightarrow> False | _ \<Rightarrow> True)"

definition admitted_phase :: "(gcp_wait, gcp_pc) phase \<Rightarrow> bool" where
  "admitted_phase x \<longleftrightarrow> (case x of Outside _ \<Rightarrow> False | _ \<Rightarrow> True)"

definition count_unsent :: "(gcp_wait, gcp_pc, gcp_side) pool \<Rightarrow> nat" where
  "count_unsent p = length (filter unsent (phases p))"

lemma unsent_simps [simp]:
  "unsent (Outside x)" "unsent Queued" "unsent (Inside Admitted_Task)" "unsent (Inside (Refreshing c b))"
  "\<not> unsent (Inside (Sending t b))" "\<not> unsent (Finished r)"
  by (simp_all add: unsent_def)

lemma admitted_simps [simp]:
  "\<not> admitted_phase (Outside x)" "admitted_phase Queued" "admitted_phase (Inside h)" "admitted_phase (Finished r)"
  by (simp_all add: admitted_phase_def)

lemma send_with_sent:
  "send_with c body g = (g', m) \<Longrightarrow> creds_token c = StrToken tk \<Longrightarrow>
     m = Await (Sending tk body) \<and> sh_sent g' = sh_sent g @ [sh_now g]"
  by (auto simp: send_with_def http_get_client_def Let_def split: option.splits)

lemma inner_sends:
  assumes "tokens_work w tk" "creds_ready tk (sh_gcp g)" "urlparse (us ! i) = Inr q" "gcp_inner w us i pc g = (g', m)"
  shows "case m of
      Await pc2 \<Rightarrow> unsent (Inside pc) \<and>
        sh_sent g' = (if unsent (Inside pc2) then sh_sent g else sh_sent g @ [sh_now g])
    | _ \<Rightarrow> \<not> unsent (Inside pc) \<and> sh_sent g' = sh_sent g"
proof (cases pc)
  case Admitted_Task
  from assms(1-3) show ?thesis
  proof (cases rule: admitted_step)
    case (refresh c)
    with assms(4) Admitted_Task show ?thesis by auto
  next
    case (send c)
    with assms(4) Admitted_Task have "send_with c (gcp_body_of q) (g\<lparr>sh_gcp := (sh_gcp g)\<lparr>g_creds := Some c\<rparr>\<rparr>) = (g', m)"
      by simp
    from send_with_sent [OF this send(2)] Admitted_Task show ?thesis by simp
  qed
next
  case (Refreshing c body)
  from assms(1) show ?thesis
    by (rule refreshing_step [where c = c and body = body and us = us and i = i and g = g])
       (use assms(4) Refreshing in \<open>auto dest!: send_with_sent\<close>)
qed (use assms(4) in \<open>auto simp: gcp_inner_def split: sum.splits\<close>)

section \<open>Admissions\<close>

definition keys_are_stale :: "gcp_world \<Rightarrow> bool" where
  \<comment> \<open>credentials from a key file have no token yet, as google-auth has it\<close>
  "keys_are_stale w \<longleftrightarrow> (\<forall>i f c. w_load w i f = Inr c \<longrightarrow> stale_creds c)"

definition unrefreshed :: "gcp \<Rightarrow> bool" where
  "unrefreshed p \<longleftrightarrow> (case g_creds p of None \<Rightarrow> True | Some c \<Rightarrow> stale_creds c)"

definition queueing :: "real \<Rightarrow> int \<Rightarrow> nat \<Rightarrow> (gcp_wait, gcp_pc, gcp_side) pool \<Rightarrow> bool" where
  \<comment> \<open>\<open>k\<close> tasks have been admitted at this time, none has sent anything\<close>
  "queueing now quota k p \<longleftrightarrow>
     (let l = get_limiter (sh_gcp (shared p)) in
        recent now l = replicate k now \<and> capacity l = quota \<and> window_seconds l = 60) \<and>
     sh_now (shared p) = now \<and> sh_sent (shared p) = [] \<and> unrefreshed (sh_gcp (shared p)) \<and>
     (\<forall>j. (j, True) \<notin> set (sem_waiters (gate p)))"

definition in_line :: "(gcp_wait, gcp_pc) phase \<Rightarrow> bool" where
  \<comment> \<open>waiting for a permit or for the token\<close>
  "in_line x \<longleftrightarrow> x = Queued \<or> (\<exists>c body. x = Inside (Refreshing c body))"

lemma in_line_unsent: "in_line x \<Longrightarrow> admitted_phase x \<and> unsent x"
  by (auto simp: in_line_def)

lemma first_refresh:
  assumes "keys_are_stale w" "tokens_work w tk" "unrefreshed (sh_gcp g)" "urlparse (us ! i) = Inr q"
  obtains c where "gcp_inner w us i Admitted_Task g =
      (g\<lparr>sh_gcp := (sh_gcp g)\<lparr>g_creds := Some c\<rparr>\<rparr>, Await (Refreshing c (gcp_body_of q)))" "stale_creds c"
proof (cases "g_creds (sh_gcp g)")
  case None
  obtain c where c: "w_load w i (g_sa_file (sh_gcp g)) = Inr c" using assms(2) unfolding tokens_work_def by blast
  with assms(1) have "stale_creds c" by (auto simp: keys_are_stale_def)
  with c None assms(4) show thesis by (intro that) (simp_all add: gcp_inner_def)
next
  case (Some c)
  with assms(3,4) show thesis by (intro that [of c]) (simp_all add: gcp_inner_def unrefreshed_def)
qed

lemma recent_replicate: "recent now (l\<lparr>calls := replicate k now\<rparr>) = (if window_seconds l \<le> 0 then [] else replicate k now)"
  by (simp add: recent_def)

lemma admit_one:
  assumes "queueing now quota k p" "int k < quota" "keys_are_stale w" "tokens_work w tk" "urlparse (us ! i) = Inr q"
    and "i < length (phases p)" "phases p ! i = Outside pc" "pc = Starting \<or> (\<exists>u. pc = SleepingUntil u \<and> u \<le> now)"
  shows "\<exists>p' x. advance (gcp_code w us) i p = Some p' \<and> phases p' = (phases p)[i := x] \<and> in_line x \<and>
    queueing now quota (Suc k) p'"
proof -
  let ?g = "shared p"
  let ?l = "get_limiter (sh_gcp ?g)"
  let ?l2 = "?l\<lparr>calls := replicate k now @ [now]\<rparr>"
  let ?g2 = "?g\<lparr>sh_gcp := (sh_gcp ?g)\<lparr>g_limiter := Some ?l2\<rparr>, sh_admitted := sh_admitted ?g @ [now]\<rparr>"
  have p: "recent now ?l = replicate k now" "capacity ?l = quota" "window_seconds ?l = 60" "sh_now ?g = now"
    "sh_sent ?g = []" "unrefreshed (sh_gcp ?g)" "\<And>j. (j, True) \<notin> set (sem_waiters (gate p))"
    using assms(1) by (simp_all add: queueing_def Let_def)
  have "try_acquire now ?l = (?l2, Inr Admitted)"
    using assms(2) p(1,2) by (simp add: try_acquire_def Let_def)
  then have o: "gcp_outer i pc ?g = Some (?g2, Ask)" using assms(8) p(4) by (auto simp: gcp_outer_def)
  have l2: "recent now ?l2 = replicate (Suc k) now" using recent_replicate [where now = now and l = ?l and k = "Suc k"] p(3)
    by (simp add: replicate_append_same [symmetric])
  obtain s got where s: "sem_acquire i (gate p) = (s, got)" by fastforce
  have woken: "(j, True) \<notin> set (sem_waiters s)" for j
    using s p(7) by (auto simp: sem_acquire_def split: if_splits)
  show ?thesis
  proof (cases got)
    case False
    let ?p = "move_to i Queued (p\<lparr>shared := ?g2, gate := s\<rparr>)"
    have "advance (gcp_code w us) i p = Some ?p"
      using assms(6,7) o s False by (simp add: advance_def stretch_def ask_def Let_def pool_sel)
    moreover have "queueing now quota (Suc k) ?p"
      using p l2 woken by (simp add: queueing_def pool_sel get_limiter_def unrefreshed_def)
    ultimately show ?thesis by (intro exI [of _ ?p] exI [of _ Queued]) (simp add: pool_sel in_line_def)
  next
    case True
    let ?p1 = "move_to i (Inside Admitted_Task) (p\<lparr>shared := ?g2, gate := s\<rparr>)"
    have s1: "stretch (gcp_code w us) i p = Some ?p1"
      using assms(6,7) o s True by (simp add: stretch_def ask_def Let_def)
    have "unrefreshed (sh_gcp ?g2)" using p(6) by (simp add: unrefreshed_def)
    then obtain c where c: "gcp_inner w us i Admitted_Task ?g2 =
        (?g2\<lparr>sh_gcp := (sh_gcp ?g2)\<lparr>g_creds := Some c\<rparr>\<rparr>, Await (Refreshing c (gcp_body_of q)))" "stale_creds c"
      by (rule first_refresh [OF assms(3,4) _ assms(5)])
    let ?x = "Inside (Refreshing c (gcp_body_of q))"
    let ?p = "move_to i ?x (?p1\<lparr>shared := ?g2\<lparr>sh_gcp := (sh_gcp ?g2)\<lparr>g_creds := Some c\<rparr>\<rparr>\<rparr>)"
    have "stretch (gcp_code w us) i ?p1 = Some ?p"
      using assms(6) c(1) by (simp add: stretch_def pool_sel Let_def)
    then have "advance (gcp_code w us) i p = Some ?p"
      using s1 assms(6,7) by (simp add: advance_def pool_sel)
    moreover have "queueing now quota (Suc k) ?p"
      using p l2 woken c(2) by (simp add: queueing_def pool_sel get_limiter_def unrefreshed_def)
    ultimately show ?thesis by (intro exI [of _ ?p] exI [of _ ?x]) (simp add: pool_sel in_line_def)
  qed
qed

lemma turn_away_one:
  assumes "queueing now quota k p" "int k = quota" "1 \<le> quota" "i < length (phases p)" "phases p ! i = Outside Starting"
  shows "\<exists>p'. advance (gcp_code w us) i p = Some p' \<and> phases p' = (phases p)[i := Outside (SleepingUntil (now + 60))] \<and>
    queueing now quota k p'"
proof -
  let ?g = "shared p"
  let ?l = "get_limiter (sh_gcp ?g)"
  let ?l2 = "?l\<lparr>calls := replicate k now\<rparr>"
  let ?p = "move_to i (Outside (SleepingUntil (now + 60))) (p\<lparr>shared := ?g\<lparr>sh_gcp := (sh_gcp ?g)\<lparr>g_limiter := Some ?l2\<rparr>\<rparr>\<rparr>)"
  have p: "recent now ?l = replicate k now" "capacity ?l = quota" "window_seconds ?l = 60" "sh_now ?g = now"
    "sh_sent ?g = []" "unrefreshed (sh_gcp ?g)" "\<And>j. (j, True) \<notin> set (sem_waiters (gate p))"
    using assms(1) by (simp_all add: queueing_def Let_def)
  obtain k' where k: "k = Suc k'" using assms(2,3) by (cases k) auto
  have "try_acquire now ?l = (?l2, Inr (WaitFor 60))"
    using assms(2) p(1-3) by (simp add: try_acquire_def Let_def k)
  then have "advance (gcp_code w us) i p = Some ?p"
    using assms(4,5) p(4) by (simp add: advance_def stretch_def gcp_outer_def Let_def pool_sel)
  moreover have "queueing now quota k ?p"
    using p recent_replicate [where now = now and l = ?l and k = k] by (simp add: queueing_def pool_sel get_limiter_def unrefreshed_def)
  ultimately show ?thesis by (intro exI [of _ ?p]) (simp add: pool_sel)
qed

section \<open>All at once\<close>

lemma stretch_sends:
  assumes "gcp_ready w prior ep tk (shared p)" "\<forall>j < length (phases p). admitted_phase (phases p ! j)"
    and "\<exists>q. urlparse (us ! i) = Inr q" "stretch (gcp_code w us) i p = Some p'"
  shows "\<exists>n. sh_sent (shared p') = sh_sent (shared p) @ replicate n (sh_now (shared p)) \<and>
      n + count_unsent p' = count_unsent p \<and> sh_now (shared p') = sh_now (shared p) \<and>
      (\<forall>j < length (phases p'). admitted_phase (phases p' ! j))"
proof -
  have c: "count_unsent (p\<lparr>phases := (phases p)[i := y]\<rparr>) + (if unsent (phases p ! i) then 1 else 0) =
      count_unsent p + (if unsent y then 1 else 0)" if "i < length (phases p)" for y
    using count_update [OF that, where P = unsent and y = y] by (simp add: count_unsent_def)
  have kept: "\<forall>j < length (phases p). admitted_phase ((phases p)[i := y] ! j)" if "admitted_phase y" for y
    using assms(2) that by (metis nth_list_update_eq nth_list_update_neq)
  have cr: "tokens_work w tk" "creds_ready tk (sh_gcp (shared p))" using assms(1) by (simp_all add: gcp_ready_def)
  obtain q where q: "urlparse (us ! i) = Inr q" using assms(3) by blast
  note sends = inner_sends [OF cr q]
  from assms(4) show ?thesis
  proof (cases rule: stretch_cases)
    case resume
    with c [of "Inside Admitted_Task"] kept [of "Inside Admitted_Task"] show ?thesis
      by (intro exI [of _ 0]) (simp add: pool_sel count_unsent_def)
  next
    case (await h g h2)
    with sends [of h g "Await h2"] gcp_inner_same [of w us i h "shared p" g] c [of "Inside h2"] kept [of "Inside h2"]
    show ?thesis
      by (intro exI [of _ "if unsent (Inside h2) then 0 else 1"]) (simp add: pool_sel count_unsent_def split: if_splits)
  next
    case (leave h g r)
    with sends [of h g] gcp_inner_same [of w us i h "shared p" g] c [of "Finished r"] kept [of "Finished r"]
    show ?thesis
      by (intro exI [of _ 0]) (cases r; simp add: leave_def pool_sel count_unsent_def)
  qed (use assms(2) in \<open>auto dest!: spec [of _ i]\<close>)
qed

lemma advance_sends:
  assumes "gcp_ready w prior ep tk (shared p)" "\<forall>j < length (phases p). admitted_phase (phases p ! j)"
    and "\<exists>q. urlparse (us ! i) = Inr q" "advance (gcp_code w us) i p = Some p'"
  shows "\<exists>n. sh_sent (shared p') = sh_sent (shared p) @ replicate n (sh_now (shared p)) \<and>
      n + count_unsent p' = count_unsent p \<and> sh_now (shared p') = sh_now (shared p) \<and>
      (\<forall>j < length (phases p'). admitted_phase (phases p' ! j))"
  using assms(4)
proof (rule advance_stretches)
  fix p1 assume p1: "stretch (gcp_code w us) i p = Some p1" "p' = p1 \<or> stretch (gcp_code w us) i p1 = Some p'"
  from stretch_sends [OF assms(1-3) p1(1)] obtain n where
    n: "sh_sent (shared p1) = sh_sent (shared p) @ replicate n (sh_now (shared p))"
    "n + count_unsent p1 = count_unsent p" "sh_now (shared p1) = sh_now (shared p)"
    "\<forall>j < length (phases p1). admitted_phase (phases p1 ! j)" by blast
  have ready: "gcp_ready w prior ep tk (shared p1)" using gcp_tasks.stretch_budget [OF assms(1) p1(1)] by simp
  from p1(2) show ?thesis
  proof
    assume "stretch (gcp_code w us) i p1 = Some p'"
    from stretch_sends [OF ready n(4) assms(3) this] obtain m where
      m: "sh_sent (shared p') = sh_sent (shared p1) @ replicate m (sh_now (shared p1))"
      "m + count_unsent p' = count_unsent p1" "sh_now (shared p') = sh_now (shared p1)"
      "\<forall>j < length (phases p'). admitted_phase (phases p' ! j)" by blast
    then show ?thesis using n by (intro exI [of _ "n + m"]) (simp add: replicate_add)
  qed (use n in blast)
qed

lemma send_all:
  assumes "gcp_ready w prior ep tk (shared p)" "\<forall>j < length (phases p). admitted_phase (phases p ! j)"
    and "pool_inv c p" "1 \<le> c" "\<forall>j < length (phases p). \<exists>q. urlparse (us ! j) = Inr q"
  shows "\<exists>js p'. pool_run (gcp_code w us) (map Run js) p = Some p' \<and> all_finished p' \<and>
    sh_sent (shared p') = sh_sent (shared p) @ replicate (count_unsent p) (sh_now (shared p))"
  using assms
proof (induction "gcp_ending.budget p" arbitrary: p rule: less_induct)
  case less
  show ?case
  proof (cases "all_finished p")
    case True
    then have "count_unsent p = 0"
      by (auto simp: count_unsent_def all_finished_def filter_empty_conv list_all_iff) (metis is_finished.elims(2) unsent_simps(6))
    with True show ?thesis by (intro exI [of _ "[]"] exI [of _ p]) simp
  next
    case False
    from some_task_ready [OF less.prems(3,4) False] less.prems(2) obtain i where i: "i < length (phases p)"
      "(\<exists>h. phases p ! i = Inside h) \<or> phases p ! i = Queued \<and> (i, True) \<in> set (sem_waiters (gate p))"
      by fastforce
    then have "advance (gcp_code w us) i p \<noteq> None"
      unfolding advance_ready by (cases "phases p ! i") (auto simp: stretch_def Let_def split: prod.splits)
    then obtain p1 where p1: "advance (gcp_code w us) i p = Some p1" by blast
    have g: "gcp_good prior (shared p)" using less.prems(1) by (simp add: gcp_ready_def)
    obtain n where n: "sh_sent (shared p1) = sh_sent (shared p) @ replicate n (sh_now (shared p))"
      "n + count_unsent p1 = count_unsent p" "sh_now (shared p1) = sh_now (shared p)"
      "\<forall>j < length (phases p1). admitted_phase (phases p1 ! j)"
      using advance_sends [OF less.prems(1,2) _ p1] less.prems(5) i(1) by blast
    have "gcp_ready w prior ep tk (shared p1)"
      using gcp_tasks.advance_budget [OF less.prems(1) p1] by simp
    moreover have "gcp_ending.budget p1 < gcp_ending.budget p"
      using gcp_ending.advance_budget [OF g p1] by simp
    moreover have "pool_inv c p1" "length (phases p1) = length (phases p)"
      by (rule advance_inv [OF less.prems(3) p1], rule advance_length [OF p1])
    ultimately obtain js p' where p': "pool_run (gcp_code w us) (map Run js) p1 = Some p'" "all_finished p'"
      "sh_sent (shared p') = sh_sent (shared p1) @ replicate (count_unsent p1) (sh_now (shared p1))"
      using less.hyps [of p1] n(4) less.prems(4,5) by auto
    have "pool_run (gcp_code w us) (map Run (i # js)) p = Some p'" using p1 p'(1) by (simp add: pool_step_def)
    moreover have "sh_sent (shared p') = sh_sent (shared p) @ replicate (count_unsent p) (sh_now (shared p))"
      using p'(3) n(1,3) by (simp add: n(2) [symmetric] replicate_add)
    ultimately show ?thesis using p'(2) by blast
  qed
qed

lemma room_after_window:
  assumes "gcp_good prior g" "g_window (sh_gcp g) \<le> d"
  shows "recent (sh_now (gcp_elapse d g)) (get_limiter (sh_gcp (gcp_elapse d g))) = []"
proof -
  let ?l = "get_limiter (sh_gcp g)"
  have inv: "limiter_inv (prior @ sh_admitted g) (sh_now g) ?l" "window_seconds ?l = g_window (sh_gcp g)"
    using assms(1) by (simp_all add: gcp_good_def gcp_inv_def)
  obtain old where old: "prior @ sh_admitted g = old @ calls ?l" using inv(1) by (auto simp: limiter_inv_def)
  have "\<forall>t \<in> set (prior @ sh_admitted g). t \<le> sh_now g" using inv(1) by (simp add: limiter_inv_def)
  then have "\<forall>t \<in> set (calls ?l). t \<le> sh_now g" unfolding old by simp
  note this inv(2)
  then show ?thesis using assms(2) by (fastforce simp: gcp_elapse_def recent_def dropWhile_eq_Nil_conv)
qed

section \<open>A burst\<close>

lemma burst_run:
  assumes "1 \<le> quota" "init_sem c = Inr s" "tokens_work w tk" "length us = 2 * nat quota"
    and "pool_run (gcp_code w us) as (gcp_batch w s us (init_gcp prj um sa quota)) = Some p"
  shows "gcp_ready w [] (g_endpoint (init_gcp prj um sa quota)) tk (shared p)" "pool_inv (nat c) p"
    "length (phases p) = 2 * nat quota" "g_window (sh_gcp (shared p)) = 60"
    "capacity (get_limiter (sh_gcp (shared p))) = quota" "window_seconds (get_limiter (sh_gcp (shared p))) = 60"
proof -
  let ?p0 = "gcp_batch w s us (init_gcp prj um sa quota)"
  have "gcp_ready w [] (g_endpoint (init_gcp prj um sa quota)) tk (shared ?p0)"
    using assms(1,3) by (simp add: gcp_batch_def start_pool_def gcp_start_def gcp_ready_def gcp_good_def init_gcp_inv
        creds_ready_def) (simp add: init_gcp_def)
  from gcp_tasks.run_budget [OF this assms(5)]
  show r: "gcp_ready w [] (g_endpoint (init_gcp prj um sa quota)) tk (shared p)" by simp
  show "pool_inv (nat c) p" "length (phases p) = 2 * nat quota"
    using pool_run_inv [OF start_pool_inv [OF assms(2)] assms(5) [unfolded gcp_batch_def]] assms(4)
    by (simp_all add: start_pool_def)
  have f: "g_quota (sh_gcp (shared p)) = quota" "g_window (sh_gcp (shared p)) = 60"
    using gcp_limits_fixed [OF assms(5)] by (simp_all add: gcp_batch_def start_pool_def gcp_start_def init_gcp_def)
  then show "g_window (sh_gcp (shared p)) = 60" by simp
  show "capacity (get_limiter (sh_gcp (shared p))) = quota" "window_seconds (get_limiter (sh_gcp (shared p))) = 60"
    using r f by (simp_all add: gcp_ready_def gcp_good_def gcp_inv_def)
qed

text \<open>
  At the start the tasks of the first half are admitted and get in line, those of the second half are
  sent to sleep. A window later the latter are admitted too, and none has sent its request.
\<close>

lemma burst_starts:
  assumes "1 \<le> quota" "init_sem c = Inr s" "tokens_work w tk" "keys_are_stale w" "length us = 2 * nat quota"
    and "\<forall>u \<in> set us. \<exists>q. urlparse u = Inr q"
  shows "\<exists>p. pool_run (gcp_code w us) (map Run [0..<2 * nat quota]) (gcp_batch w s us (init_gcp prj um sa quota)) = Some p \<and>
    queueing (w_start w) quota (nat quota) p \<and> length (phases p) = 2 * nat quota \<and>
    (\<forall>j < nat quota. in_line (phases p ! j)) \<and>
    (\<forall>j. nat quota \<le> j \<longrightarrow> j < 2 * nat quota \<longrightarrow> phases p ! j = Outside (SleepingUntil (w_start w + 60)))"
proof -
  let ?n = "nat quota" and ?p0 = "gcp_batch w s us (init_gcp prj um sa quota)" and ?t = "w_start w"
  have p0: "phases ?p0 = replicate (2 * ?n) (Outside Starting)"
    using assms(5) by (simp add: gcp_batch_def start_pool_def)
  have "sem_waiters s = []" using assms(2) by (auto simp: init_sem_def split: if_splits)
  then have q0: "queueing ?t quota 0 ?p0"
    by (simp add: queueing_def gcp_batch_def start_pool_def gcp_start_def get_limiter_def init_gcp_def
        init_limiter_def recent_def unrefreshed_def)
  have url: "\<exists>q. urlparse (us ! j) = Inr q" if "j < 2 * ?n" for j using assms(5,6) that by simp
  have "\<exists>p1. pool_run (gcp_code w us) (map Run [0..<0 + ?n]) ?p0 = Some p1 \<and> queueing ?t quota (0 + ?n) p1 \<and>
      length (phases p1) = length (phases ?p0) \<and>
      (\<forall>j < length (phases ?p0). if j \<in> {0..<0 + ?n} then in_line (phases p1 ! j) else phases p1 ! j = phases ?p0 ! j)"
  proof (rule in_turn [where A = "\<lambda>x. x = Outside Starting" and I = "\<lambda>j. queueing ?t quota j"])
    fix j and p :: "(gcp_wait, gcp_pc, gcp_side) pool"
    assume j: "j < 0 + ?n" "queueing ?t quota j p" "j < length (phases p)" "phases p ! j = Outside Starting"
    from url [of j] j(1) obtain q where q: "urlparse (us ! j) = Inr q" by auto
    show "\<exists>p' x. advance (gcp_code w us) j p = Some p' \<and> phases p' = (phases p)[j := x] \<and> in_line x \<and>
        queueing ?t quota (Suc j) p'"
      by (rule admit_one [OF j(2) _ assms(4,3) q j(3,4)]) (use j(1) in auto)
  qed (use q0 p0 in auto)
  then obtain p1 where p1: "pool_run (gcp_code w us) (map Run [0..<?n]) ?p0 = Some p1" "queueing ?t quota ?n p1"
    "length (phases p1) = 2 * ?n" "\<forall>j < 2 * ?n. if j < ?n then in_line (phases p1 ! j) else phases p1 ! j = Outside Starting"
    using p0 by auto
  have "\<exists>p2. pool_run (gcp_code w us) (map Run [?n..<?n + ?n]) p1 = Some p2 \<and> queueing ?t quota ?n p2 \<and>
      length (phases p2) = length (phases p1) \<and>
      (\<forall>j < length (phases p1). if j \<in> {?n..<?n + ?n} then phases p2 ! j = Outside (SleepingUntil (?t + 60))
        else phases p2 ! j = phases p1 ! j)"
  proof (rule in_turn [where A = "\<lambda>x. x = Outside Starting" and I = "\<lambda>j. queueing ?t quota ?n"])
    fix j and p :: "(gcp_wait, gcp_pc, gcp_side) pool"
    assume j: "queueing ?t quota ?n p" "j < length (phases p)" "phases p ! j = Outside Starting"
    from turn_away_one [OF j(1) _ assms(1) j(2,3), of w us] assms(1)
    show "\<exists>p' x. advance (gcp_code w us) j p = Some p' \<and> phases p' = (phases p)[j := x] \<and>
        x = Outside (SleepingUntil (?t + 60)) \<and> queueing ?t quota ?n p'" by auto
  qed (use p1 in auto)
  then obtain p2 where p2: "pool_run (gcp_code w us) (map Run [?n..<?n + ?n]) p1 = Some p2" "queueing ?t quota ?n p2"
    "length (phases p2) = 2 * ?n"
    "\<forall>j < 2 * ?n. if ?n \<le> j then phases p2 ! j = Outside (SleepingUntil (?t + 60)) else phases p2 ! j = phases p1 ! j"
    using p1(3) by auto
  have "[0..<2 * ?n] = [0..<?n] @ [?n..<?n + ?n]" using upt_add_eq_append [of 0 ?n ?n] by (simp add: mult_2)
  then have "pool_run (gcp_code w us) (map Run [0..<2 * ?n]) ?p0 = Some p2"
    using p1(1) p2(1) by (simp add: pool_run_append)
  with p2 p1(4) show ?thesis by (intro exI [of _ p2]) auto
qed

lemma queueing_rests:
  assumes "queueing now quota k p"
    and "\<forall>j < length (phases p). in_line (phases p ! j) \<or> phases p ! j = Outside (SleepingUntil (now + 60))"
  shows "resting (gcp_code w us) p"
  unfolding resting_def
proof (intro allI impI)
  fix i assume i: "i < length (phases p)"
  have "sh_now (shared p) = now" "\<And>j. (j, True) \<notin> set (sem_waiters (gate p))"
    using assms(1) by (simp_all add: queueing_def)
  then have "\<not> in_section (phases p ! i) \<Longrightarrow> stretch (gcp_code w us) i p = None"
    using assms(2) i by (auto simp: in_line_def stretch_def gcp_outer_def)
  with advance_ready [of "gcp_code w us" i p]
  show "advance (gcp_code w us) i p = None \<or> in_section (phases p ! i)" by metis
qed

text \<open>
  C25. The quota does not bound the requests: for every quota and every concurrency there is a batch of
  twice the quota, the first of a provider whose key file gives credentials without a token, and a run
  of its tasks in which all requests are sent at the same instant, so that a window of sixty seconds
  holds twice as many requests as the quota allows. The tasks of the first half are admitted at the
  start and wait, for the token or for a permit, while the refresh takes a minute; nothing else is left
  to run in that time. Then the tasks of the second half are admitted, and all requests are sent.
\<close>

theorem quota_burst:
  assumes "1 \<le> quota" "init_sem c = Inr s" "1 \<le> c" "tokens_work w tk" "keys_are_stale w"
    and "length us = 2 * nat quota" "\<forall>u \<in> set us. \<exists>q. urlparse u = Inr q"
  shows "\<exists>is p1 js p. pool_run (gcp_code w us) (map Run is) (gcp_batch w s us (init_gcp prj um sa quota)) = Some p1 \<and>
    resting (gcp_code w us) p1 \<and> pool_run (gcp_code w us) (Elapse 60 # map Run js) p1 = Some p \<and>
    all_finished p \<and> int (in_window 60 (w_start w + 60) (sh_sent (shared p))) = 2 * quota"
proof -
  let ?n = "nat quota" and ?p0 = "gcp_batch w s us (init_gcp prj um sa quota)" and ?t = "w_start w + 60"
  note run = burst_run [OF assms(1,2,4,6)]
  obtain p1 where p1: "pool_run (gcp_code w us) (map Run [0..<2 * ?n]) ?p0 = Some p1"
    "queueing (w_start w) quota ?n p1" "length (phases p1) = 2 * ?n" "\<forall>j < ?n. in_line (phases p1 ! j)"
    "\<forall>j. ?n \<le> j \<longrightarrow> j < 2 * ?n \<longrightarrow> phases p1 ! j = Outside (SleepingUntil ?t)"
    using burst_starts [OF assms(1,2,4,5,6,7)] by blast
  have rest: "resting (gcp_code w us) p1"
    by (rule queueing_rests [OF p1(2)]) (metis p1(3-5) not_le)
  define p2 where "p2 = p1\<lparr>shared := gcp_elapse 60 (shared p1)\<rparr>"
  have to2: "pool_step (gcp_code w us) (Elapse 60) p1 = Some p2" by (simp add: pool_step_def p2_def)
  have "gcp_good [] (shared p1)" using run(1) [OF p1(1)] by (simp add: gcp_ready_def)
  from room_after_window [OF this, of 60] run(4) [OF p1(1)] p1(2)
  have q2: "queueing ?t quota 0 p2"
    by (simp add: queueing_def p2_def Let_def gcp_elapse_def)
  have "\<exists>p3. pool_run (gcp_code w us) (map Run [?n..<?n + ?n]) p2 = Some p3 \<and> queueing ?t quota (?n + ?n - ?n) p3 \<and>
      length (phases p3) = length (phases p2) \<and>
      (\<forall>j < length (phases p2). if j \<in> {?n..<?n + ?n} then in_line (phases p3 ! j) else phases p3 ! j = phases p2 ! j)"
  proof (rule in_turn [where A = "\<lambda>x. x = Outside (SleepingUntil ?t)" and I = "\<lambda>j. queueing ?t quota (j - ?n)"])
    fix j and p :: "(gcp_wait, gcp_pc, gcp_side) pool"
    assume j: "?n \<le> j" "j < ?n + ?n" "queueing ?t quota (j - ?n) p" "j < length (phases p)"
      "phases p ! j = Outside (SleepingUntil ?t)"
    from assms(6,7) j(2) obtain q where q: "urlparse (us ! j) = Inr q" by force
    have i: "Suc j - ?n = Suc (j - ?n)" "int (j - ?n) < quota" using j(1,2) by linarith+
    from admit_one [OF j(3) i(2) assms(5,4) q j(4,5)] i(1)
    show "\<exists>p' x. advance (gcp_code w us) j p = Some p' \<and> phases p' = (phases p)[j := x] \<and> in_line x \<and>
        queueing ?t quota (Suc j - ?n) p'" by auto
  qed (use q2 p1(3,5) in \<open>auto simp: p2_def\<close>)
  then obtain p3 where p3: "pool_run (gcp_code w us) (map Run [?n..<?n + ?n]) p2 = Some p3" "queueing ?t quota ?n p3"
    "length (phases p3) = 2 * ?n" "\<forall>j < 2 * ?n. if ?n \<le> j then in_line (phases p3 ! j) else phases p3 ! j = phases p1 ! j"
    using p1(3) by (auto simp: p2_def)
  have line: "\<forall>j < length (phases p3). in_line (phases p3 ! j)" using p3(3,4) p1(4) by (metis not_le)
  have to3: "pool_run (gcp_code w us) (map Run [0..<2 * ?n] @ Elapse 60 # map Run [?n..<?n + ?n]) ?p0 = Some p3"
    using p1(1) to2 p3(1) by (simp add: pool_run_append)
  have "filter unsent (phases p3) = phases p3"
    using line in_line_unsent by (auto simp: filter_id_conv in_set_conv_nth)
  then have count: "count_unsent p3 = 2 * ?n" using p3(3) by (simp add: count_unsent_def)
  have "1 \<le> nat c" using assms(3) by simp
  from send_all [OF run(1) [OF to3] _ run(2) [OF to3] this, of us] line in_line_unsent assms(6,7) p3(2,3)
  obtain js p where p: "pool_run (gcp_code w us) (map Run js) p3 = Some p" "all_finished p"
    "sh_sent (shared p) = replicate (2 * ?n) ?t"
    by (auto simp: count queueing_def)
  have "pool_run (gcp_code w us) (Elapse 60 # map Run ([?n..<?n + ?n] @ js)) p1 = Some p"
    using to2 p3(1) p(1) by (auto simp: pool_run_append)
  moreover have "int (in_window 60 ?t (sh_sent (shared p))) = 2 * quota"
    using assms(1) p(3) by (simp add: in_window_def)
  ultimately show ?thesis using p1(1) rest p(2) by blast
qed

theorem quota_burst_witness:
  "\<exists>as p. pool_run (gcp_code stale_world a_pair) as
      (gcp_batch stale_world \<lparr>sem_value = 1, sem_waiters = []\<rparr> a_pair (init_gcp ''prj'' ''um'' ''/sa.json'' 1)) = Some p \<and>
     int (in_window 60 60 (sh_sent (shared p))) = 2"
proof -
  have "length a_pair = 2 * nat 1" "\<forall>u \<in> set a_pair. \<exists>q. urlparse u = Inr q" "w_start stale_world = 0"
    "keys_are_stale stale_world"
    using parse_a by (simp_all add: a_pair_def stale_world_def keys_are_stale_def stale_creds_def)
  with quota_burst [OF _ one_permit_init _ stale_tokens, of 1 a_pair "''prj''" "''um''" "''/sa.json''"]
  obtain as p1 bs p where "pool_run (gcp_code stale_world a_pair) (map Run as)
      (gcp_batch stale_world \<lparr>sem_value = 1, sem_waiters = []\<rparr> a_pair (init_gcp ''prj'' ''um'' ''/sa.json'' 1)) = Some p1"
    "pool_run (gcp_code stale_world a_pair) (Elapse 60 # map Run bs) p1 = Some p"
    "int (in_window 60 60 (sh_sent (shared p))) = 2" by auto
  then show ?thesis
    by (intro exI [of _ "map Run as @ Elapse 60 # map Run bs"] exI [of _ p]) (simp add: pool_run_append)
qed

end
