(* ===== verification/Json_Text.thy ===== *)
theory Json_Text
  imports Prelude
begin

text \<open>
  The text of the \<open>urls_json\<close> column: \<open>json.dumps\<close> of a list of strings (default separators, ASCII
  output) and \<open>json.loads\<close> on arrays of strings. Documents of any other shape, which the queue
  never writes, are \<^const>\<open>None\<close>.
\<close>

section \<open>Encoding\<close>

definition hex_digit :: "nat \<Rightarrow> char" where
  "hex_digit n = ''0123456789abcdef'' ! n"

definition code :: "char \<Rightarrow> nat" where
  "code c = of_char c"

definition esc_char :: "char \<Rightarrow> string" where
  "esc_char c =
     (if c = CHR 0x22 then [CHR 0x5C, CHR 0x22]
      else if c = CHR 0x5C then [CHR 0x5C, CHR 0x5C]
      else if c = CHR 0x0A then [CHR 0x5C, CHR ''n'']
      else if c = CHR 0x0D then [CHR 0x5C, CHR ''r'']
      else if c = CHR 0x09 then [CHR 0x5C, CHR ''t'']
      else if c = CHR 0x0C then [CHR 0x5C, CHR ''f'']
      else if c = CHR 0x08 then [CHR 0x5C, CHR ''b'']
      else if 32 \<le> code c \<and> code c \<le> 126 then [c]
      else CHR 0x5C # ''u00'' @ [hex_digit (code c div 16), hex_digit (code c mod 16)])"

definition json_string :: "string \<Rightarrow> string" where
  "json_string s = CHR 0x22 # concat (map esc_char s) @ [CHR 0x22]"

definition json_dumps :: "string list \<Rightarrow> string" where
  "json_dumps us = ''['' @ join_with '', '' (map json_string us) @ '']''"

section \<open>Decoding\<close>

definition hex_value :: "char \<Rightarrow> nat option" where
  "hex_value c =
     (let n = code c in
        if 48 \<le> n \<and> n \<le> 57 then Some (n - 48)
        else if 97 \<le> n \<and> n \<le> 102 then Some (n - 87)
        else if 65 \<le> n \<and> n \<le> 70 then Some (n - 55)
        else None)"

definition hex4 :: "string \<Rightarrow> char option" where
  \<comment> \<open>four digits; code points above 255 are outside the model of strings\<close>
  "hex4 ds =
     (case map hex_value ds of
        [Some a, Some b, Some c, Some d] \<Rightarrow>
          let n = 4096 * a + 256 * b + 16 * c + d
          in if n < 256 then Some (char_of n) else None
      | _ \<Rightarrow> None)"

definition unescape :: "char \<Rightarrow> char option" where
  "unescape e =
     (if e = CHR 0x22 \<or> e = CHR 0x5C \<or> e = CHR ''/'' then Some e
      else if e = CHR ''n'' then Some CHR 0x0A
      else if e = CHR ''r'' then Some CHR 0x0D
      else if e = CHR ''t'' then Some CHR 0x09
      else if e = CHR ''f'' then Some CHR 0x0C
      else if e = CHR ''b'' then Some CHR 0x08
      else None)"

definition push :: "char \<Rightarrow> (string \<times> string) option \<Rightarrow> (string \<times> string) option" where
  "push c r = map_option (\<lambda>(s, rest). (c # s, rest)) r"

function scan_string :: "string \<Rightarrow> (string \<times> string) option" where
  \<comment> \<open>after the opening quote: the string and what follows its closing quote\<close>
  "scan_string [] = None"
| "scan_string (c # s) =
     (if c = CHR 0x22 then Some ([], s)
      else if c = CHR 0x5C then
        (case s of
           [] \<Rightarrow> None
         | e # s' \<Rightarrow>
             if e = CHR ''u'' then
               (case hex4 (take 4 s') of
                  None \<Rightarrow> None
                | Some ch \<Rightarrow> push ch (scan_string (drop 4 s')))
             else
               (case unescape e of
                  None \<Rightarrow> None
                | Some ch \<Rightarrow> push ch (scan_string s')))
      else if code c < 32 then None
      else push c (scan_string s))"
  by pat_completeness auto
termination
  by (relation "measure length") auto

definition skip_ws :: "string \<Rightarrow> string" where
  "skip_ws s = dropWhile (\<lambda>c. c = CHR '' '' \<or> c = CHR 0x09 \<or> c = CHR 0x0A \<or> c = CHR 0x0D) s"

lemma skip_ws_length: "length (skip_ws s) \<le> length s"
  by (simp add: skip_ws_def length_dropWhile_le)

lemma push_Some: "push c r = Some (s, rest) \<longleftrightarrow> (\<exists>t. r = Some (t, rest) \<and> s = c # t)"
  by (cases r) (auto simp: push_def)

lemma scan_string_length: "scan_string s = Some (w, rest) \<Longrightarrow> length rest < length s"
  by (induction s arbitrary: w rule: scan_string.induct)
     (fastforce simp: push_Some split: if_splits option.splits list.splits)+

function scan_items :: "string \<Rightarrow> (string list \<times> string) option" where
  \<comment> \<open>one or more strings up to the closing bracket\<close>
  "scan_items s =
     (if take 1 s = [CHR 0x22] then
        (case scan_string (drop 1 s) of
           None \<Rightarrow> None
         | Some (w, rest) \<Rightarrow>
             let r = skip_ws rest in
               if take 1 r = '']'' then Some ([w], drop 1 r)
               else if take 1 r = '','' then
                 map_option (\<lambda>(ws, rest'). (w # ws, rest')) (scan_items (skip_ws (drop 1 r)))
               else None)
      else None)"
  by pat_completeness auto
termination
proof (relation "measure length")
  fix s :: string and x w rest r
  assume "take 1 s = [CHR 0x22]" "scan_string (drop 1 s) = Some x" "(w, rest) = x" "r = skip_ws rest"
  then have "length rest < length (drop 1 s)" "length r \<le> length rest"
    by (auto dest: scan_string_length simp: skip_ws_length)
  moreover have "length (skip_ws (drop 1 r)) \<le> length r"
    using skip_ws_length [of "drop 1 r"] by simp
  ultimately show "(skip_ws (drop 1 r), s) \<in> measure length" by simp
qed simp

declare scan_items.simps [simp del]

definition json_loads :: "string \<Rightarrow> string list option" where
  "json_loads s =
     (let a = skip_ws s in
        if take 1 a = ''['' then
          (let b = skip_ws (drop 1 a) in
             if take 1 b = '']'' then (if skip_ws (drop 1 b) = [] then Some [] else None)
             else (case scan_items b of
                     None \<Rightarrow> None
                   | Some (ws, rest) \<Rightarrow> if skip_ws rest = [] then Some ws else None))
        else None)"

section \<open>Round trip\<close>

lemma hex_value_digit: "n < 16 \<Longrightarrow> hex_value (hex_digit n) = Some n"
proof -
  assume "n < 16"
  then have "n \<in> set [0..<16]" by simp
  moreover have "\<forall>k \<in> set [0..<16]. hex_value (hex_digit k) = Some k" by code_simp
  ultimately show ?thesis by blast
qed

lemma hex4_code:
  assumes "n < 256"
  shows "hex4 [CHR ''0'', CHR ''0'', hex_digit (n div 16), hex_digit (n mod 16)] = Some (char_of n)"
proof -
  have z: "hex_value CHR ''0'' = Some 0" by code_simp
  have "n div 16 < 16" "n mod 16 < 16" using assms by auto
  then show ?thesis
    using assms z by (simp add: hex4_def hex_value_digit Let_def)
qed

lemma code_less: "code c < 256"
  using of_char_mod_256 [of c] by (simp add: code_def)

lemma char_of_code [simp]: "char_of (code c) = c"
  by (simp add: code_def)

declare scan_string.simps [simp del]

lemma scan_quote: "scan_string (CHR 0x22 # s) = Some ([], s)"
  by (simp add: scan_string.simps)

lemma scan_short: "unescape e = Some ch \<Longrightarrow> e \<noteq> CHR ''u'' \<Longrightarrow>
    scan_string (CHR 0x5C # e # s) = push ch (scan_string s)"
  by (subst scan_string.simps) simp

lemma scan_hex: "hex4 ds = Some ch \<Longrightarrow> length ds = 4 \<Longrightarrow>
    scan_string (CHR 0x5C # CHR ''u'' # ds @ s) = push ch (scan_string s)"
  by (subst scan_string.simps) simp

lemma scan_plain: "c \<noteq> CHR 0x22 \<Longrightarrow> c \<noteq> CHR 0x5C \<Longrightarrow> 32 \<le> code c \<Longrightarrow>
    scan_string (c # s) = push c (scan_string s)"
  by (subst scan_string.simps) simp

lemma scan_esc: "scan_string (esc_char c @ s) = push c (scan_string s)"
proof -
  let ?h = "[CHR ''0'', CHR ''0'', hex_digit (code c div 16), hex_digit (code c mod 16)]"
  have h: "scan_string (CHR 0x5C # CHR ''u'' # ?h @ s) = push c (scan_string s)"
    by (rule scan_hex) (simp_all add: hex4_code code_less)
  have u: "unescape CHR 0x22 = Some CHR 0x22" "unescape CHR 0x5C = Some CHR 0x5C"
    "unescape CHR ''n'' = Some CHR 0x0A" "unescape CHR ''r'' = Some CHR 0x0D"
    "unescape CHR ''t'' = Some CHR 0x09" "unescape CHR ''f'' = Some CHR 0x0C"
    "unescape CHR ''b'' = Some CHR 0x08"
    by (simp_all add: unescape_def)
  show ?thesis
    using h by (simp add: esc_char_def u scan_short scan_plain)
qed

lemma scan_json_string: "scan_string (concat (map esc_char w) @ CHR 0x22 # s) = Some (w, s)"
  by (induction w) (auto simp: scan_esc scan_quote push_def)

lemma skip_ws_simps [simp]:
  "skip_ws [] = []"
  "skip_ws (CHR '']'' # s) = CHR '']'' # s"
  "skip_ws (CHR '','' # s) = CHR '','' # s"
  "skip_ws (CHR ''['' # s) = CHR ''['' # s"
  "skip_ws (CHR 0x22 # s) = CHR 0x22 # s"
  "skip_ws (CHR '' '' # s) = skip_ws s"
  by (simp_all add: skip_ws_def)

lemma dumped_items_start:
  "us \<noteq> [] \<Longrightarrow> \<exists>s. join_with '', '' (map json_string us) @ '']'' = CHR 0x22 # s"
  by (cases us; cases "tl us") (auto simp: json_string_def)

lemma scan_items_join:
  "us \<noteq> [] \<Longrightarrow> scan_items (join_with '', '' (map json_string us) @ '']'') = Some (us, [])"
proof (induction us rule: induct_list012)
  case (2 u)
  then show ?case
    by (subst scan_items.simps) (simp add: json_string_def scan_json_string)
next
  case (3 u v us)
  let ?r = "join_with '', '' (map json_string (v # us)) @ '']''"
  have "skip_ws ?r = ?r" using dumped_items_start [of "v # us"] by auto
  moreover have "scan_items ?r = Some (v # us, [])" using "3.IH"(2) by simp
  moreover have "join_with '', '' (map json_string (u # v # us)) @ '']'' =
      CHR 0x22 # concat (map esc_char u) @ CHR 0x22 # CHR '','' # CHR '' '' # ?r"
    by (simp add: json_string_def)
  ultimately show ?case
    by (subst scan_items.simps) (simp add: scan_json_string del: list.map)
qed simp

lemma json_roundtrip: "json_loads (json_dumps us) = Some us"
proof (cases us)
  case Nil
  then show ?thesis by (simp add: json_loads_def json_dumps_def)
next
  case (Cons u vs)
  then obtain r where r: "join_with '', '' (map json_string us) @ '']'' = CHR 0x22 # r"
    using dumped_items_start [of us] by auto
  then have "scan_items (CHR 0x22 # r) = Some (us, [])"
    using scan_items_join [of us] Cons by simp
  then show ?thesis by (simp add: json_loads_def json_dumps_def Let_def r)
qed

end
