(* ===== verification/Sink.thy ===== *)
theory Sink
  imports Prelude
begin

text \<open>
  The interface \<open>EnqueueSink\<close> of \<open>batcher.py\<close>: the only operation of the queue the batcher calls.
  \<open>enq t q c us\<close> is \<open>await queue.enqueue(c, us)\<close> at time \<open>t\<close>; it returns the new state of the
  sink or raises. \<open>stored\<close> is the set of (CDN, URL) pairs the sink holds in some job.
\<close>

locale enqueue_sink =
  fixes enq :: "real \<Rightarrow> 'q \<Rightarrow> string \<Rightarrow> string list \<Rightarrow> 'q res"
    and stored :: "'q \<Rightarrow> (string \<times> string) set"
  assumes enq_stored: "enq t q c us = Inr q' \<Longrightarrow> stored q' = stored q \<union> {c} \<times> set us"
begin

lemma enq_mono: "enq t q c us = Inr q' \<Longrightarrow> stored q \<subseteq> stored q'"
  by (auto simp: enq_stored)

lemma enq_has: "enq t q c us = Inr q' \<Longrightarrow> u \<in> set us \<Longrightarrow> (c, u) \<in> stored q'"
  by (auto simp: enq_stored)

lemma enq_other: "enq t q c us = Inr q' \<Longrightarrow> d \<noteq> c \<Longrightarrow> (d, u) \<in> stored q' \<longleftrightarrow> (d, u) \<in> stored q"
  by (auto simp: enq_stored)

end

end
