(* ===== verification/Job_Queue.thy ===== *)
theory Job_Queue
  imports Json_Text Sink
begin

text \<open>
  \<open>queue.py\<close>: the \<open>jobs\<close> table and the operations of \<open>PersistentQueue\<close> on it. A row of the table
  is \<open>job_row\<close>, the table with its AUTOINCREMENT counter is \<open>db\<close>, an SQL UPDATE is
  \<open>update_rows\<close> (the new table and \<open>rowcount\<close>). \<open>claim_ready\<close> is its SELECT (\<open>select_ready\<close>)
  followed by its conditional UPDATE (\<open>claim_update\<close>), so that the race of two claimers can be
  stated. Clock readings are arguments.
\<close>

section \<open>The table\<close>

datatype job_status = Pending | InFlight | Done | Failed

record job_row =
  row_id :: int
  row_cdn :: string
  urls_json :: string
  attempts :: int
  next_attempt_at :: real
  created_at :: real
  status :: job_status
  message :: "string option"

record job =
  job_id :: int
  job_cdn :: string
  job_urls :: "string list"
  job_attempts :: int
  job_next_attempt_at :: real
  job_created_at :: real
  job_state :: job_status

record db =
  rows :: "job_row list"
  last_id :: int

definition open_db :: "db option \<Rightarrow> db" where
  \<comment> \<open>\<open>CREATE TABLE IF NOT EXISTS\<close>: an existing table is kept\<close>
  "open_db d = (case d of None \<Rightarrow> \<lparr>rows = [], last_id = 0\<rparr> | Some t \<Rightarrow> t)"

definition update_rows :: "(job_row \<Rightarrow> bool) \<Rightarrow> (job_row \<Rightarrow> job_row) \<Rightarrow> db \<Rightarrow> db \<times> nat" where
  "update_rows P f d =
     (d\<lparr>rows := map (\<lambda>r. if P r then f r else r) (rows d)\<rparr>, length (filter P (rows d)))"

section \<open>Operations\<close>

definition enqueue :: "real \<Rightarrow> string \<Rightarrow> string list \<Rightarrow> db \<Rightarrow> db \<times> int" where
  "enqueue now c us d =
     (let i = last_id d + 1 in
        (d\<lparr>rows := rows d @ [\<lparr>row_id = i, row_cdn = c, urls_json = json_dumps us, attempts = 0,
             next_attempt_at = now, created_at = now, status = Pending, message = None\<rparr>],
           last_id := i\<rparr>, i))"

definition select_ready :: "real \<Rightarrow> string \<Rightarrow> db \<Rightarrow> job_row option" where
  "select_ready now c d =
     List.find (\<lambda>r. row_cdn r = c \<and> status r = Pending \<and> next_attempt_at r \<le> now)
       (sort_key row_id (rows d))"

definition claim_update :: "int \<Rightarrow> db \<Rightarrow> db \<times> nat" where
  "claim_update i = update_rows (\<lambda>r. row_id r = i \<and> status r = Pending) (\<lambda>r. r\<lparr>status := InFlight\<rparr>)"

definition claimed_job :: "job_row \<Rightarrow> job res" where
  "claimed_job r =
     (case json_loads (urls_json r) of
        None \<Rightarrow> Inl (ValueError ''json'')
      | Some us \<Rightarrow> Inr \<lparr>job_id = row_id r, job_cdn = row_cdn r, job_urls = us,
          job_attempts = attempts r, job_next_attempt_at = next_attempt_at r,
          job_created_at = created_at r, job_state = InFlight\<rparr>)"

definition claim_ready :: "real \<Rightarrow> string \<Rightarrow> db \<Rightarrow> db \<times> job option res" where
  "claim_ready now c d =
     (case select_ready now c d of
        None \<Rightarrow> (d, Inr None)
      | Some r \<Rightarrow>
          (case claim_update (row_id r) d of (d', n) \<Rightarrow>
             if n = 0 then (d', Inr None)
             else (d', bind_res (claimed_job r) (\<lambda>j. Inr (Some j)))))"

definition mark_done :: "int \<Rightarrow> db \<Rightarrow> db" where
  "mark_done i d = fst (update_rows (\<lambda>r. row_id r = i) (\<lambda>r. r\<lparr>status := Done\<rparr>) d)"

definition reschedule :: "int \<Rightarrow> int \<Rightarrow> real \<Rightarrow> db \<Rightarrow> db" where
  "reschedule i a t d =
     fst (update_rows (\<lambda>r. row_id r = i)
           (\<lambda>r. r\<lparr>status := Pending, attempts := a, next_attempt_at := t\<rparr>) d)"

definition mark_failed :: "int \<Rightarrow> string \<Rightarrow> db \<Rightarrow> db" where
  "mark_failed i msg d =
     fst (update_rows (\<lambda>r. row_id r = i) (\<lambda>r. r\<lparr>status := Failed, message := Some msg\<rparr>) d)"

definition reset_in_flight :: "db \<Rightarrow> db \<times> nat" where
  "reset_in_flight = update_rows (\<lambda>r. status r = InFlight) (\<lambda>r. r\<lparr>status := Pending\<rparr>)"

definition stats :: "db \<Rightarrow> job_status \<Rightarrow> nat option" where
  \<comment> \<open>\<open>GROUP BY status\<close> has no group for a status without rows\<close>
  "stats d s =
     (let n = length (filter (\<lambda>r. status r = s) (rows d)) in if n = 0 then None else Some n)"

definition exponential_backoff :: "int \<Rightarrow> real \<Rightarrow> real \<Rightarrow> real res" where
  \<comment> \<open>the product converts the integer \<open>2 ** (attempts - 1)\<close> to a float, which fails from \<open>2 ** 1024\<close> on\<close>
  "exponential_backoff n initial cap =
     (if n < 1 then Inl (ValueError ''attempts must be >= 1'')
      else if 1024 \<le> n - 1 then Inl OverflowError
      else Inr (min (initial * 2 ^ nat (n - 1)) cap))"

section \<open>Well-formed tables\<close>

definition wf_row :: "job_row \<Rightarrow> bool" where
  "wf_row r \<longleftrightarrow> 0 < row_id r \<and> (\<exists>us. urls_json r = json_dumps us)"

definition wf_db :: "db \<Rightarrow> bool" where
  "wf_db d \<longleftrightarrow> sorted_wrt (<) (map row_id (rows d)) \<and> 0 \<le> last_id d \<and>
     (\<forall>r \<in> set (rows d). row_id r \<le> last_id d \<and> wf_row r)"

text \<open>An update that leaves the immutable columns alone.\<close>

definition keeps_row :: "(job_row \<Rightarrow> job_row) \<Rightarrow> bool" where
  "keeps_row f \<longleftrightarrow> (\<forall>r. row_id (f r) = row_id r \<and> row_cdn (f r) = row_cdn r \<and>
     urls_json (f r) = urls_json r \<and> created_at (f r) = created_at r)"

lemma keeps_row_updates [simp]:
  "keeps_row (\<lambda>r. r\<lparr>status := s\<rparr>)"
  "keeps_row (\<lambda>r. r\<lparr>status := s, message := m\<rparr>)"
  "keeps_row (\<lambda>r. r\<lparr>status := s, attempts := a, next_attempt_at := t\<rparr>)"
  by (simp_all add: keeps_row_def)

lemma update_rows_sel:
  "rows (fst (update_rows P f d)) = map (\<lambda>r. if P r then f r else r) (rows d)"
  "last_id (fst (update_rows P f d)) = last_id d"
  by (simp_all add: update_rows_def)

lemma wf_update_rows:
  assumes "keeps_row f" "wf_db d"
  shows "wf_db (fst (update_rows P f d))"
proof -
  let ?g = "\<lambda>r. if P r then f r else r"
  have "map row_id (map ?g (rows d)) = map row_id (rows d)"
    using assms(1) by (simp add: keeps_row_def)
  moreover have "\<forall>r \<in> set (map ?g (rows d)). row_id r \<le> last_id d \<and> wf_row r"
    using assms by (auto simp: wf_db_def wf_row_def keeps_row_def)
  ultimately show ?thesis
    using assms(2) by (simp only: wf_db_def update_rows_sel)
qed

lemmas table_ops_defs = claim_update_def mark_done_def reschedule_def mark_failed_def reset_in_flight_def

lemma wf_updates:
  assumes "wf_db d"
  shows "wf_db (fst (claim_update i d))" "wf_db (mark_done i d)" "wf_db (reschedule i a t d)"
    "wf_db (mark_failed i msg d)" "wf_db (fst (reset_in_flight d))"
  using assms by (simp_all add: table_ops_defs wf_update_rows)

lemma fst_claim_ready:
  "fst (claim_ready now c d) =
     (case select_ready now c d of None \<Rightarrow> d | Some r \<Rightarrow> fst (claim_update (row_id r) d))"
  by (auto simp: claim_ready_def split: option.splits prod.splits)

lemma wf_claim_ready: "wf_db d \<Longrightarrow> wf_db (fst (claim_ready now c d))"
  by (auto simp: fst_claim_ready wf_updates split: option.splits)

lemma wf_enqueue: "wf_db d \<Longrightarrow> wf_db (fst (enqueue now c us d))"
  by (fastforce simp: enqueue_def wf_db_def wf_row_def Let_def sorted_wrt_append)

lemma wf_open: "wf_db (open_db None)"
  by (simp add: open_db_def wf_db_def)

lemma wf_distinct: "wf_db d \<Longrightarrow> distinct (map row_id (rows d))"
  by (simp add: wf_db_def strict_sorted_iff)

lemma wf_sort_id: "wf_db d \<Longrightarrow> sort_key row_id (rows d) = rows d"
  by (simp add: wf_db_def sort_key_id_if_sorted strict_sorted_iff)

section \<open>Looking a job up by its id\<close>

definition row_of :: "db \<Rightarrow> int \<Rightarrow> job_row option" where
  "row_of d i = map_of (map (\<lambda>r. (row_id r, r)) (rows d)) i"

lemma row_of_Some: "wf_db d \<Longrightarrow> row_of d i = Some r \<longleftrightarrow> r \<in> set (rows d) \<and> row_id r = i"
  by (auto simp: row_of_def map_of_eq_Some_iff wf_distinct o_def image_iff)

lemma row_of_id: "row_of d i = Some r \<Longrightarrow> row_id r = i \<and> r \<in> set (rows d)"
  by (auto simp: row_of_def dest: map_of_SomeD)

lemma row_of_update:
  assumes "keeps_row f"
  shows "row_of (fst (update_rows P f d)) i = map_option (\<lambda>r. if P r then f r else r) (row_of d i)"
proof -
  have "map_of (map (\<lambda>r. (row_id r, r)) (map (\<lambda>r. if P r then f r else r) xs)) i =
      map_option (\<lambda>r. if P r then f r else r) (map_of (map (\<lambda>r. (row_id r, r)) xs) i)" for xs
    using assms by (induction xs) (auto simp: keeps_row_def)
  then show ?thesis by (simp add: row_of_def update_rows_def)
qed

lemma row_of_ops:
  "row_of (fst (claim_update j d)) i =
     map_option (\<lambda>r. if i = j \<and> status r = Pending then r\<lparr>status := InFlight\<rparr> else r) (row_of d i)"
  "row_of (mark_done j d) i = map_option (\<lambda>r. if i = j then r\<lparr>status := Done\<rparr> else r) (row_of d i)"
  "row_of (reschedule j a t d) i =
     map_option (\<lambda>r. if i = j then r\<lparr>status := Pending, attempts := a, next_attempt_at := t\<rparr> else r)
       (row_of d i)"
  "row_of (mark_failed j msg d) i =
     map_option (\<lambda>r. if i = j then r\<lparr>status := Failed, message := Some msg\<rparr> else r) (row_of d i)"
  "row_of (fst (reset_in_flight d)) i =
     map_option (\<lambda>r. if status r = InFlight then r\<lparr>status := Pending\<rparr> else r) (row_of d i)"
  by (auto simp: table_ops_defs row_of_update dest: row_of_id intro!: option.map_cong)

lemma row_of_enqueue:
  assumes "wf_db d"
  shows "row_of (fst (enqueue now c us d)) =
    (row_of d)(last_id d + 1 \<mapsto> \<lparr>row_id = last_id d + 1, row_cdn = c, urls_json = json_dumps us,
       attempts = 0, next_attempt_at = now, created_at = now, status = Pending, message = None\<rparr>)"
proof -
  have "row_of d (last_id d + 1) = None"
    using assms by (force simp: row_of_def map_of_eq_None_iff wf_db_def)
  then show ?thesis
    by (auto simp: fun_eq_iff enqueue_def Let_def row_of_def map_add_def split: option.splits)
qed

section \<open>Claims\<close>

lemma select_ready_Some:
  assumes "wf_db d" "select_ready now c d = Some r"
  shows "row_of d (row_id r) = Some r" "row_cdn r = c" "status r = Pending" "next_attempt_at r \<le> now"
    "\<And>r'. r' \<in> set (rows d) \<Longrightarrow> row_cdn r' = c \<Longrightarrow> status r' = Pending \<Longrightarrow> next_attempt_at r' \<le> now \<Longrightarrow>
       row_id r \<le> row_id r'"
proof -
  have "sort_key row_id (rows d) = rows d" by (rule wf_sort_id [OF assms(1)])
  with find_sort_key_Some [of _ row_id "rows d" r] assms(2) obtain us vs where
    *: "rows d = us @ r # vs" "row_cdn r = c \<and> status r = Pending \<and> next_attempt_at r \<le> now"
    "\<forall>u \<in> set us. row_cdn u = c \<and> status u = Pending \<and> next_attempt_at u \<le> now \<longrightarrow> row_id r < row_id u"
    "\<forall>v \<in> set vs. row_cdn v = c \<and> status v = Pending \<and> next_attempt_at v \<le> now \<longrightarrow> row_id r \<le> row_id v"
    unfolding select_ready_def by blast
  from * show "row_cdn r = c" "status r = Pending" "next_attempt_at r \<le> now" by auto
  from *(1) show "row_of d (row_id r) = Some r" by (simp add: row_of_Some [OF assms(1)])
  fix r' assume "r' \<in> set (rows d)" "row_cdn r' = c" "status r' = Pending" "next_attempt_at r' \<le> now"
  with * show "row_id r \<le> row_id r'" by (auto intro: less_imp_le)
qed

lemma select_ready_None:
  "select_ready now c d = None \<longleftrightarrow>
     (\<forall>r \<in> set (rows d). \<not> (row_cdn r = c \<and> status r = Pending \<and> next_attempt_at r \<le> now))"
  by (auto simp: select_ready_def find_None_iff)

lemma filter_id: "distinct (map f xs) \<Longrightarrow> length (filter (\<lambda>x. f x = k \<and> P x) xs) \<le> 1"
  by (induction xs) (auto simp: filter_empty_conv image_iff)

lemma claim_update_count:
  assumes "wf_db d"
  shows "snd (claim_update i d) = (case row_of d i of Some r \<Rightarrow> if status r = Pending then 1 else 0 | None \<Rightarrow> 0)"
proof -
  have le: "length (filter (\<lambda>r. row_id r = i \<and> status r = Pending) (rows d)) \<le> 1"
    by (rule filter_id) (rule wf_distinct [OF assms])
  have "length (filter (\<lambda>r. row_id r = i \<and> status r = Pending) (rows d)) = 0 \<longleftrightarrow>
      \<not> (\<exists>r. row_of d i = Some r \<and> status r = Pending)"
    by (auto simp: filter_empty_conv row_of_Some [OF assms])
  with le have "length (filter (\<lambda>r. row_id r = i \<and> status r = Pending) (rows d)) =
      (if \<exists>r. row_of d i = Some r \<and> status r = Pending then 1 else 0)"
    by (auto simp del: length_0_conv simp: le_Suc_eq)
  then show ?thesis
    by (auto simp: claim_update_def update_rows_def split: option.splits)
qed

lemma claimed_job_wf: "wf_row r \<Longrightarrow> \<exists>us. urls_json r = json_dumps us \<and>
    claimed_job r = Inr \<lparr>job_id = row_id r, job_cdn = row_cdn r, job_urls = us, job_attempts = attempts r,
      job_next_attempt_at = next_attempt_at r, job_created_at = created_at r, job_state = InFlight\<rparr>"
  by (auto simp: wf_row_def claimed_job_def json_roundtrip)

lemma claim_ready_wf:
  assumes "wf_db d"
  shows "claim_ready now c d =
    (case select_ready now c d of
       None \<Rightarrow> (d, Inr None)
     | Some r \<Rightarrow> (fst (claim_update (row_id r) d), bind_res (claimed_job r) (\<lambda>j. Inr (Some j))))"
proof (cases "select_ready now c d")
  case (Some r)
  have "snd (claim_update (row_id r) d) = 1"
    using select_ready_Some [OF assms Some] by (simp add: claim_update_count [OF assms])
  with Some show ?thesis by (auto simp: claim_ready_def split: prod.splits)
qed (simp add: claim_ready_def)

section \<open>The queue as the batcher's sink\<close>

definition stored :: "db \<Rightarrow> (string \<times> string) set" where
  "stored d = (\<Union>r \<in> set (rows d). {row_cdn r} \<times> set (case json_loads (urls_json r) of None \<Rightarrow> [] | Some us \<Rightarrow> us))"

definition enqueue_sink_op :: "real \<Rightarrow> db \<Rightarrow> string \<Rightarrow> string list \<Rightarrow> db res" where
  "enqueue_sink_op now d c us = Inr (fst (enqueue now c us d))"

interpretation jq: enqueue_sink enqueue_sink_op stored
  by unfold_locales
     (auto simp: enqueue_sink_op_def enqueue_def stored_def Let_def json_roundtrip)

section \<open>Sequences of SQL statements\<close>

text \<open>
  The writes of the queue at the granularity at which coroutines interleave: one statement each.
  Between the SELECT and the UPDATE of a claim any other statements may run.
\<close>

datatype stmt =
    SEnqueue real string "string list"
  | SClaim int
  | SDone int
  | SReschedule int int real
  | SFail int string
  | SReset

fun exec :: "stmt \<Rightarrow> db \<Rightarrow> db" where
  "exec (SEnqueue now c us) d = fst (enqueue now c us d)"
| "exec (SClaim i) d = fst (claim_update i d)"
| "exec (SDone i) d = mark_done i d"
| "exec (SReschedule i a t) d = reschedule i a t d"
| "exec (SFail i msg) d = mark_failed i msg d"
| "exec SReset d = fst (reset_in_flight d)"

abbreviation exec_all :: "stmt list \<Rightarrow> db \<Rightarrow> db" where
  "exec_all ss d \<equiv> fold exec ss d"

lemma wf_exec: "wf_db d \<Longrightarrow> wf_db (exec s d)"
  by (cases s) (simp_all add: wf_updates wf_enqueue)

lemma wf_exec_all: "wf_db d \<Longrightarrow> wf_db (exec_all ss d)"
  by (induction ss arbitrary: d) (simp_all add: wf_exec)

lemma fresh_id: "wf_db d \<Longrightarrow> row_of d i = Some r \<Longrightarrow> i \<noteq> last_id d + 1"
  by (auto simp: row_of_Some wf_db_def)

definition same_job :: "job_row \<Rightarrow> job_row \<Rightarrow> bool" where
  "same_job r r' \<longleftrightarrow> row_id r' = row_id r \<and> row_cdn r' = row_cdn r \<and>
     urls_json r' = urls_json r \<and> created_at r' = created_at r"

lemma exec_keeps_job:
  "wf_db d \<Longrightarrow> row_of d i = Some r \<Longrightarrow> \<exists>r'. row_of (exec s d) i = Some r' \<and> same_job r r'"
  by (cases s) (auto simp: row_of_ops row_of_enqueue same_job_def dest: fresh_id)

lemma exec_not_pending:
  assumes "wf_db d" "row_of d i = Some r" "status r \<noteq> Pending"
    and "s \<noteq> SReset" "\<And>a t. s \<noteq> SReschedule i a t"
  shows "\<exists>r'. row_of (exec s d) i = Some r' \<and> status r' \<noteq> Pending"
  using assms by (cases s) (auto simp: row_of_ops row_of_enqueue dest: fresh_id)

text \<open>
  Every sequence of queue operations on a fresh database keeps the table well formed: ids are
  positive, strictly increasing and never exceed the AUTOINCREMENT counter, and every
  \<open>urls_json\<close> column is the encoding of a list of strings.
\<close>

lemma queue_well_formed:
  "sorted_wrt (<) (map row_id (rows (exec_all ss (open_db None)))) \<and>
   (\<forall>r \<in> set (rows (exec_all ss (open_db None))).
      0 < row_id r \<and> row_id r \<le> last_id (exec_all ss (open_db None)) \<and>
      json_loads (urls_json r) \<noteq> None)"
  using wf_exec_all [OF wf_open, of ss] by (auto simp: wf_db_def wf_row_def json_roundtrip)

text \<open>
  Durability: no operation deletes a job or changes its CDN, its URLs or its creation time,
  whatever the sequence of operations.
\<close>

lemma job_never_lost:
  assumes "wf_db d" "row_of d i = Some r"
  shows "\<exists>r'. row_of (exec_all ss d) i = Some r' \<and> row_cdn r' = row_cdn r \<and>
    urls_json r' = urls_json r \<and> created_at r' = created_at r"
proof -
  have "\<exists>r'. row_of (exec_all ss d) i = Some r' \<and> same_job r r'"
    using assms
  proof (induction ss arbitrary: d r)
    case (Cons s ss)
    from exec_keeps_job [OF Cons.prems, of s] obtain r1 where
      r1: "row_of (exec s d) i = Some r1" "same_job r r1" by blast
    from Cons.IH [OF wf_exec [OF Cons.prems(1)] r1(1)] r1(2) show ?case
      by (auto simp: same_job_def)
  qed (simp add: same_job_def)
  then show ?thesis by (auto simp: same_job_def)
qed

text \<open>
  Exclusive claim: once the conditional UPDATE of a claimer has marked a job, the UPDATE of any
  other claimer that selected the same job reports \<open>rowcount == 0\<close>, however other statements
  interleave, until the job is rescheduled or the startup recovery runs.
\<close>

lemma claim_exclusive:
  assumes "wf_db d" "snd (claim_update i d) = 1"
    and "SReset \<notin> set ss" "\<forall>a t. SReschedule i a t \<notin> set ss"
  shows "snd (claim_update i (exec_all ss (fst (claim_update i d)))) = 0"
proof -
  have np: "\<exists>r'. row_of (exec_all ss e) i = Some r' \<and> status r' \<noteq> Pending"
    if "wf_db e" "row_of e i = Some r" "status r \<noteq> Pending" for e r
    using that assms(3,4)
  proof (induction ss arbitrary: e r)
    case (Cons s ss)
    have "\<exists>r'. row_of (exec s e) i = Some r' \<and> status r' \<noteq> Pending"
      by (rule exec_not_pending [OF Cons.prems(1-3)]) (use Cons.prems in auto)
    then obtain r1 where "row_of (exec s e) i = Some r1" "status r1 \<noteq> Pending" by blast
    with Cons.IH [of "exec s e" r1] Cons.prems show ?case by (simp add: wf_exec)
  qed auto
  from assms(2) obtain r where r: "row_of d i = Some r" "status r = Pending"
    by (auto simp: claim_update_count [OF assms(1)] split: option.splits if_splits)
  have wf: "wf_db (fst (claim_update i d))" by (rule wf_updates [OF assms(1)])
  have "row_of (fst (claim_update i d)) i = Some (r\<lparr>status := InFlight\<rparr>)"
    using r by (simp add: row_of_ops)
  from np [OF wf this] wf show ?thesis
    by (auto simp: claim_update_count wf_exec_all)
qed

end
