(* ===== verification/Queue_Contract.thy ===== *)
theory Queue_Contract
  imports Job_Queue
begin

text \<open>
  What the persistent queue promises its callers: the contract of \<open>claim_ready\<close>, the round trip
  from \<open>enqueue\<close> to \<open>claim_ready\<close>, the startup recovery and the backoff schedule.
\<close>

section \<open>Claiming\<close>

definition ready :: "real \<Rightarrow> string \<Rightarrow> job_row \<Rightarrow> bool" where
  "ready now c r \<longleftrightarrow> row_cdn r = c \<and> status r = Pending \<and> next_attempt_at r \<le> now"

lemma claim_ready_None:
  "\<forall>r \<in> set (rows d). \<not> ready now c r \<Longrightarrow> claim_ready now c d = (d, Inr None)"
proof -
  assume "\<forall>r \<in> set (rows d). \<not> ready now c r"
  then have "select_ready now c d = None"
    by (simp add: select_ready_None ready_def)
  then show ?thesis by (simp add: claim_ready_def)
qed

definition claims_row :: "db \<Rightarrow> db \<Rightarrow> job_row \<Rightarrow> job \<Rightarrow> bool" where
  \<comment> \<open>\<open>j\<close> is row \<open>r\<close> of \<open>d\<close>, and \<open>d'\<close> is \<open>d\<close> with that row in flight\<close>
  "claims_row d d' r j \<longleftrightarrow> row_of d (job_id j) = Some r \<and> job_cdn j = row_cdn r \<and>
     json_loads (urls_json r) = Some (job_urls j) \<and> job_attempts j = attempts r \<and>
     row_of d' = (row_of d)(job_id j \<mapsto> r\<lparr>status := InFlight\<rparr>)"

lemma row_of_claimed:
  assumes "row_of d i = Some r" "status r = Pending"
  shows "row_of (fst (claim_update i d)) = (row_of d)(i \<mapsto> r\<lparr>status := InFlight\<rparr>)"
  using assms by (auto simp: fun_eq_iff row_of_ops map_option_case split: option.splits)

lemma claim_ready_Some:
  assumes "wf_db d" "select_ready now c d = Some r"
  shows "\<exists>j. claim_ready now c d = (fst (claim_update (row_id r) d), Inr (Some j)) \<and>
    claims_row d (fst (claim_update (row_id r) d)) r j"
proof -
  note sel = select_ready_Some [OF assms]
  have "wf_row r" using sel(1) assms(1) by (auto simp: row_of_Some wf_db_def)
  from claimed_job_wf [OF this] obtain us where
    us: "urls_json r = json_dumps us" and j: "claimed_job r = Inr \<lparr>job_id = row_id r, job_cdn = row_cdn r,
      job_urls = us, job_attempts = attempts r, job_next_attempt_at = next_attempt_at r,
      job_created_at = created_at r, job_state = InFlight\<rparr>" by blast
  with assms sel show ?thesis
    by (simp add: claim_ready_wf claims_row_def row_of_claimed json_roundtrip)
qed

text \<open>
  \<open>claim_ready\<close> on a well-formed table never raises. When no pending job of the CDN is due it
  returns nothing and changes nothing; otherwise it returns the due job with the least id, with the
  URLs that were enqueued, and marks exactly that row in flight.
\<close>

lemma claim_ready_contract:
  assumes "wf_db d"
  shows "case claim_ready now c d of
      (d', Inl e) \<Rightarrow> False
    | (d', Inr None) \<Rightarrow> d' = d \<and> (\<forall>r \<in> set (rows d). \<not> ready now c r)
    | (d', Inr (Some j)) \<Rightarrow> (\<exists>r. ready now c r \<and> claims_row d d' r j \<and>
        (\<forall>r' \<in> set (rows d). ready now c r' \<longrightarrow> job_id j \<le> row_id r'))"
proof (cases "select_ready now c d")
  case None
  then have "\<forall>r \<in> set (rows d). \<not> ready now c r"
    by (simp add: select_ready_None ready_def)
  then show ?thesis by (simp add: claim_ready_None)
next
  case (Some r)
  from claim_ready_Some [OF assms Some] obtain j where
    j: "claim_ready now c d = (fst (claim_update (row_id r) d), Inr (Some j))"
    "claims_row d (fst (claim_update (row_id r) d)) r j" by blast
  have "job_id j = row_id r" using j(2) by (auto simp: claims_row_def dest: row_of_id)
  with j select_ready_Some [OF assms Some] show ?thesis
    by (auto simp: ready_def)
qed

definition sample_db :: db where
  "sample_db = exec_all [SEnqueue 5 ''fastly'' [''https://x/a'', ''https://x/b''],
     SEnqueue 6 ''gcp'' [''https://x/a'']] (open_db None)"

lemma wf_sample: "wf_db sample_db"
  unfolding sample_db_def by (rule wf_exec_all [OF wf_open])

lemma sample_rows: "rows sample_db =
  [\<lparr>row_id = 1, row_cdn = ''fastly'', urls_json = json_dumps [''https://x/a'', ''https://x/b''],
    attempts = 0, next_attempt_at = 5, created_at = 5, status = Pending, message = None\<rparr>,
   \<lparr>row_id = 2, row_cdn = ''gcp'', urls_json = json_dumps [''https://x/a''],
    attempts = 0, next_attempt_at = 6, created_at = 6, status = Pending, message = None\<rparr>]"
  by (simp add: sample_db_def open_db_def enqueue_def)

text \<open>
  C37. Round trip: a batch enqueued for a CDN with nothing due is what the next claim for that CDN
  returns, with its id, its URLs in order and no attempt counted; a second claim returns nothing.
\<close>

theorem enqueue_claim_roundtrip:
  assumes "wf_db d" "\<forall>r \<in> set (rows d). \<not> ready t c r" "now \<le> t"
  shows "\<exists>d' j. claim_ready t c (fst (enqueue now c us d)) = (d', Inr (Some j)) \<and>
    job_id j = snd (enqueue now c us d) \<and> job_cdn j = c \<and> job_urls j = us \<and> job_attempts j = 0 \<and>
    claim_ready t c d' = (d', Inr None)"
proof -
  define e where "e = fst (enqueue now c us d)"
  have wf: "wf_db e" by (simp add: e_def wf_enqueue assms(1))
  obtain n where n: "rows e = rows d @ [n]" "ready t c n" "attempts n = 0"
      "urls_json n = json_dumps us" "row_id n = snd (enqueue now c us d)" "row_cdn n = c"
    using assms(3) by (simp add: e_def enqueue_def Let_def ready_def)
  then have "select_ready t c e \<noteq> None"
    by (auto simp: select_ready_None ready_def)
  then obtain r where r: "select_ready t c e = Some r" by blast
  have "r \<in> set (rows e)" "ready t c r"
    using select_ready_Some [OF wf r] by (auto simp: row_of_Some [OF wf] ready_def)
  with n assms(2) have rn: "r = n" by auto
  from claim_ready_Some [OF wf r] obtain j where
    j: "claim_ready t c e = (fst (claim_update (row_id r) e), Inr (Some j))"
    "claims_row e (fst (claim_update (row_id r) e)) r j" by blast
  define d' where "d' = fst (claim_update (row_id r) e)"
  have "\<forall>r' \<in> set (rows d'). \<not> ready t c r'"
    using n assms(2) by (auto simp: d'_def rn claim_update_def update_rows_sel ready_def)
  then have "claim_ready t c d' = (d', Inr None)"
    by (rule claim_ready_None)
  moreover have "job_id j = row_id n \<and> job_cdn j = c \<and> job_urls j = us \<and> job_attempts j = 0"
    using j(2) n rn by (auto simp: claims_row_def json_roundtrip dest: row_of_id)
  ultimately show ?thesis using j(1) n(5) by (auto simp: e_def [symmetric] d'_def)
qed

theorem enqueue_claim_roundtrip_witness:
  "\<exists>d' j. claim_ready 9 ''aws'' (fst (enqueue 8 ''aws'' [''https://x/c''] sample_db)) = (d', Inr (Some j)) \<and>
    job_id j = snd (enqueue 8 ''aws'' [''https://x/c''] sample_db) \<and> job_cdn j = ''aws'' \<and>
    job_urls j = [''https://x/c''] \<and> job_attempts j = 0 \<and> claim_ready 9 ''aws'' d' = (d', Inr None)"
  by (rule enqueue_claim_roundtrip [OF wf_sample]) (simp_all add: sample_rows ready_def)

section \<open>Recovery at startup\<close>

text \<open>
  Recovery: \<open>reset_in_flight\<close> leaves no job in flight, returns how many it moved, and turns
  each job that was in flight when the daemon stopped into a pending job with the same URLs,
  attempts and due time; every other job is untouched.
\<close>

lemma reset_recovers:
  "snd (reset_in_flight d) = length (filter (\<lambda>r. status r = InFlight) (rows d)) \<and>
   (\<forall>r. r \<in> set (rows (fst (reset_in_flight d))) \<longrightarrow> status r \<noteq> InFlight) \<and>
   row_of (fst (reset_in_flight d)) i =
     (case row_of d i of
        None \<Rightarrow> None
      | Some r \<Rightarrow> Some (if status r = InFlight then r\<lparr>status := Pending\<rparr> else r))"
  unfolding row_of_ops by (auto simp: reset_in_flight_def update_rows_def split: option.splits)

section \<open>Backoff\<close>

text \<open>
  The backoff schedule: for every attempt count up to 1024 the delay is
  \<open>initial * 2 ^ (attempts - 1)\<close> capped by the ceiling; the next delay is twice the last one
  capped again, so the delays never decrease and never exceed the ceiling.
\<close>

lemma backoff_schedule:
  assumes "1 \<le> n" "n < 1024" "0 \<le> initial" "0 \<le> cap"
  shows "\<exists>b b'. exponential_backoff n initial cap = Inr b \<and>
    exponential_backoff (n + 1) initial cap = Inr b' \<and>
    b = min (initial * 2 ^ nat (n - 1)) cap \<and> b' = min (2 * b) cap \<and> b \<le> b' \<and> b' \<le> cap"
proof -
  have "nat n = Suc (nat (n - 1))" using assms(1) by simp
  then have p: "initial * 2 ^ nat n = 2 * (initial * 2 ^ nat (n - 1))" by simp
  have "0 \<le> initial * 2 ^ nat (n - 1)" using assms(3) by simp
  with assms show ?thesis
    by (auto simp: exponential_backoff_def p min_def)
qed

text \<open>
  Where the backoff fails: below one attempt it raises ValueError, and from attempt 1025 on the
  conversion of \<open>2 ** (attempts - 1)\<close> to a float raises OverflowError instead of returning the
  ceiling, whatever the ceiling is; it returns a delay in every other case.
\<close>

lemma backoff_failures:
  "(exponential_backoff n initial cap = Inl OverflowError \<longleftrightarrow> 1025 \<le> n) \<and>
   (exponential_backoff n initial cap = Inl (ValueError ''attempts must be >= 1'') \<longleftrightarrow> n \<le> 0) \<and>
   ((\<exists>b. exponential_backoff n initial cap = Inr b) \<longleftrightarrow> 1 \<le> n \<and> n \<le> 1024)"
  by (auto simp: exponential_backoff_def)

end
