(* ===== verification/Queue_Race.thy ===== *)
theory Queue_Race
  imports Queue_Contract
begin

text \<open>
  \<open>claim_ready\<close> is two SQL statements with an \<open>await\<close> between them. The model of the workers claims in
  one step; this theory shows when that is the same, whatever the other tasks of the process do between
  the SELECT and the UPDATE, and what a second claimer of the same CDN could see.
\<close>

definition split_claim :: "real \<Rightarrow> string \<Rightarrow> stmt list \<Rightarrow> db \<Rightarrow> db \<times> job option res" where
  \<comment> \<open>the statements \<open>ss\<close> of other tasks run after the SELECT\<close>
  "split_claim now c ss d =
     (case select_ready now c d of
        None \<Rightarrow> (exec_all ss d, Inr None)
      | Some r \<Rightarrow>
          (case claim_update (row_id r) (exec_all ss d) of (d', n) \<Rightarrow>
             if n = 0 then (d', Inr None)
             else (d', bind_res (claimed_job r) (\<lambda>j. Inr (Some j)))))"

definition addresses :: "stmt \<Rightarrow> int option" where
  "addresses s = (case s of
     SClaim i \<Rightarrow> Some i | SDone i \<Rightarrow> Some i | SReschedule i a t \<Rightarrow> Some i | SFail i m \<Rightarrow> Some i | _ \<Rightarrow> None)"

definition other_cdn :: "string \<Rightarrow> db \<Rightarrow> stmt \<Rightarrow> bool" where
  \<comment> \<open>a statement of the batcher, or of a worker of another CDN\<close>
  "other_cdn c d s \<longleftrightarrow> s \<noteq> SReset \<and>
     (\<forall>i r. addresses s = Some i \<longrightarrow> row_of d i = Some r \<longrightarrow> row_cdn r \<noteq> c)"

lemma update_commute:
  assumes "\<And>r. P r \<Longrightarrow> \<not> Q r" "\<And>r. P r \<Longrightarrow> \<not> Q (f r)" "\<And>r. Q r \<Longrightarrow> \<not> P (g r)"
  shows "fst (update_rows P f (fst (update_rows Q g d))) = fst (update_rows Q g (fst (update_rows P f d)))"
  using assms by (auto simp: update_rows_def)

lemma exec_commute:
  assumes "wf_db d" "row_of d i = Some r" "addresses s \<noteq> Some i" "s \<noteq> SReset"
  shows "fst (claim_update i (exec s d)) = exec s (fst (claim_update i d))"
proof (cases s)
  case (SEnqueue now c us)
  have "i \<noteq> last_id d + 1" by (rule fresh_id [OF assms(1,2)])
  with SEnqueue show ?thesis
    by (simp add: claim_update_def update_rows_def enqueue_def Let_def)
qed (use assms(3,4) in \<open>auto simp: addresses_def table_ops_defs intro!: update_commute\<close>)

lemma exec_keeps_row:
  assumes "wf_db d" "row_of d i = Some r" "addresses s \<noteq> Some i" "s \<noteq> SReset"
  shows "row_of (exec s d) i = Some r"
  using assms fresh_id [OF assms(1,2)]
  by (cases s) (auto simp: row_of_ops row_of_enqueue addresses_def)

lemma exec_all_commute:
  "wf_db d \<Longrightarrow> row_of d i = Some r \<Longrightarrow> \<forall>s \<in> set ss. addresses s \<noteq> Some i \<and> s \<noteq> SReset \<Longrightarrow>
     fst (claim_update i (exec_all ss d)) = exec_all ss (fst (claim_update i d)) \<and> row_of (exec_all ss d) i = Some r"
proof (induction ss arbitrary: d)
  case (Cons s ss)
  then show ?case
    using exec_commute [of d i r s] exec_keeps_row [of d i r s] wf_exec [of d s] by simp
qed simp

text \<open>
  C17. Claiming in one step is exact: when the statements that run between the SELECT and the UPDATE of a
  claim are new batches of any CDN and any statements of the workers of other CDNs, the table and the
  result are those of an atomic claim at the SELECT, followed by the other statements.
\<close>

theorem claim_is_atomic:
  assumes "wf_db d" "\<forall>s \<in> set ss. other_cdn c d s"
  shows "split_claim now c ss d = (case claim_ready now c d of (d1, r) \<Rightarrow> (exec_all ss d1, r))"
proof (cases "select_ready now c d")
  case (Some r)
  note sel = select_ready_Some [OF assms(1) Some]
  have "\<forall>s \<in> set ss. addresses s \<noteq> Some (row_id r) \<and> s \<noteq> SReset"
    using assms(2) sel(1,2) by (auto simp: other_cdn_def)
  note com = exec_all_commute [OF assms(1) sel(1) this]
  have "snd (claim_update (row_id r) (exec_all ss d)) = 1"
    using com sel(3) by (simp add: claim_update_count wf_exec_all assms(1))
  with com Some show ?thesis
    by (auto simp: split_claim_def claim_ready_wf assms(1) split: prod.splits)
qed (simp add: split_claim_def claim_ready_wf assms(1))

theorem claim_is_atomic_witness:
  "split_claim 6 ''fastly'' [SEnqueue 6 ''fastly'' [''https://x/c''], SClaim 2, SDone 2] sample_db =
     (case claim_ready 6 ''fastly'' sample_db of
        (d1, r) \<Rightarrow> (exec_all [SEnqueue 6 ''fastly'' [''https://x/c''], SClaim 2, SDone 2] d1, r))"
  by (rule claim_is_atomic [OF wf_sample])
     (auto simp: other_cdn_def addresses_def row_of_def sample_rows)

text \<open>
  Two claimers of one CDN, which the program does not have, would not be safe: if the other one
  claims the job and reschedules it between the SELECT and the UPDATE, the UPDATE finds the row pending
  again, and the claim returns the job with its old attempts before its next attempt is due.
\<close>

lemma stale_claim:
  assumes "wf_db d" "select_ready now c d = Some r"
  shows "\<exists>d' j. split_claim now c [SClaim (row_id r), SReschedule (row_id r) (attempts r + 1) t] d = (d', Inr (Some j)) \<and>
    job_id j = row_id r \<and> job_attempts j = attempts r \<and>
    row_of d' (row_id r) = Some (r\<lparr>status := InFlight, attempts := attempts r + 1, next_attempt_at := t\<rparr>)"
proof -
  let ?i = "row_id r" and ?ss = "[SClaim (row_id r), SReschedule (row_id r) (attempts r + 1) t]"
  note sel = select_ready_Some [OF assms]
  have row: "row_of (exec_all ?ss d) ?i = Some (r\<lparr>status := Pending, attempts := attempts r + 1, next_attempt_at := t\<rparr>)"
    using sel(1,3) by (simp add: row_of_ops)
  then have n: "snd (claim_update ?i (exec_all ?ss d)) = 1"
    by (simp add: claim_update_count wf_updates assms(1))
  have "wf_row r" using sel(1) assms(1) by (auto simp: row_of_Some wf_db_def)
  from claimed_job_wf [OF this] obtain j where "claimed_job r = Inr j" "job_id j = ?i" "job_attempts j = attempts r"
    by auto
  moreover have "row_of (fst (claim_update ?i (exec_all ?ss d))) ?i =
      Some (r\<lparr>status := InFlight, attempts := attempts r + 1, next_attempt_at := t\<rparr>)"
    unfolding row_of_ops(1) row by simp
  ultimately show ?thesis
    using assms(2) n by (auto simp: split_claim_def split: prod.splits simp del: fold_simps)
qed

end
