(* ===== verification/Worker.thy ===== *)
theory Worker
  imports Queue_Contract Provider Config_Model
begin

text \<open>
  \<open>_queue_worker\<close> of \<open>daemon.py\<close> and the system its instances form: one worker per CDN over one
  persistent queue. One turn of a worker's loop is two actions: \<open>Poll\<close>, up to the call of the
  provider, and \<open>Settle\<close>, from the provider's answer to the next turn. Between them the other workers
  act, batches are put into the queue (\<open>Put\<close>) and the daemon may stop, wherever it is, and start again
  (\<open>Restart\<close>). An exception that leaves a worker cancels the whole task group (\<open>crashed\<close>): SQLite may
  raise in \<open>claim_ready\<close> (\<open>ClaimRaises\<close>) and in the operation that records a result (\<open>RecordRaises\<close>).
  A statement that raised, or whose commit raised, may still take effect, with the next commit of the
  shared connection: \<open>landed\<close> says whether it does. \<open>Abort\<close> is an exception of another task of the group.

  The provider is the parameter \<open>purge\<close> of the protocol \<open>cdn_provider\<close>, \<open>str\<close> is Python's \<open>str\<close> of an
  exception. The log lines are those of the code, without latencies.
\<close>

section \<open>Log lines\<close>

definition urls_field :: "nat \<Rightarrow> string list \<Rightarrow> string" where
  "urls_field k us =
     (if length us \<le> k then join_with '','' us
      else join_with '','' (take k us) @ '',+'' @ show_int (int (length us) - int k) @ ''-more'')"

definition urls_log_limit :: nat where
  "urls_log_limit = 5"

datatype log_line =
    PurgeAttempt string int nat int \<comment> \<open>CDN, job, batch size, attempt\<close>
  | PurgeOk string int nat string
  | PurgeRetry string int int real string string \<comment> \<open>CDN, job, attempt, backoff, message, URLs\<close>
  | PurgeFailed string int int string string
  | InFlightRecovered nat

section \<open>A turn of the loop\<close>

definition outcome_of :: "(exn \<Rightarrow> string) \<Rightarrow> purge_result res \<Rightarrow> purge_result" where
  "outcome_of str r = (case r of Inl e \<Rightarrow> failure True (''provider raised: '' @ str e) | Inr x \<Rightarrow> x)"

definition settle_job :: "retry_config \<Rightarrow> string \<Rightarrow> real \<Rightarrow> job \<Rightarrow> purge_result \<Rightarrow> db \<Rightarrow> (db \<times> log_line) res" where
  \<comment> \<open>what the worker does with a result; the backoff may raise\<close>
  "settle_job cfg c now j r d =
     (let attempt = job_attempts j + 1; us = urls_field urls_log_limit (job_urls j) in
        if ok r then Inr (mark_done (job_id j) d, PurgeOk c (job_id j) (length (job_urls j)) us)
        else if retryable r \<and> attempt < max_attempts cfg then
          bind_res (exponential_backoff attempt (initial_backoff_seconds cfg) (max_backoff_seconds cfg))
            (\<lambda>b. Inr (reschedule (job_id j) attempt (now + b) d, PurgeRetry c (job_id j) attempt b (result_message r) us))
        else Inr (mark_failed (job_id j) (result_message r) d,
               PurgeFailed c (job_id j) attempt (result_message r) us))"

section \<open>The system\<close>

record 'p system =
  store :: db
  providers :: "string \<Rightarrow> 'p option"
  in_hand :: "string \<Rightarrow> job option"
    \<comment> \<open>the job whose purge a worker awaits; after a crash, the claim its worker has left open\<close>
  crashed :: "exn option"
  lines :: "log_line list"

datatype 'w action =
    Poll string real
  | Settle string 'w real
  | Put string "string list" real
  | Restart
  | ClaimRaises string real bool exn
  | RecordRaises string 'w real bool exn
  | Abort exn

definition poll :: "string \<Rightarrow> real \<Rightarrow> 'p system \<Rightarrow> 'p system" where
  "poll c now s =
     (if providers s c = None \<or> in_hand s c \<noteq> None then s
      else (case claim_ready now c (store s) of
              (d, Inl e) \<Rightarrow> s\<lparr>store := d, crashed := Some e\<rparr>
            | (d, Inr None) \<Rightarrow> s\<lparr>store := d\<rparr>
            | (d, Inr (Some j)) \<Rightarrow>
                s\<lparr>store := d, in_hand := (in_hand s)(c \<mapsto> j),
                  lines := lines s @ [PurgeAttempt c (job_id j) (length (job_urls j)) (job_attempts j + 1)]\<rparr>))"

definition settle ::
  "('w \<Rightarrow> 'p \<Rightarrow> string list \<Rightarrow> 'p \<times> purge_result res) \<Rightarrow> (exn \<Rightarrow> string) \<Rightarrow> retry_config \<Rightarrow>
   string \<Rightarrow> 'w \<Rightarrow> real \<Rightarrow> 'p system \<Rightarrow> 'p system" where
  "settle purge str cfg c w now s =
     (case (in_hand s c, providers s c) of
        (Some j, Some p) \<Rightarrow>
          (case purge w p (job_urls j) of (p', r) \<Rightarrow>
             (case settle_job cfg c now j (outcome_of str r) (store s) of
                Inl e \<Rightarrow> s\<lparr>providers := (providers s)(c \<mapsto> p'), crashed := Some e\<rparr>
              | Inr (d, l) \<Rightarrow>
                  s\<lparr>store := d, providers := (providers s)(c \<mapsto> p'), in_hand := (in_hand s)(c := None),
                    lines := lines s @ [l]\<rparr>))
      | _ \<Rightarrow> s)"

definition claim_raises :: "string \<Rightarrow> real \<Rightarrow> bool \<Rightarrow> exn \<Rightarrow> 'p system \<Rightarrow> 'p system" where
  \<comment> \<open>\<open>claim_ready\<close> raises: no attempt is logged, no provider called\<close>
  "claim_raises c now landed e s =
     (if providers s c = None \<or> in_hand s c \<noteq> None then s
      else if landed then (poll c now s)\<lparr>lines := lines s, crashed := Some e\<rparr>
      else s\<lparr>crashed := Some e\<rparr>)"

definition record_raises ::
  "('w \<Rightarrow> 'p \<Rightarrow> string list \<Rightarrow> 'p \<times> purge_result res) \<Rightarrow> (exn \<Rightarrow> string) \<Rightarrow> retry_config \<Rightarrow>
   string \<Rightarrow> 'w \<Rightarrow> real \<Rightarrow> bool \<Rightarrow> exn \<Rightarrow> 'p system \<Rightarrow> 'p system" where
  \<comment> \<open>the provider has answered and the result is logged; \<open>mark_done\<close>, \<open>reschedule\<close> or \<open>mark_failed\<close> raises\<close>
  "record_raises purge str cfg c w now landed e s =
     (case (in_hand s c, providers s c) of
        (Some j, Some p) \<Rightarrow>
          (case purge w p (job_urls j) of (p', r) \<Rightarrow>
             (case settle_job cfg c now j (outcome_of str r) (store s) of
                Inl e' \<Rightarrow> s\<lparr>providers := (providers s)(c \<mapsto> p'), crashed := Some e'\<rparr>
              | Inr (d, l) \<Rightarrow>
                  s\<lparr>store := (if landed then d else store s), providers := (providers s)(c \<mapsto> p'),
                    in_hand := (if landed then (in_hand s)(c := None) else in_hand s),
                    crashed := Some e, lines := lines s @ [l]\<rparr>))
      | _ \<Rightarrow> s)"

definition boot :: "(string \<Rightarrow> 'p option) \<Rightarrow> db \<Rightarrow> log_line list \<Rightarrow> 'p system" where
  \<comment> \<open>the start of \<open>run\<close>: open the queue, recover, build the providers\<close>
  "boot fresh d ls =
     (case reset_in_flight (open_db (Some d)) of (d', n) \<Rightarrow>
        \<lparr>store = d', providers = fresh, in_hand = Map.empty, crashed = None,
         lines = (if n = 0 then ls else ls @ [InFlightRecovered n])\<rparr>)"

fun sys_step ::
  "('w \<Rightarrow> 'p \<Rightarrow> string list \<Rightarrow> 'p \<times> purge_result res) \<Rightarrow> (exn \<Rightarrow> string) \<Rightarrow> retry_config \<Rightarrow>
   (string \<Rightarrow> 'p option) \<Rightarrow> 'w action \<Rightarrow> 'p system \<Rightarrow> 'p system" where
  "sys_step purge str cfg fresh Restart s = boot fresh (store s) (lines s)"
| "sys_step purge str cfg fresh (Poll c now) s = (if crashed s = None then poll c now s else s)"
| "sys_step purge str cfg fresh (Settle c w now) s =
     (if crashed s = None then settle purge str cfg c w now s else s)"
| "sys_step purge str cfg fresh (Put c us now) s =
     s\<lparr>store := fst (enqueue now c us (store s))\<rparr>"
| "sys_step purge str cfg fresh (ClaimRaises c now landed e) s =
     (if crashed s = None then claim_raises c now landed e s else s)"
| "sys_step purge str cfg fresh (RecordRaises c w now landed e) s =
     (if crashed s = None then record_raises purge str cfg c w now landed e s else s)"
| "sys_step purge str cfg fresh (Abort e) s = (if crashed s = None then s\<lparr>crashed := Some e\<rparr> else s)"

fun sys_run ::
  "('w \<Rightarrow> 'p \<Rightarrow> string list \<Rightarrow> 'p \<times> purge_result res) \<Rightarrow> (exn \<Rightarrow> string) \<Rightarrow> retry_config \<Rightarrow>
   (string \<Rightarrow> 'p option) \<Rightarrow> 'w action list \<Rightarrow> 'p system \<Rightarrow> 'p system" where
  "sys_run purge str cfg fresh [] s = s"
| "sys_run purge str cfg fresh (a # as) s = sys_run purge str cfg fresh as (sys_step purge str cfg fresh a s)"

lemma sys_run_append:
  "sys_run purge str cfg fresh (as @ bs) s = sys_run purge str cfg fresh bs (sys_run purge str cfg fresh as s)"
  by (induction as arbitrary: s) simp_all

section \<open>The effect of an action\<close>

text \<open>A job in hand is in flight, with what it was claimed with; whatever is in flight is in hand.\<close>

definition holds :: "db \<Rightarrow> string \<Rightarrow> job \<Rightarrow> bool" where
  "holds d c j \<longleftrightarrow> (\<exists>r. row_of d (job_id j) = Some r \<and> status r = InFlight \<and> row_cdn r = c \<and>
     attempts r = job_attempts j \<and> json_loads (urls_json r) = Some (job_urls j))"

definition sys_inv :: "'p system \<Rightarrow> bool" where
  "sys_inv s \<longleftrightarrow> wf_db (store s) \<and> (\<forall>c j. in_hand s c = Some j \<longrightarrow> holds (store s) c j) \<and>
     (\<forall>i r. row_of (store s) i = Some r \<longrightarrow> status r = InFlight \<longrightarrow>
        (\<exists>j. in_hand s (row_cdn r) = Some j \<and> job_id j = i))"

lemma sys_invD:
  assumes "sys_inv s"
  shows "wf_db (store s)" "in_hand s c = Some j \<Longrightarrow> holds (store s) c j"
    "row_of (store s) i = Some r \<Longrightarrow> status r = InFlight \<Longrightarrow> \<exists>j. in_hand s (row_cdn r) = Some j \<and> job_id j = i"
  using assms by (auto simp: sys_inv_def)

text \<open>\<open>poll\<close> either changes nothing or takes a due job.\<close>

lemma poll_cases:
  assumes "sys_inv s"
  obtains (idle) "poll c now s = s"
  | (claim) j r where "providers s c \<noteq> None" "in_hand s c = None" "row_of (store s) (job_id j) = Some r"
      "ready now c r" "job_attempts j = attempts r" "json_loads (urls_json r) = Some (job_urls j)"
      "row_of (store (poll c now s)) = (row_of (store s))(job_id j \<mapsto> r\<lparr>status := InFlight\<rparr>)"
      "poll c now s = s\<lparr>store := fst (claim_update (job_id j) (store s)), in_hand := (in_hand s)(c \<mapsto> j),
         lines := lines s @ [PurgeAttempt c (job_id j) (length (job_urls j)) (job_attempts j + 1)]\<rparr>"
proof (cases "providers s c = None \<or> in_hand s c \<noteq> None")
  case True
  then show ?thesis by (intro idle) (simp add: poll_def)
next
  case False
  note wf = sys_invD(1) [OF assms]
  show ?thesis
  proof (cases "select_ready now c (store s)")
    case None
    then show ?thesis using False by (intro idle) (simp add: poll_def claim_ready_def)
  next
    case (Some r)
    note sel = select_ready_Some [OF wf Some]
    from claim_ready_Some [OF wf Some] obtain j where
      j: "claim_ready now c (store s) = (fst (claim_update (row_id r) (store s)), Inr (Some j))"
      "claims_row (store s) (fst (claim_update (row_id r) (store s))) r j" by blast
    have id: "job_id j = row_id r" using j(2) by (auto simp: claims_row_def dest: row_of_id)
    have p: "poll c now s = s\<lparr>store := fst (claim_update (job_id j) (store s)), in_hand := (in_hand s)(c \<mapsto> j),
         lines := lines s @ [PurgeAttempt c (job_id j) (length (job_urls j)) (job_attempts j + 1)]\<rparr>"
      using False j(1) by (auto simp: poll_def id)
    show ?thesis
      by (rule claim [OF _ _ _ _ _ _ _ p])
         (use False j(2) sel in \<open>auto simp: p claims_row_def ready_def id\<close>)
  qed
qed

text \<open>What a failed statement leaves, in terms of the actions that do not fail.\<close>

lemma claim_raises_cases:
  obtains (idle) "claim_raises c now landed e s = s"
  | (lost) "claim_raises c now landed e s = s\<lparr>crashed := Some e\<rparr>"
  | (kept) "claim_raises c now landed e s = (poll c now s)\<lparr>lines := lines s, crashed := Some e\<rparr>"
proof (cases "providers s c = None \<or> in_hand s c \<noteq> None")
  case True
  then show thesis by (intro idle) (simp add: claim_raises_def)
next
  case False
  with lost kept show thesis by (cases landed) (auto simp: claim_raises_def)
qed

lemma record_raises_cases:
  obtains (idle) "record_raises purge str cfg c w now landed e s = settle purge str cfg c w now s"
  | (lost) p' l where "record_raises purge str cfg c w now landed e s =
        s\<lparr>providers := p', crashed := Some e, lines := lines s @ [l]\<rparr>"
      "lines (settle purge str cfg c w now s) = lines s @ [l]"
  | (kept) "record_raises purge str cfg c w now landed e s = (settle purge str cfg c w now s)\<lparr>crashed := Some e\<rparr>"
proof (cases "in_hand s c")
  case None
  then show thesis by (intro idle) (simp add: record_raises_def settle_def)
next
  case (Some j)
  show thesis
  proof (cases "providers s c")
    case None
    with Some show thesis by (intro idle) (simp add: record_raises_def settle_def)
  next
    case p: (Some p)
    obtain p' r where r: "purge w p (job_urls j) = (p', r)" by fastforce
    show thesis
    proof (cases "settle_job cfg c now j (outcome_of str r) (store s)")
      case (Inl e')
      with Some p r show thesis by (intro idle) (simp add: record_raises_def settle_def)
    next
      case (Inr dl)
      with Some p r lost kept show thesis
        by (cases landed; cases dl) (auto simp: record_raises_def settle_def)
    qed
  qed
qed

lemma settle_job_db:
  assumes "settle_job cfg c now j r d = Inr (d', l)"
  shows "wf_db d \<Longrightarrow> wf_db d'" "last_id d' = last_id d"
    "\<exists>f. keeps_row f \<and> d' = fst (update_rows (\<lambda>x. row_id x = job_id j) f d) \<and>
       (if ok r then (\<forall>x. status (f x) = Done \<and> attempts (f x) = attempts x)
        else if retryable r \<and> job_attempts j + 1 < max_attempts cfg
        then (\<forall>x. status (f x) = Pending \<and> attempts (f x) = job_attempts j + 1 \<and>
               next_attempt_at (f x) \<le> now + max_backoff_seconds cfg)
        else (\<forall>x. status (f x) = Failed \<and> attempts (f x) = attempts x \<and> message (f x) = Some (result_message r)))"
proof -
  note s = assms [unfolded settle_job_def Let_def]
  show "wf_db d \<Longrightarrow> wf_db d'" "last_id d' = last_id d"
    using s by (auto simp: wf_updates table_ops_defs update_rows_sel wf_update_rows bind_res_eq_Inr split: if_splits)
  show "\<exists>f. keeps_row f \<and> d' = fst (update_rows (\<lambda>x. row_id x = job_id j) f d) \<and>
       (if ok r then (\<forall>x. status (f x) = Done \<and> attempts (f x) = attempts x)
        else if retryable r \<and> job_attempts j + 1 < max_attempts cfg
        then (\<forall>x. status (f x) = Pending \<and> attempts (f x) = job_attempts j + 1 \<and>
               next_attempt_at (f x) \<le> now + max_backoff_seconds cfg)
        else (\<forall>x. status (f x) = Failed \<and> attempts (f x) = attempts x \<and> message (f x) = Some (result_message r)))"
  proof (cases "ok r")
    case True
    with s show ?thesis
      by (intro exI [of _ "\<lambda>x. x\<lparr>status := Done\<rparr>"]) (simp add: mark_done_def)
  next
    case False
    show ?thesis
    proof (cases "retryable r \<and> job_attempts j + 1 < max_attempts cfg")
      case True
      with False s obtain b where b: "d' = reschedule (job_id j) (job_attempts j + 1) (now + b) d"
        "exponential_backoff (job_attempts j + 1) (initial_backoff_seconds cfg) (max_backoff_seconds cfg) = Inr b"
        by (auto simp: bind_res_eq_Inr)
      then have "b \<le> max_backoff_seconds cfg" by (auto simp: exponential_backoff_def split: if_splits)
      with True False b(1) show ?thesis
        by (intro exI [of _ "\<lambda>x. x\<lparr>status := Pending, attempts := job_attempts j + 1, next_attempt_at := now + b\<rparr>"])
           (simp add: reschedule_def)
    next
      case False': False
      with False s show ?thesis
        by (intro exI [of _ "\<lambda>x. x\<lparr>status := Failed, message := Some (result_message r)\<rparr>"])
           (auto simp: mark_failed_def)
    qed
  qed
qed

end
