(* ===== verification/Worker_Lifecycle.thy ===== *)
theory Worker_Lifecycle
  imports Worker
begin

text \<open>
  The invariant of the system of workers, and its refinement of the life cycle of a job: what the
  table of \<open>docs/architecture.md\<close> calls pending, in flight, done and failed.
\<close>

section \<open>Settling in terms of rows\<close>

definition settled_row :: "retry_config \<Rightarrow> real \<Rightarrow> job \<Rightarrow> purge_result \<Rightarrow> job_row \<Rightarrow> job_row \<Rightarrow> bool" where
  "settled_row cfg now j r x y \<longleftrightarrow> row_id y = row_id x \<and> row_cdn y = row_cdn x \<and> urls_json y = urls_json x \<and>
     (if ok r then status y = Done \<and> attempts y = attempts x
      else if retryable r \<and> job_attempts j + 1 < max_attempts cfg
      then status y = Pending \<and> attempts y = job_attempts j + 1 \<and> next_attempt_at y \<le> now + max_backoff_seconds cfg
      else status y = Failed \<and> attempts y = attempts x \<and> message y = Some (result_message r))"

lemma settled_row_id: "settled_row cfg now j r x y \<Longrightarrow> row_id y = row_id x \<and> row_cdn y = row_cdn x"
  by (simp add: settled_row_def)

lemma settled_row_status: "settled_row cfg now j r x y \<Longrightarrow> status y \<noteq> InFlight"
  by (auto simp: settled_row_def split: if_splits)

lemma settle_cases:
  assumes "sys_inv s"
  obtains (idle) "settle purge str cfg c w now s = s"
  | (crash) p' e where "settle purge str cfg c w now s = s\<lparr>providers := p', crashed := Some e\<rparr>"
  | (settle) j p p' r d l x y where "in_hand s c = Some j" "providers s c = Some p" "purge w p (job_urls j) = (p', r)"
      "settle purge str cfg c w now s = s\<lparr>store := d, providers := (providers s)(c \<mapsto> p'),
         in_hand := (in_hand s)(c := None), lines := lines s @ [l]\<rparr>"
      "settle_job cfg c now j (outcome_of str r) (store s) = Inr (d, l)"
      "wf_db d" "last_id d = last_id (store s)"
      "row_of (store s) (job_id j) = Some x" "status x = InFlight" "row_cdn x = c" "attempts x = job_attempts j"
      "json_loads (urls_json x) = Some (job_urls j)"
      "row_of d = (row_of (store s))(job_id j \<mapsto> y)" "settled_row cfg now j (outcome_of str r) x y"
proof (cases "in_hand s c")
  case None
  then show ?thesis by (intro idle) (simp add: settle_def)
next
  case (Some j)
  show ?thesis
  proof (cases "providers s c")
    case None
    with Some show ?thesis by (intro idle) (simp add: settle_def)
  next
    case p: (Some p)
    obtain p' r where r: "purge w p (job_urls j) = (p', r)" by fastforce
    show ?thesis
    proof (cases "settle_job cfg c now j (outcome_of str r) (store s)")
      case (Inl e)
      with Some p r show ?thesis by (intro crash) (simp add: settle_def)
    next
      case (Inr dl)
      obtain d l where dl: "dl = (d, l)" by (cases dl)
      note sj = Inr [unfolded dl]
      have h: "holds (store s) c j" by (rule sys_invD(2) [OF assms Some])
      then obtain x where x: "row_of (store s) (job_id j) = Some x" "status x = InFlight" "row_cdn x = c"
        "attempts x = job_attempts j" "json_loads (urls_json x) = Some (job_urls j)" by (auto simp: holds_def)
      from settle_job_db(3) [OF sj] obtain f where f: "keeps_row f"
        "d = fst (update_rows (\<lambda>x. row_id x = job_id j) f (store s))"
        "settled_row cfg now j (outcome_of str r) x (f x)"
        by (auto simp: settled_row_def keeps_row_def)
      have "row_of d = (row_of (store s))(job_id j \<mapsto> f x)"
        unfolding f(2) fun_eq_iff row_of_update [OF f(1)]
        using x(1) by (auto simp: map_option_case dest: row_of_id split: option.splits)
      with settle [OF Some p r _ sj _ _ x _ f(3)] settle_job_db(1,2) [OF sj] sys_invD(1) [OF assms]
      show ?thesis using Some p r sj by (simp add: settle_def)
    qed
  qed
qed

section \<open>The invariant\<close>

lemma boot_sel:
  "row_of (store (boot fresh d ls)) i =
     map_option (\<lambda>r. if status r = InFlight then r\<lparr>status := Pending\<rparr> else r) (row_of d i)"
  "in_hand (boot fresh d ls) = Map.empty" "crashed (boot fresh d ls) = None"
  "providers (boot fresh d ls) = fresh" "last_id (store (boot fresh d ls)) = last_id d"
  using row_of_ops(5) [of d i]
  by (auto simp: boot_def open_db_def reset_in_flight_def update_rows_def split: prod.splits)

lemma boot_wf: "wf_db d \<Longrightarrow> wf_db (store (boot fresh d ls))"
  using wf_updates(5) [of d] by (auto simp: boot_def open_db_def split: prod.splits)

lemma boot_status:
  assumes "row_of (store (boot fresh d ls)) i = Some r"
  shows "status r \<noteq> InFlight"
proof -
  from assms obtain x where "r = (if status x = InFlight then x\<lparr>status := Pending\<rparr> else x)"
    by (auto simp: boot_sel)
  then show ?thesis by simp
qed

lemma boot_inv: "wf_db d \<Longrightarrow> sys_inv (boot fresh d ls)"
  using boot_status [of fresh d ls] by (auto simp: sys_inv_def boot_wf boot_sel(2))

lemma poll_inv:
  assumes "sys_inv s"
  shows "sys_inv (poll c now s)"
proof (cases rule: poll_cases [OF assms, of c now])
  case 2: (2 j r)
  let ?s = "poll c now s"
  have r: "row_cdn r = c" "status r = Pending" using 2(4) by (simp_all add: ready_def)
  have in_hand: "in_hand ?s = (in_hand s)(c \<mapsto> j)" by (simp add: 2(8))
  have other: "job_id j' \<noteq> job_id j" if "in_hand s c' = Some j'" for c' j'
    using sys_invD(2) [OF assms that] 2(3) r(2) by (auto simp: holds_def)
  have "holds (store ?s) c' j'" if "in_hand ?s c' = Some j'" for c' j'
  proof (cases "c' = c")
    case True
    with that have "j' = j" by (simp add: in_hand)
    with True r 2(5,6) show ?thesis by (simp add: holds_def 2(7))
  next
    case False
    with that have "in_hand s c' = Some j'" by (simp add: in_hand)
    with sys_invD(2) [OF assms this] other [OF this] show ?thesis by (simp add: holds_def 2(7))
  qed
  moreover have "\<exists>j'. in_hand ?s (row_cdn r') = Some j' \<and> job_id j' = i"
    if r': "row_of (store ?s) i = Some r'" "status r' = InFlight" for i r'
  proof (cases "i = job_id j")
    case True
    with r' r(1) show ?thesis by (auto simp: 2(7) in_hand)
  next
    case False
    with r' have "row_of (store s) i = Some r'" by (simp add: 2(7))
    from sys_invD(3) [OF assms this r'(2)] obtain j' where "in_hand s (row_cdn r') = Some j'" "job_id j' = i" by blast
    with 2(2) show ?thesis by (auto simp: in_hand)
  qed
  moreover have "wf_db (store ?s)" using sys_invD(1) [OF assms] by (simp add: 2(8) wf_updates)
  ultimately show ?thesis by (simp add: sys_inv_def)
qed (simp add: assms)

lemma settle_inv:
  assumes "sys_inv s"
  shows "sys_inv (settle purge str cfg c w now s)"
proof (cases rule: settle_cases [OF assms, of purge str cfg c w now])
  case 2: (2 p' e)
  with assms show ?thesis by (simp add: sys_inv_def)
next
  case 3: (3 j p p' r d l x y)
  have y: "status y \<noteq> InFlight" by (rule settled_row_status [OF 3(14)])
  have other: "job_id j' \<noteq> job_id j" if "in_hand s c' = Some j'" "c' \<noteq> c" for c' j'
    using sys_invD(2) [OF assms that(1)] that(2) 3(8,10) by (auto simp: holds_def)
  have "holds d c' j'" if "in_hand s c' = Some j'" "c' \<noteq> c" for c' j'
    using sys_invD(2) [OF assms that(1)] other [OF that] 3(13) by (auto simp: holds_def)
  moreover have "\<exists>j'. ((in_hand s)(c := None)) (row_cdn r') = Some j' \<and> job_id j' = i"
    if r': "row_of d i = Some r'" "status r' = InFlight" for i r'
  proof -
    have "i \<noteq> job_id j" using r' y 3(13) by auto
    with r' 3(13) have "row_of (store s) i = Some r'" by simp
    from sys_invD(3) [OF assms this r'(2)] obtain j' where "in_hand s (row_cdn r') = Some j'" "job_id j' = i" by blast
    with \<open>i \<noteq> job_id j\<close> 3(1) show ?thesis by auto
  qed
  ultimately show ?thesis using 3(6) by (simp add: sys_inv_def 3(4))
qed (simp add: assms)

lemma put_row:
  assumes "wf_db d"
  shows "row_of d (last_id d + 1) = None"
    "\<exists>r. row_of (fst (enqueue now c us d)) = (row_of d)(last_id d + 1 \<mapsto> r) \<and> status r = Pending \<and>
       attempts r = 0 \<and> row_cdn r = c \<and> next_attempt_at r = now"
  using assms row_of_enqueue [OF assms, of now c us]
  by (force simp: row_of_def map_of_eq_None_iff wf_db_def)+

lemma put_inv:
  assumes "sys_inv s"
  shows "sys_inv (s\<lparr>store := fst (enqueue now c us (store s))\<rparr>)"
proof -
  note wf = sys_invD(1) [OF assms]
  from put_row(2) [OF wf] obtain r where
    r: "row_of (fst (enqueue now c us (store s))) = (row_of (store s))(last_id (store s) + 1 \<mapsto> r)" "status r = Pending"
    by blast
  have "job_id j \<noteq> last_id (store s) + 1" if "in_hand s c' = Some j" for c' j
    using sys_invD(2) [OF assms that] put_row(1) [OF wf] by (auto simp: holds_def)
  with r assms show ?thesis
    by (auto simp: sys_inv_def wf_enqueue holds_def split: if_splits)
qed

lemma sys_inv_cong: "store s' = store s \<Longrightarrow> in_hand s' = in_hand s \<Longrightarrow> sys_inv s' = sys_inv s"
  by (simp add: sys_inv_def)

lemma claim_raises_inv: "sys_inv s \<Longrightarrow> sys_inv (claim_raises c now landed e s)"
  by (cases rule: claim_raises_cases [of c now landed e s])
     (simp_all add: sys_inv_cong [of "(poll c now s)\<lparr>lines := lines s, crashed := Some e\<rparr>" "poll c now s"]
       sys_inv_cong [of "s\<lparr>crashed := Some e\<rparr>" s] poll_inv)

lemma record_raises_inv: "sys_inv s \<Longrightarrow> sys_inv (record_raises purge str cfg c w now landed e s)"
proof (cases rule: record_raises_cases [of purge str cfg c w now landed e s])
  case (lost p' l)
  then show "sys_inv s \<Longrightarrow> ?thesis" using sys_inv_cong [of "record_raises purge str cfg c w now landed e s" s] by simp
next
  case kept
  then show "sys_inv s \<Longrightarrow> ?thesis"
    using settle_inv [of s purge str cfg c w now]
      sys_inv_cong [of "(settle purge str cfg c w now s)\<lparr>crashed := Some e\<rparr>" "settle purge str cfg c w now s"] by simp
qed (simp add: settle_inv)

lemma sys_step_inv: "sys_inv s \<Longrightarrow> sys_inv (sys_step purge str cfg fresh a s)"
  by (cases a)
     (simp_all add: poll_inv settle_inv put_inv boot_inv sys_invD(1) claim_raises_inv record_raises_inv
       sys_inv_cong [of "s\<lparr>crashed := Some _\<rparr>" s])

lemma sys_run_inv: "sys_inv s \<Longrightarrow> sys_inv (sys_run purge str cfg fresh as s)"
  by (induction as arbitrary: s) (simp_all add: sys_step_inv)

section \<open>The life of a job\<close>

datatype phase = Waiting int | Trying int | Delivered | Abandoned

inductive life :: "int \<Rightarrow> phase option \<Rightarrow> phase option \<Rightarrow> bool" for m where
  life_put: "life m None (Some (Waiting 0))"
| life_try: "life m (Some (Waiting n)) (Some (Trying n))"
| life_deliver: "life m (Some (Trying n)) (Some Delivered)"
| life_retry: "n + 1 < m \<Longrightarrow> life m (Some (Trying n)) (Some (Waiting (n + 1)))"
| life_abandon: "life m (Some (Trying n)) (Some Abandoned)"

inductive_cases life_DeliveredE: "life m (Some Delivered) x"
inductive_cases life_AbandonedE: "life m (Some Abandoned) x"

fun recovered :: "phase \<Rightarrow> phase" where
  "recovered (Trying n) = Waiting n"
| "recovered ph = ph"

text \<open>One job moves at a time; a restart puts all jobs being tried back.\<close>

inductive lifecycle :: "int \<Rightarrow> (int \<Rightarrow> phase option) \<Rightarrow> (int \<Rightarrow> phase option) \<Rightarrow> bool" for m where
  one_job: "life m (f i) x \<Longrightarrow> lifecycle m f (f(i := x))"
| restart: "lifecycle m f (\<lambda>i. map_option recovered (f i))"

fun phase_of :: "job_row \<Rightarrow> phase" where
  "phase_of r = (case status r of
     Pending \<Rightarrow> Waiting (attempts r) | InFlight \<Rightarrow> Trying (attempts r) | Done \<Rightarrow> Delivered | Failed \<Rightarrow> Abandoned)"

definition phases :: "'p system \<Rightarrow> int \<Rightarrow> phase option" where
  "phases s i = map_option phase_of (row_of (store s) i)"

lemma phases_update:
  assumes "row_of (store s') = (row_of (store s))(i \<mapsto> r)"
  shows "phases s' = (phases s)(i := Some (phase_of r))"
  using assms by (auto simp: phases_def fun_eq_iff)

lemma poll_refines:
  assumes "sys_inv s"
  shows "(lifecycle m)\<^sup>=\<^sup>= (phases s) (phases (poll c now s))"
proof (cases rule: poll_cases [OF assms, of c now])
  case 2: (2 j r)
  have "phases (poll c now s) = (phases s)(job_id j := Some (phase_of (r\<lparr>status := InFlight\<rparr>)))"
    by (rule phases_update [OF 2(7)])
  moreover have "life m (phases s (job_id j)) (Some (phase_of (r\<lparr>status := InFlight\<rparr>)))"
    using 2(3,4) by (simp add: phases_def ready_def life_try)
  ultimately show ?thesis by (simp add: one_job)
qed simp

lemma settle_refines:
  assumes "sys_inv s"
  shows "(lifecycle (max_attempts cfg))\<^sup>=\<^sup>= (phases s) (phases (settle purge str cfg c w now s))"
proof (cases rule: settle_cases [OF assms, of purge str cfg c w now])
  case 2: (2 p' e)
  then show ?thesis by (simp add: phases_def fun_eq_iff)
next
  case 3: (3 j p p' r d l x y)
  have "phases (settle purge str cfg c w now s) = (phases s)(job_id j := Some (phase_of y))"
    by (rule phases_update) (simp add: 3(4,13))
  moreover have "phases s (job_id j) = Some (Trying (job_attempts j))" using 3(8,9,11) by (simp add: phases_def)
  moreover have "life (max_attempts cfg) (Some (Trying (job_attempts j))) (Some (phase_of y))"
    using 3(14) by (auto simp: settled_row_def intro: life.intros split: if_splits)
  ultimately show ?thesis by (auto intro: one_job [of _ "phases s" "job_id j", simplified])
qed simp

lemma phases_cong: "store s' = store s \<Longrightarrow> phases s' = phases s"
  by (simp add: phases_def fun_eq_iff)

lemma step_refines:
  assumes "sys_inv s"
  shows "(lifecycle (max_attempts cfg))\<^sup>=\<^sup>= (phases s) (phases (sys_step purge str cfg fresh a s))"
proof (cases a)
  case (Settle c w now)
  then show ?thesis using settle_refines [OF assms, of cfg purge str c w now] by simp
next
  case (Put c us now)
  note wf = sys_invD(1) [OF assms]
  from put_row(2) [OF wf] obtain r where
    r: "row_of (fst (enqueue now c us (store s))) = (row_of (store s))(last_id (store s) + 1 \<mapsto> r)"
    "status r = Pending" "attempts r = 0" by blast
  have "phases (s\<lparr>store := fst (enqueue now c us (store s))\<rparr>) = (phases s)(last_id (store s) + 1 := Some (phase_of r))"
    by (rule phases_update) (simp add: r(1))
  moreover have "life (max_attempts cfg) (phases s (last_id (store s) + 1)) (Some (phase_of r))"
    using put_row(1) [OF wf] r(2,3) by (simp add: phases_def life_put)
  ultimately show ?thesis by (simp add: Put one_job)
next
  case Restart
  have "phases (boot fresh (store s) (lines s)) = (\<lambda>i. map_option recovered (phases s i))"
    by (auto simp: fun_eq_iff phases_def boot_sel option.map_comp intro!: option.map_cong split: job_status.splits)
  with Restart show ?thesis by (simp add: restart)
next
  case (ClaimRaises c now landed e)
  have "(lifecycle (max_attempts cfg))\<^sup>=\<^sup>= (phases s) (phases (claim_raises c now landed e s))"
    using poll_refines [OF assms, of "max_attempts cfg" c now]
      phases_cong [of "(poll c now s)\<lparr>lines := lines s, crashed := Some e\<rparr>" "poll c now s"]
      phases_cong [of "s\<lparr>crashed := Some e\<rparr>" s]
    by (cases rule: claim_raises_cases [of c now landed e s]) simp_all
  then show ?thesis by (simp add: ClaimRaises)
next
  case (RecordRaises c w now landed e)
  have "(lifecycle (max_attempts cfg))\<^sup>=\<^sup>= (phases s) (phases (record_raises purge str cfg c w now landed e s))"
  proof (cases rule: record_raises_cases [of purge str cfg c w now landed e s])
    case (lost p' l)
    then show ?thesis using phases_cong [of "record_raises purge str cfg c w now landed e s" s] by simp
  next
    case kept
    then show ?thesis
      using settle_refines [OF assms, of cfg purge str c w now]
        phases_cong [of "(settle purge str cfg c w now s)\<lparr>crashed := Some e\<rparr>" "settle purge str cfg c w now s"]
      by simp
  qed (simp add: settle_refines [OF assms, simplified])
  then show ?thesis by (simp add: RecordRaises)
next
  case (Abort e)
  then show ?thesis by (simp add: phases_cong [of "s\<lparr>crashed := Some e\<rparr>" s])
qed (use poll_refines [OF assms] in simp)

end
