(* ===== verification/Cloudfront.thy ===== *)
theory Cloudfront
  imports Provider Web_Url
begin

text \<open>
  \<open>CloudFrontProvider\<close> of \<open>providers/cloudfront.py\<close>: one \<open>create_invalidation\<close> call with the sorted
  set of the paths of the batch. boto3 is the parameter \<open>cf_world\<close>: what constructing a client from
  its keyword arguments and what the call on it raise, if anything.
\<close>

datatype aws_error =
    NoCredentialsError string
  | PartialCredentialsError string
  | ClientError "string option" string \<comment> \<open>\<open>response["Error"]["Code"]\<close> where there is one\<close>
  | BotoCoreError string
  | OtherException string

type_synonym client_args = "(string \<times> string option) list"

record cf_request =
  cf_distribution :: string
  cf_quantity :: nat
  cf_items :: "string list"
  cf_reference :: string

record cloudfront =
  c_distribution_id :: string
  c_region :: string
  c_access_key_id :: "string option"
  c_secret_access_key :: "string option"
  c_client :: "client_args option"

record cf_world =
  w_time_ns :: int
  w_connect :: "client_args \<Rightarrow> aws_error option"
  w_create :: "client_args \<Rightarrow> cf_request \<Rightarrow> aws_error option"

definition init_cloudfront :: "string \<Rightarrow> string \<Rightarrow> string option \<Rightarrow> string option \<Rightarrow> cloudfront" where
  "init_cloudfront did reg key secret =
     \<lparr>c_distribution_id = did, c_region = reg, c_access_key_id = key, c_secret_access_key = secret, c_client = None\<rparr>"

definition retryable_codes :: "string list" where
  "retryable_codes = [''Throttling'', ''ThrottlingException'', ''RequestLimitExceeded'',
     ''TooManyRequestsException'', ''ServiceUnavailable'', ''ServiceUnavailableException'',
     ''TooManyInvalidationsInProgress'', ''InternalFailure'', ''InternalServerError'']"

definition client_args_of :: "cloudfront \<Rightarrow> client_args" where
  "client_args_of p =
     (''region_name'', Some (c_region p)) #
     (case c_access_key_id p of
        None \<Rightarrow> []
      | Some k \<Rightarrow> [(''aws_access_key_id'', Some k), (''aws_secret_access_key'', c_secret_access_key p)])"

definition get_client :: "cf_world \<Rightarrow> cloudfront \<Rightarrow> cloudfront \<times> (aws_error + client_args)" where
  "get_client w p =
     (case c_client p of
        Some c \<Rightarrow> (p, Inr c)
      | None \<Rightarrow>
          (case w_connect w (client_args_of p) of
             Some e \<Rightarrow> (p, Inl e)
           | None \<Rightarrow> (p\<lparr>c_client := Some (client_args_of p)\<rparr>, Inr (client_args_of p))))"

fun aws_failure :: "aws_error \<Rightarrow> purge_result" where
  "aws_failure (NoCredentialsError m) = failure False (''auth: '' @ m)"
| "aws_failure (PartialCredentialsError m) = failure False (''auth: '' @ m)"
| "aws_failure (ClientError c m) =
     (let code = (case c of None \<Rightarrow> [] | Some x \<Rightarrow> x)
      in failure (List.member retryable_codes code) (code @ '': '' @ m))"
| "aws_failure (BotoCoreError m) = failure True (''botocore: '' @ m)"
| "aws_failure (OtherException m) = failure True (''transport: '' @ m)"

definition url_path :: "url_parts \<Rightarrow> string" where
  "url_path q = (if u_path q = [] then ''/'' else u_path q)"

definition cf_paths :: "string list \<Rightarrow> string list res" where
  "cf_paths us = bind_res (map_res urlparse us) (\<lambda>qs. Inr (sort (remdups (map url_path qs))))"

definition cf_request_of :: "cf_world \<Rightarrow> cloudfront \<Rightarrow> string list \<Rightarrow> cf_request" where
  "cf_request_of w p paths =
     \<lparr>cf_distribution = c_distribution_id p, cf_quantity = length paths, cf_items = paths,
      cf_reference = ''mirror-mirage-'' @ show_int (w_time_ns w)\<rparr>"

definition cloudfront_purge :: "cf_world \<Rightarrow> cloudfront \<Rightarrow> string list \<Rightarrow> cloudfront \<times> purge_result res" where
  "cloudfront_purge w p us =
     (if us = [] then (p, Inr (success ''empty''))
      else (case cf_paths us of
              Inl e \<Rightarrow> (p, Inl e)
            | Inr paths \<Rightarrow>
                (case get_client w p of
                   (p', Inl e) \<Rightarrow> (p', Inr (aws_failure e))
                 | (p', Inr c) \<Rightarrow>
                     (case w_create w c (cf_request_of w p' paths) of
                        Some e \<Rightarrow> (p', Inr (aws_failure e))
                      | None \<Rightarrow> (p', Inr (success ''ok''))))))"

section \<open>Acceptance\<close>

definition cloudfront_accepted :: "cf_world \<Rightarrow> cloudfront \<Rightarrow> string list \<Rightarrow> string set" where
  \<comment> \<open>the path of this URL is in an invalidation that was accepted\<close>
  "cloudfront_accepted w p us =
     {u. \<exists>q c r. urlparse u = Inr q \<and> w_create w c r = None \<and> cf_distribution r = c_distribution_id p \<and>
       url_path q \<in> set (cf_items r)}"

lemma aws_failure_not_ok [simp]: "\<not> ok (aws_failure e)"
  by (cases e) (simp_all add: Let_def)

lemma cf_paths_Inr:
  assumes "cf_paths us = Inr ps"
  shows "sorted ps" "distinct ps" "u \<in> set us \<Longrightarrow> \<exists>q. urlparse u = Inr q \<and> url_path q \<in> set ps"
    "x \<in> set ps \<Longrightarrow> \<exists>u q. u \<in> set us \<and> urlparse u = Inr q \<and> x = url_path q"
proof -
  from assms obtain qs where qs: "map_res urlparse us = Inr qs" "ps = sort (remdups (map url_path qs))"
    by (auto simp: cf_paths_def bind_res_eq_Inr)
  note q = map_res_InrD [OF qs(1)]
  show "sorted ps" "distinct ps" using qs(2) by simp_all
  show "\<exists>q. urlparse u = Inr q \<and> url_path q \<in> set ps" if "u \<in> set us"
  proof -
    from that obtain i where "i < length us" "us ! i = u" by (auto simp: in_set_conv_nth)
    with q have "urlparse u = Inr (qs ! i)" "qs ! i \<in> set qs" by auto
    then show ?thesis by (auto simp: qs(2))
  qed
  show "\<exists>u q. u \<in> set us \<and> urlparse u = Inr q \<and> x = url_path q" if "x \<in> set ps"
  proof -
    from that obtain y where "y \<in> set qs" "x = url_path y" by (auto simp: qs(2))
    then obtain i where "i < length qs" "x = url_path (qs ! i)" by (auto simp: in_set_conv_nth)
    with q have "us ! i \<in> set us" "urlparse (us ! i) = Inr (qs ! i)" by auto
    with \<open>x = url_path (qs ! i)\<close> show ?thesis by blast
  qed
qed

lemma get_client_distribution: "get_client w p = (p', r) \<Longrightarrow> c_distribution_id p' = c_distribution_id p"
  by (auto simp: get_client_def split: option.splits)

lemma cloudfront_ok_accepted:
  assumes "cloudfront_purge w p us = (p', Inr r)" "ok r"
  shows "set us \<subseteq> cloudfront_accepted w p us"
proof
  fix u assume u: "u \<in> set us"
  then have ne: "us \<noteq> []" by auto
  from assms ne obtain paths where ps: "cf_paths us = Inr paths"
    by (auto simp: cloudfront_purge_def split: sum.splits)
  obtain p1 c where g: "get_client w p = (p1, c)" by fastforce
  from assms ne ps g obtain c' where c: "c = Inr c'" "w_create w c' (cf_request_of w p1 paths) = None"
    by (cases c) (auto simp: cloudfront_purge_def split: option.splits)
  from cf_paths_Inr(3) [OF ps u] obtain q where "urlparse u = Inr q" "url_path q \<in> set paths" by auto
  with c get_client_distribution [OF g] show "u \<in> cloudfront_accepted w p us"
    unfolding cloudfront_accepted_def
    by (auto simp: cf_request_of_def intro!: exI [of _ c'] exI [of _ "cf_request_of w p1 paths"])
qed

interpretation cloudfront: cdn_provider cloudfront_purge cloudfront_accepted
  by unfold_locales (rule cloudfront_ok_accepted)

section \<open>Batches\<close>

definition aws_severity :: "aws_error option \<Rightarrow> severity" where
  \<comment> \<open>what an outcome of boto3 means: nothing fixes missing credentials or a rejected request\<close>
  "aws_severity x = (case x of
     None \<Rightarrow> Accepted
   | Some (NoCredentialsError _) \<Rightarrow> Terminal
   | Some (PartialCredentialsError _) \<Rightarrow> Terminal
   | Some (ClientError c _) \<Rightarrow>
       if c \<in> Some ` {''Throttling'', ''ThrottlingException'', ''RequestLimitExceeded'', ''TooManyRequestsException'',
           ''ServiceUnavailable'', ''ServiceUnavailableException'', ''TooManyInvalidationsInProgress'',
           ''InternalFailure'', ''InternalServerError''}
       then Retry else Terminal
   | Some _ \<Rightarrow> Retry)"

lemma aws_failure_severity: "severity (aws_failure e) = aws_severity (Some e)"
  by (cases e) (auto simp: aws_severity_def Let_def severity_def retryable_codes_def split: option.splits)

text \<open>
  C28. A CloudFront batch of ordinary URLs becomes one invalidation whose items are the distinct paths
  of the batch in order, with their number as the quantity. It is sent through the client the provider
  keeps, and while it has none through a new one with the configured credentials, which is then kept
  for the batches that follow; a client that cannot be constructed is not. The call never raises, and
  its result is the class of what constructing the client, or else the call, answered.
\<close>

theorem cloudfront_batch:
  assumes "ts \<noteq> []" "\<forall>t \<in> set ts. plain_target t"
  shows "\<exists>r items. sorted items \<and> distinct items \<and> set items = (\<lambda>(s, h, x). x) ` set ts \<and>
    (let request = \<lparr>cf_distribution = c_distribution_id p, cf_quantity = card ((\<lambda>(s, h, x). x) ` set ts),
           cf_items = items, cf_reference = ''mirror-mirage-'' @ show_int (w_time_ns w)\<rparr>;
         new = (''region_name'', Some (c_region p)) #
           (case c_access_key_id p of None \<Rightarrow> []
            | Some k \<Rightarrow> [(''aws_access_key_id'', Some k), (''aws_secret_access_key'', c_secret_access_key p)])
     in case c_client p of
          Some c \<Rightarrow> cloudfront_purge w p (map target_str ts) = (p, Inr r) \<and>
            severity r = aws_severity (w_create w c request)
        | None \<Rightarrow> (case w_connect w new of
            Some e \<Rightarrow> cloudfront_purge w p (map target_str ts) = (p, Inr r) \<and> severity r = aws_severity (Some e)
          | None \<Rightarrow> cloudfront_purge w p (map target_str ts) = (p\<lparr>c_client := Some new\<rparr>, Inr r) \<and>
              severity r = aws_severity (w_create w new request)))"
proof -
  define q where "q = (\<lambda>(s, h, x). \<lparr>u_scheme = s, u_netloc = h, u_path = x, u_params = [], u_query = [], u_fragment = []\<rparr>)"
  define items where "items = sort (remdups (map (\<lambda>(s, h, x). x) ts))"
  have q: "urlparse (target_str t) = Inr (q t) \<and> url_path (q t) = (case t of (s, h, x) \<Rightarrow> x)" if "t \<in> set ts" for t
  proof -
    obtain s h x where t: "t = (s, h, x)" by (cases t)
    with that assms(2) have "web_scheme s" "plain_host h" "plain_path x" by (auto simp: plain_target_def)
    moreover from this have "x \<noteq> []" by (simp add: plain_path_def) (cases x; simp)
    ultimately show ?thesis by (simp add: t q_def urlparse_plain url_path_def)
  qed
  have "map_res urlparse (map target_str ts) = Inr (map q ts)"
    using q by (induction ts) simp_all
  moreover have "map url_path (map q ts) = map (\<lambda>(s, h, x). x) ts" using q by simp
  ultimately have paths: "cf_paths (map target_str ts) = Inr items"
    by (simp only: cf_paths_def bind_res_simps items_def)
  have items: "sorted items" "distinct items" "set items = (\<lambda>(s, h, x). x) ` set ts"
    by (simp_all add: items_def)
  then have n: "length items = card ((\<lambda>(s, h, x). x) ` set ts)" by (metis distinct_card)
  define args where "args = (case c_client p of Some c \<Rightarrow> c | None \<Rightarrow> client_args_of p)"
  define p1 where "p1 = (case c_client p of Some c \<Rightarrow> p | None \<Rightarrow> p\<lparr>c_client := Some args\<rparr>)"
  define failed where "failed = (case c_client p of Some c \<Rightarrow> None | None \<Rightarrow> w_connect w args)"
  define request where "request = \<lparr>cf_distribution = c_distribution_id p, cf_quantity = card ((\<lambda>(s, h, x). x) ` set ts),
      cf_items = items, cf_reference = ''mirror-mirage-'' @ show_int (w_time_ns w)\<rparr>"
  have client: "get_client w p = (case failed of Some e \<Rightarrow> (p, Inl e) | None \<Rightarrow> (p1, Inr args))"
    by (simp add: get_client_def args_def p1_def failed_def split: option.split)
  have req: "cf_request_of w p1 items = request"
    using n by (simp add: cf_request_of_def request_def p1_def split: option.split)
  obtain r where r: "cloudfront_purge w p (map target_str ts) = (if failed = None then p1 else p, Inr r)"
    "severity r = aws_severity (case failed of Some e \<Rightarrow> Some e | None \<Rightarrow> w_create w args request)"
  proof (cases failed)
    case (Some e)
    with assms(1) paths client that [of "aws_failure e"] show ?thesis
      by (simp add: cloudfront_purge_def aws_failure_severity)
  next
    case None
    note connected = this
    show ?thesis
    proof (cases "w_create w args request")
      case None
      with connected assms(1) paths client that [of "success ''ok''"] show ?thesis
        by (simp add: cloudfront_purge_def req aws_severity_def)
    next
      case (Some e)
      with connected assms(1) paths client that [of "aws_failure e"] show ?thesis
        by (simp add: cloudfront_purge_def req aws_failure_severity)
    qed
  qed
  have new: "client_args_of p = (''region_name'', Some (c_region p)) #
      (case c_access_key_id p of None \<Rightarrow> []
       | Some k \<Rightarrow> [(''aws_access_key_id'', Some k), (''aws_secret_access_key'', c_secret_access_key p)])"
    by (simp add: client_args_of_def)
  show ?thesis
  proof (intro exI conjI, fact items(1), fact items(2), fact items(3), unfold Let_def new [symmetric] request_def [symmetric])
    show "case c_client p of
          Some c \<Rightarrow> cloudfront_purge w p (map target_str ts) = (p, Inr r) \<and> severity r = aws_severity (w_create w c request)
        | None \<Rightarrow> (case w_connect w (client_args_of p) of
            Some e \<Rightarrow> cloudfront_purge w p (map target_str ts) = (p, Inr r) \<and> severity r = aws_severity (Some e)
          | None \<Rightarrow> cloudfront_purge w p (map target_str ts) = (p\<lparr>c_client := Some (client_args_of p)\<rparr>, Inr r) \<and>
              severity r = aws_severity (w_create w (client_args_of p) request))"
      using r by (cases "c_client p"; cases "w_connect w (client_args_of p)")
        (simp_all add: failed_def args_def p1_def)
  qed
qed

definition sample_cloudfront :: cloudfront where
  "sample_cloudfront = init_cloudfront ''dist'' ''us-east-1'' None None"

definition busy_aws :: cf_world where
  "busy_aws = \<lparr>w_time_ns = 7, w_connect = (\<lambda>a. None),
     w_create = (\<lambda>a r. if cf_items r = [''/a'', ''/alma/9''] \<and> cf_quantity r = 2
        then Some (ClientError (Some ''Throttling'') []) else None)\<rparr>"

theorem cloudfront_batch_witness:
  \<comment> \<open>a first batch, which is throttled, and one more through the client that it left\<close>
  "let q = sample_cloudfront\<lparr>c_client := Some [(''region_name'', Some ''us-east-1'')]\<rparr> in
    (\<exists>r. cloudfront_purge busy_aws sample_cloudfront
      [''https://repo.x/alma/9'', ''https://repo.x/a'', ''https://repo.x/alma/9''] = (q, Inr r) \<and> severity r = Retry) \<and>
    (\<exists>r. cloudfront_purge busy_aws q [''https://repo.x/a''] = (q, Inr r) \<and> severity r = Accepted)"
proof -
  let ?ts = "[(''https'', ''repo.x'', ''/alma/9''), (''https'', ''repo.x'', ''/a''), (''https'', ''repo.x'', ''/alma/9'')]"
  let ?us = "[(''https'', ''repo.x'', ''/a'')]"
  let ?q = "sample_cloudfront\<lparr>c_client := Some [(''region_name'', Some ''us-east-1'')]\<rparr>"
  have t: "\<forall>t \<in> set ?ts. plain_target t" "\<forall>t \<in> set ?us. plain_target t"
    using plain_examples by (simp_all add: plain_target_def)
  have ne: "?ts \<noteq> []" "?us \<noteq> []" by simp_all
  have set: "(\<lambda>(s, h, x). x) ` set ?ts = {''/alma/9'', ''/a''}" "(\<lambda>(s, h, x). x) ` set ?us = {''/a''}" by auto
  have card: "card {''/alma/9'', ''/a''} = 2" by simp
  have p: "c_client sample_cloudfront = None" "c_region sample_cloudfront = ''us-east-1''"
    "c_access_key_id sample_cloudfront = None"
    by (simp_all add: sample_cloudfront_def init_cloudfront_def)
  have connect: "w_connect busy_aws a = None" for a by (simp add: busy_aws_def)
  from cloudfront_batch [OF ne(1) t(1), of sample_cloudfront busy_aws] obtain r items where
    r: "cloudfront_purge busy_aws sample_cloudfront (map target_str ?ts) = (?q, Inr r)"
      "sorted items" "distinct items" "set items = {''/alma/9'', ''/a''}"
      "severity r = aws_severity (w_create busy_aws [(''region_name'', Some ''us-east-1'')]
         \<lparr>cf_distribution = c_distribution_id sample_cloudfront, cf_quantity = 2, cf_items = items,
          cf_reference = ''mirror-mirage-'' @ show_int (w_time_ns busy_aws)\<rparr>)"
    unfolding set card connect p Let_def option.case by (elim exE conjE) (rule that)
  have "sorted [''/a'', ''/alma/9'']" by code_simp
  moreover have "distinct [''/a'', ''/alma/9'']" by simp
  moreover have "set items = set [''/a'', ''/alma/9'']" unfolding r(4) by auto
  ultimately have items: "items = [''/a'', ''/alma/9'']"
    by (rule sorted_distinct_set_unique [OF r(2,3)])
  have retry: "severity r = Retry"
    unfolding r(5) items by (simp add: busy_aws_def aws_severity_def)
  have ts: "map target_str ?ts = [''https://repo.x/alma/9'', ''https://repo.x/a'', ''https://repo.x/alma/9'']"
    by (simp add: web_url_def)
  define q where "q = ?q"
  then have c: "c_client q = Some [(''region_name'', Some ''us-east-1'')]" by simp
  from cloudfront_batch [OF ne(2) t(2), of q busy_aws] obtain r' items' where
    r': "cloudfront_purge busy_aws q (map target_str ?us) = (q, Inr r')" "set items' = {''/a''}"
      "severity r' = aws_severity (w_create busy_aws [(''region_name'', Some ''us-east-1'')]
         \<lparr>cf_distribution = c_distribution_id q, cf_quantity = card {''/a''}, cf_items = items',
          cf_reference = ''mirror-mirage-'' @ show_int (w_time_ns busy_aws)\<rparr>)"
    unfolding set c Let_def option.case by (elim exE conjE) (rule that)
  have "items' \<noteq> [''/a'', ''/alma/9'']"
  proof
    assume "items' = [''/a'', ''/alma/9'']"
    then have "''/alma/9'' \<in> set items'" by simp
    then show False unfolding r'(2) by simp
  qed
  then have accepted: "severity r' = Accepted" unfolding r'(3) by (simp add: busy_aws_def aws_severity_def)
  have us: "map target_str ?us = [''https://repo.x/a'']" by (simp add: web_url_def)
  show ?thesis
    unfolding Let_def
    by (intro conjI exI [of _ r] exI [of _ r'] r(1) [unfolded ts] r'(1) [unfolded us q_def] retry accepted)
qed

end
