(* ===== verification/Provider_Table.thy ===== *)
theory Provider_Table
  imports Fastly Gcp Cloudfront
begin

text \<open>
  \<open>providers/__init__.py\<close>: one provider per CDN of the configuration. A provider of any kind purges
  in a \<open>provider_world\<close>, which holds a world for each kind.
\<close>

datatype provider =
    DryRunProvider dry_run
  | FastlyProvider fastly
  | CloudFrontProvider cloudfront
  | GcpCdnProvider gcp

definition required :: "string \<Rightarrow> (string, string) pydict \<Rightarrow> string res" where
  \<comment> \<open>\<open>creds[k]\<close>\<close>
  "required k creds = (case map_of creds k of None \<Rightarrow> Inl (KeyError k) | Some v \<Rightarrow> Inr v)"

fun new_provider :: "(string, string) pydict \<Rightarrow> cdn_config \<Rightarrow> provider res" where
  "new_provider creds (FastlyCdn sid expand) =
     bind_res (required ''api_token'' creds) (\<lambda>token. Inr (FastlyProvider (init_fastly sid token expand)))"
| "new_provider creds (CloudFrontCdn did reg) =
     Inr (CloudFrontProvider (init_cloudfront did reg (map_of creds ''access_key_id'') (map_of creds ''secret_access_key'')))"
| "new_provider creds (GcpCdnConfig prj um quota) =
     bind_res (required ''service_account_file'' creds)
       (\<lambda>sa. Inr (GcpCdnProvider (init_gcp prj um (path_str (parse_path sa)) quota)))"

definition credentials_of :: "config \<Rightarrow> string \<Rightarrow> (string, string) pydict" where
  "credentials_of cfg name = (case map_of (credentials cfg) name of None \<Rightarrow> [] | Some c \<Rightarrow> c)"

definition build_provider :: "config \<Rightarrow> bool \<Rightarrow> string \<times> cdn_config \<Rightarrow> (string \<times> provider) res" where
  "build_provider cfg dry = (\<lambda>(name, c).
     if dry then Inr (name, DryRunProvider \<lparr>d_cdn_name = name, d_wrapped_type = cdn_type c\<rparr>)
     else bind_res (new_provider (credentials_of cfg name) c) (\<lambda>p. Inr (name, p)))"

definition build_providers :: "config \<Rightarrow> bool \<Rightarrow> (string, provider) pydict res" where
  "build_providers cfg dry = bind_res (map_res (build_provider cfg dry) (cdns cfg)) (\<lambda>kvs. Inr (dict_of kvs))"

section \<open>Purging with any provider\<close>

record provider_world =
  fastly_w :: fastly_world
  gcp_w :: gcp_world
  cf_w :: cf_world

fun provider_purge :: "provider_world \<Rightarrow> provider \<Rightarrow> string list \<Rightarrow> provider \<times> purge_result res" where
  "provider_purge w (DryRunProvider p) us = map_prod DryRunProvider id (dry_run_purge p us)"
| "provider_purge w (FastlyProvider p) us = map_prod FastlyProvider id (fastly_purge (fastly_w w) p us)"
| "provider_purge w (CloudFrontProvider p) us = map_prod CloudFrontProvider id (cloudfront_purge (cf_w w) p us)"
| "provider_purge w (GcpCdnProvider p) us = map_prod GcpCdnProvider id (gcp_purge (gcp_w w) p us)"

fun provider_accepted :: "provider_world \<Rightarrow> provider \<Rightarrow> string list \<Rightarrow> string set" where
  "provider_accepted w (DryRunProvider p) us = logged_urls p us"
| "provider_accepted w (FastlyProvider p) us = fastly_accepted (fastly_w w) p us"
| "provider_accepted w (CloudFrontProvider p) us = cloudfront_accepted (cf_w w) p us"
| "provider_accepted w (GcpCdnProvider p) us = gcp_accepted (gcp_w w) p us"

lemma provider_ok_accepted:
  assumes "provider_purge w p us = (p', Inr r)" "ok r"
  shows "set us \<subseteq> provider_accepted w p us"
  using assms dry.ok_accepted fastly.ok_accepted cloudfront.ok_accepted gcp.ok_accepted
  by (cases p) (auto simp: map_prod_def split: prod.splits)

interpretation any: cdn_provider provider_purge provider_accepted
  by unfold_locales (rule provider_ok_accepted)

section \<open>The table\<close>

fun provider_kind :: "provider \<Rightarrow> string" where
  "provider_kind (DryRunProvider p) = d_wrapped_type p"
| "provider_kind (FastlyProvider p) = ''fastly''"
| "provider_kind (CloudFrontProvider p) = ''cloudfront''"
| "provider_kind (GcpCdnProvider p) = ''gcp_cdn''"

definition is_dry_run :: "provider \<Rightarrow> bool" where
  "is_dry_run p \<longleftrightarrow> (case p of DryRunProvider _ \<Rightarrow> True | _ \<Rightarrow> False)"

definition missing_credential :: "(string, string) pydict \<Rightarrow> cdn_config \<Rightarrow> string option" where
  "missing_credential creds c = (case c of
     FastlyCdn _ _ \<Rightarrow> if map_of creds ''api_token'' = None then Some ''api_token'' else None
   | CloudFrontCdn _ _ \<Rightarrow> None
   | GcpCdnConfig _ _ _ \<Rightarrow> if map_of creds ''service_account_file'' = None then Some ''service_account_file'' else None)"

lemma new_provider_cases:
  "case missing_credential creds c of
     Some k \<Rightarrow> new_provider creds c = Inl (KeyError k)
   | None \<Rightarrow> \<exists>p. new_provider creds c = Inr p \<and> provider_kind p = cdn_type c \<and> \<not> is_dry_run p"
  by (cases c) (auto simp: missing_credential_def required_def is_dry_run_def)

lemma build_provider_Inr:
  assumes "build_provider cfg dry (n, c) = Inr (m, p)"
  shows "m = n \<and> provider_kind p = cdn_type c \<and> is_dry_run p = dry \<and>
    (dry \<or> missing_credential (credentials_of cfg n) c = None)"
  using assms new_provider_cases [of "credentials_of cfg n" c]
  by (cases dry) (auto simp: build_provider_def is_dry_run_def bind_res_eq_Inr split: option.splits)

lemma build_provider_Inl:
  assumes "build_provider cfg dry (n, c) = Inl e"
  shows "\<not> dry \<and> (\<exists>k. e = KeyError k \<and> missing_credential (credentials_of cfg n) c = Some k)"
  using assms new_provider_cases [of "credentials_of cfg n" c]
  by (cases dry) (auto simp: build_provider_def split: option.splits)

lemma map_res_keys:
  assumes "\<And>x y. f x = Inr y \<Longrightarrow> fst y = fst x" "map_res f xs = Inr ys"
  shows "map fst ys = map fst xs"
  using map_res_InrD [OF assms(2)] assms(1) by (intro nth_equalityI) auto

lemma build_provider_key: "build_provider cfg dry x = Inr y \<Longrightarrow> fst y = fst x"
  by (auto simp: build_provider_def bind_res_eq_Inr split: prod.splits if_splits)

lemma update_new: "k \<notin> set (map fst d) \<Longrightarrow> AList.update k v d = d @ [(k, v)]"
  by (induction d) auto

lemma dict_of_distinct: "distinct (map fst kvs) \<Longrightarrow> dict_of kvs = kvs"
proof -
  have "fold (\<lambda>(k, v) d. AList.update k v d) kvs d = d @ kvs" if "distinct (map fst (d @ kvs))" for d
    using that by (induction kvs arbitrary: d) (auto simp: update_new)
  from this [of "[]"] show "distinct (map fst kvs) \<Longrightarrow> dict_of kvs = kvs" by (simp add: dict_of_def)
qed

lemma build_providers_Inr:
  assumes "distinct (dict_keys (cdns cfg))"
  shows "build_providers cfg dry = Inr ps \<longleftrightarrow> map_res (build_provider cfg dry) (cdns cfg) = Inr ps"
proof -
  have "dict_of kvs = kvs" if "map_res (build_provider cfg dry) (cdns cfg) = Inr kvs" for kvs
    using assms map_res_keys [OF _ that] build_provider_key
    by (intro dict_of_distinct) (metis dict_keys_def)
  then show ?thesis by (auto simp: build_providers_def bind_res_eq_Inr)
qed

lemma map_res_total: "(\<exists>ys. map_res f xs = Inr ys) \<longleftrightarrow> (\<forall>x \<in> set xs. \<exists>y. f x = Inr y)"
  by (induction xs) (auto simp: bind_res_eq_Inr)

text \<open>
  C32. The table of providers is well typed: when it is built, it has one provider per configured CDN,
  in order, of the kind its block names, and a dry-run provider exactly in a dry run; a dry run is
  always built, and a real run exactly when every Fastly CDN has an \<open>api_token\<close> and every GCP CDN a
  \<open>service_account_file\<close>, the first CDN that lacks it raising KeyError.
\<close>

theorem providers_typed:
  assumes "distinct (dict_keys (cdns cfg))"
  shows "case build_providers cfg dry of
      Inr ps \<Rightarrow> dict_keys ps = dict_keys (cdns cfg) \<and>
        list_all2 (\<lambda>(n, c) (m, p). provider_kind p = cdn_type c \<and> is_dry_run p = dry) (cdns cfg) ps \<and>
        (dry \<or> (\<forall>(n, c) \<in> set (cdns cfg). missing_credential (credentials_of cfg n) c = None))
    | Inl e \<Rightarrow> \<not> dry \<and> (\<exists>cs1 n c cs2 k. cdns cfg = cs1 @ (n, c) # cs2 \<and>
        e = KeyError k \<and> missing_credential (credentials_of cfg n) c = Some k \<and>
        (\<forall>(m, d) \<in> set cs1. missing_credential (credentials_of cfg m) d = None))"
proof (cases "build_providers cfg dry")
  case (Inl e)
  then have "map_res (build_provider cfg dry) (cdns cfg) = Inl e"
    by (cases "map_res (build_provider cfg dry) (cdns cfg)") (simp_all add: build_providers_def)
  with map_res_split [where f = "build_provider cfg dry" and xs = "cdns cfg"] obtain cs1 n c cs2 where
    *: "cdns cfg = cs1 @ (n, c) # cs2" "build_provider cfg dry (n, c) = Inl e"
    "\<forall>u \<in> set cs1. \<exists>y. build_provider cfg dry u = Inr y" by auto
  from *(3) have "\<forall>(m, d) \<in> set cs1. dry \<or> missing_credential (credentials_of cfg m) d = None"
    by (auto dest!: build_provider_Inr)
  moreover obtain k where "\<not> dry" "e = KeyError k" "missing_credential (credentials_of cfg n) c = Some k"
    using build_provider_Inl [OF *(2)] by blast
  ultimately show ?thesis unfolding Inl sum.case using *(1) by blast
next
  case (Inr ps)
  then have m: "map_res (build_provider cfg dry) (cdns cfg) = Inr ps"
    using build_providers_Inr [OF assms] by simp
  with map_res_split [where f = "build_provider cfg dry" and xs = "cdns cfg"]
  have all: "list_all2 (\<lambda>x y. build_provider cfg dry x = Inr y) (cdns cfg) ps" by simp
  have "dict_keys ps = dict_keys (cdns cfg)"
    unfolding dict_keys_def by (rule map_res_keys [OF build_provider_key m])
  moreover have "list_all2 (\<lambda>(n, c) (m, p). provider_kind p = cdn_type c \<and> is_dry_run p = dry) (cdns cfg) ps"
    using all by (rule list_all2_mono) (auto dest!: build_provider_Inr)
  moreover have "dry \<or> (\<forall>(n, c) \<in> set (cdns cfg). missing_credential (credentials_of cfg n) c = None)"
    using map_res_total [of "build_provider cfg dry" "cdns cfg"] m by (force dest!: build_provider_Inr)
  ultimately show ?thesis by (simp add: Inr)
qed

definition two_cdns :: config where
  "two_cdns = \<lparr>cdns = [(''f'', FastlyCdn ''svc'' True), (''g'', GcpCdnConfig ''prj'' ''um'' 500)],
     watches = [], daemon = default_daemon,
     credentials = [(''f'', [(''api_token'', ''t'')]), (''g'', [(''project'', ''prj'')])]\<rparr>"

theorem providers_typed_witness:
  "build_providers two_cdns False = Inl (KeyError ''service_account_file'') \<and>
   (\<exists>ps. build_providers two_cdns True = Inr ps \<and> dict_keys ps = [''f'', ''g''])"
proof -
  have d: "distinct (dict_keys (cdns two_cdns))" by (simp add: two_cdns_def dict_keys_def)
  have "build_providers two_cdns False = Inl (KeyError ''service_account_file'')"
    by (simp add: build_providers_def two_cdns_def build_provider_def credentials_of_def required_def)
  moreover obtain ps where "build_providers two_cdns True = Inr ps"
    by (simp add: build_providers_def two_cdns_def build_provider_def)
  with providers_typed [OF d, of True] have "\<exists>ps. build_providers two_cdns True = Inr ps \<and> dict_keys ps = [''f'', ''g'']"
    by (simp add: two_cdns_def dict_keys_def)
  ultimately show ?thesis by simp
qed

end
