(* ===== verification/Worker_Contract.thy ===== *)
theory Worker_Contract
  imports Worker_Lifecycle Provider_Table
begin

text \<open>
  What the workers promise, over every interleaving of polls, answers, new batches, restarts and
  failures of SQLite: jobs live the life of the abstract life cycle, a CDN has at most one job in
  flight, calls per job are bounded, and a job that is done was accepted by its CDN.
\<close>

section \<open>The life cycle\<close>

abbreviation first_boot :: "(string \<Rightarrow> 'p option) \<Rightarrow> 'p system" where
  \<comment> \<open>the first start, without a database\<close>
  "first_boot fresh \<equiv> boot fresh (open_db None) []"

lemma first_boot_inv: "sys_inv (first_boot fresh)"
  by (rule boot_inv [OF wf_open])

lemma run_refines:
  assumes "sys_inv s"
  shows "(lifecycle (max_attempts cfg))\<^sup>*\<^sup>* (phases s) (phases (sys_run purge str cfg fresh as s))"
  using assms
proof (induction as arbitrary: s)
  case (Cons a as)
  have "(lifecycle (max_attempts cfg))\<^sup>*\<^sup>* (phases s) (phases (sys_step purge str cfg fresh a s))"
    using step_refines [OF Cons.prems, of cfg purge str fresh a] by (auto simp: sup.commute)
  moreover have "(lifecycle (max_attempts cfg))\<^sup>*\<^sup>* (phases (sys_step purge str cfg fresh a s))
      (phases (sys_run purge str cfg fresh as (sys_step purge str cfg fresh a s)))"
    by (rule Cons.IH [OF sys_step_inv [OF Cons.prems]])
  ultimately show ?case unfolding sys_run.simps by (rule rtranclp_trans)
qed simp

lemma final_step:
  assumes "lifecycle m f g" "f i \<in> {Some Delivered, Some Abandoned}"
  shows "g i = f i"
  using assms by (induction rule: lifecycle.induct) (auto elim: life_DeliveredE life_AbandonedE)

lemma final_steps:
  "(lifecycle m)\<^sup>*\<^sup>* f g \<Longrightarrow> f i \<in> {Some Delivered, Some Abandoned} \<Longrightarrow> g i = f i"
  by (induction rule: rtranclp_induct) (auto dest: final_step)

lemma row_of_first [simp]: "row_of (open_db None) i = None"
  by (simp add: open_db_def row_of_def)

lemma first_boot_phases: "phases (first_boot fresh) = Map.empty"
  by (simp add: phases_def fun_eq_iff boot_sel)

text \<open>
  C1. The workers, the queue, the restarts and the failures of SQLite refine the life cycle of a job:
  in every run each job goes from waiting to being tried and from there to delivered, abandoned, or waiting again with one
  more attempt counted while these stay below \<open>max_attempts\<close>, a restart putting what was being tried
  back; one job moves at a time, and delivered and abandoned are final.
\<close>

theorem job_lifecycle:
  "(lifecycle (max_attempts cfg))\<^sup>*\<^sup>* Map.empty (phases (sys_run purge str cfg fresh as (first_boot fresh))) \<and>
   (phases (sys_run purge str cfg fresh as (first_boot fresh)) i \<in> {Some Delivered, Some Abandoned} \<longrightarrow>
     phases (sys_run purge str cfg fresh (as @ bs) (first_boot fresh)) i =
     phases (sys_run purge str cfg fresh as (first_boot fresh)) i)"
proof -
  let ?s = "sys_run purge str cfg fresh as (first_boot fresh)"
  have "(lifecycle (max_attempts cfg))\<^sup>*\<^sup>* (phases ?s) (phases (sys_run purge str cfg fresh bs ?s))"
    by (rule run_refines [OF sys_run_inv [OF first_boot_inv]])
  with run_refines [OF first_boot_inv, of cfg fresh purge str fresh as] show ?thesis
    by (auto simp: first_boot_phases sys_run_append dest: final_steps [of _ _ _ i])
qed

section \<open>One job in flight\<close>

text \<open>
  C15. In every reachable state a CDN has at most one job in flight: the one its worker is awaiting the
  provider for, with the URLs and the attempts it was claimed with.
\<close>

theorem one_in_flight:
  fixes fresh :: "string \<Rightarrow> 'p option"
  assumes "s = sys_run purge str cfg fresh as (first_boot fresh)"
    and "r \<in> set (rows (store s))" "status r = InFlight"
  shows "\<exists>j. in_hand s (row_cdn r) = Some j \<and> job_id j = row_id r \<and> job_attempts j = attempts r \<and>
    json_loads (urls_json r) = Some (job_urls j) \<and>
    (\<forall>r' \<in> set (rows (store s)). status r' = InFlight \<longrightarrow> row_cdn r' = row_cdn r \<longrightarrow> r' = r)"
proof -
  have inv: "sys_inv s" unfolding assms(1) by (rule sys_run_inv [OF first_boot_inv])
  note wf = sys_invD(1) [OF inv]
  have row: "row_of (store s) (row_id r) = Some r" using assms(2) by (simp add: row_of_Some [OF wf])
  from sys_invD(3) [OF inv this assms(3)] obtain j where j: "in_hand s (row_cdn r) = Some j" "job_id j = row_id r"
    by blast
  have "r' = r" if r': "r' \<in> set (rows (store s))" "status r' = InFlight" "row_cdn r' = row_cdn r" for r'
  proof -
    have row': "row_of (store s) (row_id r') = Some r'" using r'(1) by (simp add: row_of_Some [OF wf])
    from sys_invD(3) [OF inv this r'(2)] r'(3) j have "row_id r' = row_id r" by auto
    with row row' show ?thesis by simp
  qed
  with j row sys_invD(2) [OF inv j(1)] show ?thesis by (auto simp: holds_def)
qed

section \<open>Calls per job\<close>

definition attempts_logged :: "int \<Rightarrow> log_line list \<Rightarrow> nat" where
  \<comment> \<open>the calls of a provider for this job\<close>
  "attempts_logged i ls = length (filter (\<lambda>l. case l of PurgeAttempt c j n k \<Rightarrow> j = i | _ \<Rightarrow> False) ls)"

definition restarts :: "'w action list \<Rightarrow> nat" where
  "restarts as = length (filter (\<lambda>a. a = Restart) as)"

lemma attempts_logged_simps [simp]:
  "attempts_logged i [] = 0"
  "attempts_logged i (ls @ ls') = attempts_logged i ls + attempts_logged i ls'"
  "attempts_logged i [PurgeAttempt c j n k] = (if j = i then 1 else 0)"
  "attempts_logged i [InFlightRecovered n] = 0"
  by (simp_all add: attempts_logged_def)

lemma settle_job_line: "settle_job cfg c now j r d = Inr (d', l) \<Longrightarrow> attempts_logged i [l] = 0"
  by (auto simp: settle_job_def Let_def attempts_logged_def bind_res_eq_Inr split: if_splits)

definition calls_ok :: "int \<Rightarrow> nat \<Rightarrow> 'p system \<Rightarrow> bool" where
  \<comment> \<open>\<open>n\<close> is the number of restarts so far\<close>
  "calls_ok m n s \<longleftrightarrow>
     (\<forall>i r. row_of (store s) i = Some r \<longrightarrow> 0 \<le> attempts r \<and> attempts r < max 1 m \<and>
        int (attempts_logged i (lines s)) \<le> attempts r + int n + (if status r = Pending then 0 else 1)) \<and>
     (\<forall>i. row_of (store s) i = None \<longrightarrow> attempts_logged i (lines s) = 0)"

lemma calls_ok_bound:
  assumes "calls_ok m n s"
  shows "int (attempts_logged i (lines s)) \<le> max 1 m + int n"
proof (cases "row_of (store s) i")
  case (Some r)
  with assms have "attempts r < max 1 m"
    "int (attempts_logged i (lines s)) \<le> attempts r + int n + (if status r = Pending then 0 else 1)"
    by (auto simp: calls_ok_def)
  then show ?thesis by (auto split: if_splits)
qed (use assms in \<open>auto simp: calls_ok_def\<close>)

lemma calls_ok_update:
  assumes "calls_ok m n s" "row_of (store s') = (row_of (store s))(i \<mapsto> y)"
    and "\<And>k. k \<noteq> i \<Longrightarrow> attempts_logged k (lines s') = attempts_logged k (lines s)"
    and "0 \<le> attempts y" "attempts y < max 1 m"
    and "int (attempts_logged i (lines s')) \<le> attempts y + int n + (if status y = Pending then 0 else 1)"
  shows "calls_ok m n s'"
proof -
  have 1: "0 \<le> attempts r \<and> attempts r < max 1 m \<and>
      int (attempts_logged k (lines s')) \<le> attempts r + int n + (if status r = Pending then 0 else 1)"
    if "row_of (store s') k = Some r" for k r
    using that assms by (cases "k = i") (auto simp: calls_ok_def)
  have 2: "attempts_logged k (lines s') = 0" if "row_of (store s') k = None" for k
    using that assms(1,2,3) by (auto simp: calls_ok_def split: if_splits)
  show ?thesis unfolding calls_ok_def using 1 2 by blast
qed

lemma poll_calls:
  assumes "sys_inv s" "calls_ok m n s"
  shows "calls_ok m n (poll c now s)"
proof (cases rule: poll_cases [OF assms(1), of c now])
  case 2: (2 j r)
  have r: "status r = Pending" using 2(4) by (simp add: ready_def)
  show ?thesis
  proof (rule calls_ok_update [OF assms(2) 2(7)])
    show "0 \<le> attempts (r\<lparr>status := InFlight\<rparr>)" "attempts (r\<lparr>status := InFlight\<rparr>) < max 1 m"
      using assms(2) 2(3) by (auto simp: calls_ok_def)
    have "int (attempts_logged (job_id j) (lines s)) \<le> attempts r + int n"
      using assms(2) 2(3) r by (fastforce simp: calls_ok_def)
    then show "int (attempts_logged (job_id j) (lines (poll c now s))) \<le>
        attempts (r\<lparr>status := InFlight\<rparr>) + int n + (if status (r\<lparr>status := InFlight\<rparr>) = Pending then 0 else 1)"
      by (simp add: 2(8))
  qed (simp add: 2(8))
qed (simp add: assms)

lemma settle_calls:
  assumes "sys_inv s" "calls_ok (max_attempts cfg) n s"
  shows "calls_ok (max_attempts cfg) n (settle purge str cfg c w now s)"
proof (cases rule: settle_cases [OF assms(1), of purge str cfg c w now])
  case 2: (2 p' e)
  then show ?thesis using assms(2) by (simp add: calls_ok_def)
next
  case 3: (3 j p p' r d l x y)
  have old: "0 \<le> attempts x" "attempts x < max 1 (max_attempts cfg)"
    "int (attempts_logged (job_id j) (lines s)) \<le> attempts x + int n + 1"
    using assms(2) 3(8,9) by (fastforce simp: calls_ok_def)+
  have y: "if status y = Pending then attempts y = attempts x + 1 \<and> attempts y < max_attempts cfg
      else attempts y = attempts x"
    using 3(11,14) by (auto simp: settled_row_def split: if_splits)
  show ?thesis
  proof (rule calls_ok_update [OF assms(2), of _ "job_id j" y])
    show "int (attempts_logged (job_id j) (lines (settle purge str cfg c w now s))) \<le>
        attempts y + int n + (if status y = Pending then 0 else 1)"
      using old(3) y settle_job_line [OF 3(5)] by (simp add: 3(4) split: if_splits)
  qed (use old(1,2) y settle_job_line [OF 3(5)] in \<open>auto simp: 3(4,13) split: if_splits\<close>)
qed (simp add: assms)

lemma calls_ok_fewer:
  assumes "calls_ok m n s" "store s' = store s" "\<And>i. attempts_logged i (lines s') \<le> attempts_logged i (lines s)"
  shows "calls_ok m n s'"
proof -
  have fewer: "int (attempts_logged i (lines s')) \<le> int (attempts_logged i (lines s))" for i using assms(3) by simp
  have "int (attempts_logged i (lines s')) \<le> k" if "int (attempts_logged i (lines s)) \<le> k" for i k
    using fewer [of i] that by simp
  moreover have "attempts_logged i (lines s') = 0" if "attempts_logged i (lines s) = 0" for i
    using fewer [of i] that by simp
  ultimately show ?thesis using assms(1) by (simp add: calls_ok_def assms(2))
qed

lemma poll_logs: "\<exists>ls. lines (poll c now s) = lines s @ ls"
  by (auto simp: poll_def split: prod.splits sum.splits option.splits)

lemma claim_raises_calls:
  assumes "sys_inv s" "calls_ok m n s"
  shows "calls_ok m n (claim_raises c now landed e s)"
proof (cases rule: claim_raises_cases [of c now landed e s])
  case kept
  obtain ls where ls: "lines (poll c now s) = lines s @ ls" using poll_logs by blast
  show ?thesis unfolding kept
    by (rule calls_ok_fewer [OF poll_calls [OF assms, of c now]]) (simp_all add: ls)
qed (use assms(2) in \<open>simp_all add: calls_ok_def\<close>)

lemma settle_logs:
  assumes "sys_inv s" "lines (settle purge str cfg c w now s) = lines s @ [l]"
  shows "attempts_logged i [l] = 0"
  using assms(2) by (cases rule: settle_cases [OF assms(1), of purge str cfg c w now]) (auto dest: settle_job_line)

lemma record_raises_calls:
  assumes "sys_inv s" "calls_ok (max_attempts cfg) n s"
  shows "calls_ok (max_attempts cfg) n (record_raises purge str cfg c w now landed e s)"
proof (cases rule: record_raises_cases [of purge str cfg c w now landed e s])
  case (lost p' l)
  show ?thesis unfolding lost(1)
    by (rule calls_ok_fewer [OF assms(2)]) (simp_all add: settle_logs [OF assms(1) lost(2)])
next
  case kept
  show ?thesis unfolding kept
    by (rule calls_ok_fewer [OF settle_calls [OF assms, of purge str c w now]]) simp_all
qed (simp add: settle_calls assms)

lemma step_calls:
  assumes "sys_inv s" "calls_ok (max_attempts cfg) n s"
  shows "calls_ok (max_attempts cfg) (n + restarts [a]) (sys_step purge str cfg fresh a s)"
proof (cases a)
  case (Put c us now)
  note wf = sys_invD(1) [OF assms(1)]
  let ?s = "s\<lparr>store := fst (enqueue now c us (store s))\<rparr>"
  from put_row(2) [OF wf] obtain r where
    r: "row_of (store ?s) = (row_of (store s))(last_id (store s) + 1 \<mapsto> r)" "status r = Pending" "attempts r = 0"
    by fastforce
  have "attempts_logged (last_id (store s) + 1) (lines s) = 0"
    using put_row(1) [OF wf] assms(2) by (simp add: calls_ok_def)
  then have "calls_ok (max_attempts cfg) n ?s"
    using r(2,3) by (intro calls_ok_update [OF assms(2) r(1)]) auto
  with assms(2) show ?thesis by (simp add: Put restarts_def)
next
  case Restart
  let ?s = "boot fresh (store s) (lines s)"
  have l: "attempts_logged i (lines ?s) = attempts_logged i (lines s)" for i
    by (auto simp: boot_def split: prod.splits)
  have 1: "0 \<le> attempts r \<and> attempts r < max 1 (max_attempts cfg) \<and>
      int (attempts_logged i (lines s)) \<le> attempts r + int (n + 1) + (if status r = Pending then 0 else 1)"
    if row: "row_of (store ?s) i = Some r" for i r
  proof -
    from row obtain x where x: "row_of (store s) i = Some x"
      "r = (if status x = InFlight then x\<lparr>status := Pending\<rparr> else x)"
      by (auto simp: boot_sel)
    then have "0 \<le> attempts x \<and> attempts x < max 1 (max_attempts cfg) \<and>
        int (attempts_logged i (lines s)) \<le> attempts x + int n + (if status x = Pending then 0 else 1)"
      using assms(2) by (auto simp: calls_ok_def)
    with x(2) show ?thesis by (auto split: if_splits)
  qed
  have 2: "attempts_logged i (lines s) = 0" if "row_of (store ?s) i = None" for i
    using that assms(2) by (auto simp: boot_sel calls_ok_def)
  have "calls_ok (max_attempts cfg) (n + 1) ?s"
    unfolding calls_ok_def l using 1 2 by blast
  with Restart show ?thesis by (simp add: restarts_def)
next
  case (Abort e)
  with assms(2) show ?thesis by (simp add: restarts_def calls_ok_def)
qed (simp_all add: restarts_def assms poll_calls settle_calls claim_raises_calls record_raises_calls)

lemma sys_run_calls:
  "sys_inv s \<Longrightarrow> calls_ok (max_attempts cfg) n s \<Longrightarrow>
     calls_ok (max_attempts cfg) (n + restarts as) (sys_run purge str cfg fresh as s)"
proof (induction as arbitrary: s n)
  case (Cons a as)
  let ?s = "sys_step purge str cfg fresh a s"
  have "calls_ok (max_attempts cfg) (n + restarts [a] + restarts as) (sys_run purge str cfg fresh as ?s)"
    by (rule Cons.IH [OF sys_step_inv [OF Cons.prems(1)] step_calls [OF Cons.prems]])
  moreover have "restarts (a # as) = restarts [a] + restarts as" by (simp add: restarts_def)
  ultimately show ?case by (simp add: add.assoc)
qed (simp add: restarts_def)

lemma first_boot_calls: "calls_ok m 0 (first_boot fresh)"
  by (simp add: calls_ok_def boot_def open_db_def reset_in_flight_def update_rows_def row_of_def)

text \<open>
  C11. The calls of the provider for one job are bounded over the whole life of the queue: at most
  \<open>max_attempts\<close> (one, when that is less than one), and one more for each restart, which may cut a
  call short.
\<close>

theorem calls_bounded:
  "int (attempts_logged i (lines (sys_run purge str cfg fresh as (first_boot fresh)))) \<le>
     max 1 (max_attempts cfg) + int (restarts as)"
proof -
  have "calls_ok (max_attempts cfg) (0 + restarts as) (sys_run purge str cfg fresh as (first_boot fresh))"
    by (rule sys_run_calls [OF first_boot_inv first_boot_calls])
  from calls_ok_bound [OF this] show ?thesis by simp
qed

section \<open>Done means accepted\<close>

definition called_for :: "('w \<Rightarrow> 'p \<Rightarrow> string list \<Rightarrow> string set) \<Rightarrow> string \<Rightarrow> 'w \<Rightarrow> 'p system \<Rightarrow> (string \<times> string) set" where
  "called_for acc c w s =
     (case (crashed s, in_hand s c, providers s c) of
        (None, Some j, Some p) \<Rightarrow> {c} \<times> acc w p (job_urls j)
      | _ \<Rightarrow> {})"

fun taken :: "('w \<Rightarrow> 'p \<Rightarrow> string list \<Rightarrow> string set) \<Rightarrow> 'w action \<Rightarrow> 'p system \<Rightarrow> (string \<times> string) set" where
  \<comment> \<open>what the CDN of a settling worker accepted in this call\<close>
  "taken acc (Settle c w now) s = called_for acc c w s"
| "taken acc (RecordRaises c w now landed e) s = called_for acc c w s"
| "taken acc a s = {}"

fun taken_run ::
  "('w \<Rightarrow> 'p \<Rightarrow> string list \<Rightarrow> 'p \<times> purge_result res) \<Rightarrow> (exn \<Rightarrow> string) \<Rightarrow> retry_config \<Rightarrow>
   (string \<Rightarrow> 'p option) \<Rightarrow> ('w \<Rightarrow> 'p \<Rightarrow> string list \<Rightarrow> string set) \<Rightarrow> 'w action list \<Rightarrow> 'p system \<Rightarrow> (string \<times> string) set"
where
  "taken_run purge str cfg fresh acc [] s = {}"
| "taken_run purge str cfg fresh acc (a # as) s =
     taken acc a s \<union> taken_run purge str cfg fresh acc as (sys_step purge str cfg fresh a s)"

definition done_ok :: "int \<Rightarrow> (string \<times> string) set \<Rightarrow> 'p system \<Rightarrow> bool" where
  \<comment> \<open>every job above the id \<open>n\<close> that is done has been accepted\<close>
  "done_ok n T s \<longleftrightarrow> (\<forall>i r us. n < i \<longrightarrow> row_of (store s) i = Some r \<longrightarrow> status r = Done \<longrightarrow>
     json_loads (urls_json r) = Some us \<longrightarrow> {row_cdn r} \<times> set us \<subseteq> T)"

lemma done_ok_mono: "done_ok n T s \<Longrightarrow> T \<subseteq> T' \<Longrightarrow> done_ok n T' s"
  by (fastforce simp: done_ok_def)

lemma done_ok_update:
  assumes "done_ok n T s" "row_of (store s') = (row_of (store s))(i \<mapsto> y)"
    and "\<And>us. status y = Done \<Longrightarrow> json_loads (urls_json y) = Some us \<Longrightarrow> {row_cdn y} \<times> set us \<subseteq> T"
  shows "done_ok n T s'"
  using assms unfolding done_ok_def by auto

context cdn_provider
begin

lemma settle_done:
  assumes "sys_inv s" "done_ok n T s" "crashed s = None"
  shows "done_ok n (T \<union> called_for accepted c w s) (settle purge str cfg c w now s)"
proof (cases rule: settle_cases [OF assms(1), of purge str cfg c w now])
  case 1
  with assms(2) show ?thesis by (auto intro: done_ok_mono)
next
  case 2: (2 p' e)
  have "done_ok n T (settle purge str cfg c w now s)" using assms(2) by (simp add: 2 done_ok_def)
  then show ?thesis by (rule done_ok_mono) simp
next
  case 3: (3 j p p' r d l x y)
  have T: "called_for accepted c w s = {c} \<times> accepted w p (job_urls j)"
    using assms(3) 3(1,2) by (simp add: called_for_def)
  show ?thesis
  proof (rule done_ok_update [of _ _ s _ "job_id j" y])
    show "done_ok n (T \<union> called_for accepted c w s) s"
      using assms(2) by (rule done_ok_mono) simp
    fix us assume y: "status y = Done" "json_loads (urls_json y) = Some us"
    from y(1) 3(14) have "ok (outcome_of str r)" by (auto simp: settled_row_def split: if_splits)
    then obtain x' where "r = Inr x'" "ok x'" by (cases r) (auto simp: outcome_of_def)
    with ok_accepted 3(3) have "set (job_urls j) \<subseteq> accepted w p (job_urls j)" by blast
    moreover have "us = job_urls j" "row_cdn y = c"
      using y(2) 3(10,12,14) by (auto simp: settled_row_def)
    ultimately show "{row_cdn y} \<times> set us \<subseteq> T \<union> called_for accepted c w s"
      unfolding T by auto
  qed (simp add: 3(4,13))
qed

lemma done_ok_cong: "store s' = store s \<Longrightarrow> done_ok n T s' = done_ok n T s"
  by (simp add: done_ok_def)

lemma poll_done:
  assumes "sys_inv s" "done_ok n T s"
  shows "done_ok n T (poll c now s)"
proof (cases rule: poll_cases [OF assms(1), of c now])
  case 2: (2 j r)
  show ?thesis by (rule done_ok_update [OF assms(2) 2(7)]) simp
qed (simp add: assms)

lemma record_raises_done:
  assumes "sys_inv s" "done_ok n T s" "crashed s = None"
  shows "done_ok n (T \<union> called_for accepted c w s) (record_raises purge str cfg c w now landed e s)"
proof (cases rule: record_raises_cases [of purge str cfg c w now landed e s])
  case (lost p' l)
  have "done_ok n T (record_raises purge str cfg c w now landed e s)"
    using assms(2) by (simp add: lost(1) done_ok_def)
  then show ?thesis by (rule done_ok_mono) simp
next
  case kept
  show ?thesis unfolding kept
    using settle_done [OF assms, of c w str cfg now] by (simp add: done_ok_def)
qed (simp add: settle_done assms)

lemma step_done:
  assumes "sys_inv s" "done_ok n T s"
  shows "done_ok n (T \<union> taken accepted a s) (sys_step purge str cfg fresh a s)"
proof (cases a)
  case (Poll c now)
  then show ?thesis using assms(2) poll_done [OF assms, of c now] by simp
next
  case (Settle c w now)
  with settle_done [OF assms] assms(2) show ?thesis by (auto intro: done_ok_mono)
next
  case (Put c us now)
  from put_row(2) [OF sys_invD(1) [OF assms(1)]] obtain r where
    r: "row_of (fst (enqueue now c us (store s))) = (row_of (store s))(last_id (store s) + 1 \<mapsto> r)" "status r = Pending"
    by blast
  have "done_ok n T (s\<lparr>store := fst (enqueue now c us (store s))\<rparr>)"
    by (rule done_ok_update [OF assms(2)]) (use r in auto)
  with assms(2) show ?thesis by (simp add: Put)
next
  case Restart
  have "{row_cdn r} \<times> set us \<subseteq> T"
    if row: "row_of (store (boot fresh (store s) (lines s))) i = Some r" "status r = Done"
      "json_loads (urls_json r) = Some us" "n < i" for i r us
  proof -
    from row(1) obtain x where "row_of (store s) i = Some x" "r = (if status x = InFlight then x\<lparr>status := Pending\<rparr> else x)"
      by (auto simp: boot_sel)
    with row(2-4) assms(2) show ?thesis by (auto simp: done_ok_def split: if_splits)
  qed
  then show ?thesis by (auto simp: Restart done_ok_def)
next
  case (ClaimRaises c now landed e)
  have "done_ok n T (claim_raises c now landed e s)"
    using assms poll_done [OF assms, of c now]
    by (cases rule: claim_raises_cases [of c now landed e s]) (simp_all add: done_ok_def)
  with assms(2) show ?thesis by (simp add: ClaimRaises)
next
  case (RecordRaises c w now landed e)
  with record_raises_done [OF assms] assms(2) show ?thesis by (auto intro: done_ok_mono)
next
  case (Abort e)
  with assms(2) show ?thesis by (simp add: done_ok_def)
qed

lemma run_done:
  "sys_inv s \<Longrightarrow> done_ok n T s \<Longrightarrow>
     done_ok n (T \<union> taken_run purge str cfg fresh accepted as s) (sys_run purge str cfg fresh as s)"
proof (induction as arbitrary: s T)
  case (Cons a as)
  from Cons.IH [OF sys_step_inv [OF Cons.prems(1)] step_done [OF Cons.prems]] show ?case
    by (simp add: Un_assoc)
qed simp

end

text \<open>
  C4. A job that is marked done was accepted: for every URL of its batch, a call of the provider of
  its CDN got an answer that accepts it: a 2xx answer to the purge of the URL (Fastly), to the
  invalidation of its host and path (GCP), an accepted invalidation with its path (CloudFront), or a
  log line in a dry run.
\<close>

theorem done_was_accepted:
  assumes "s = sys_run provider_purge str cfg fresh as (first_boot fresh)"
    and "r \<in> set (rows (store s))" "status r = Done" "json_loads (urls_json r) = Some us" "u \<in> set us"
  shows "(row_cdn r, u) \<in> taken_run provider_purge str cfg fresh provider_accepted as (first_boot fresh)"
proof -
  have "done_ok (row_id r - 1) {} (first_boot fresh)" by (simp add: done_ok_def boot_sel)
  then have "done_ok (row_id r - 1) ({} \<union> taken_run provider_purge str cfg fresh provider_accepted as (first_boot fresh)) s"
    unfolding assms(1) by (rule any.run_done [OF first_boot_inv])
  moreover have "row_of (store s) (row_id r) = Some r"
    using assms(2) row_of_Some sys_invD(1) [OF sys_run_inv [OF first_boot_inv]] by (metis assms(1))
  moreover have "row_id r - 1 < row_id r" by simp
  ultimately show ?thesis using assms(3-5) unfolding done_ok_def by blast
qed

section \<open>A run\<close>

text \<open>A batch for a Fastly service and one for a dry-run CDN; Fastly throttles the first call.\<close>

definition up :: fastly_world where
  "up = \<lparr>w_service = (\<lambda>p. ApiTransport []), w_domains = (\<lambda>p. ApiTransport []), w_post = (\<lambda>i e. Response 200)\<rparr>"

definition world_of :: "int \<Rightarrow> provider_world" where
  "world_of n = \<lparr>fastly_w = up\<lparr>w_post := \<lambda>i e. Response n\<rparr>,
     gcp_w = \<lparr>w_start = 0, w_load = (\<lambda>i f. Inl []), w_refresh = (\<lambda>i c. Inl []), w_invalidate = (\<lambda>i e t b. Response n)\<rparr>,
     cf_w = \<lparr>w_time_ns = 0, w_connect = (\<lambda>a. None), w_create = (\<lambda>a r. None)\<rparr>\<rparr>"

definition sample_providers :: "string \<Rightarrow> provider option" where
  "sample_providers = [''f'' \<mapsto> FastlyProvider (init_fastly ''svc'' ''tok'' False)]"

definition sample_actions :: "provider_world action list" where
  "sample_actions = [Put ''f'' [''https://repo.x/a''] 1, Poll ''f'' 2, Settle ''f'' (world_of 429) 3,
     Poll ''f'' 9, Settle ''f'' (world_of 200) 10]"

lemmas run_eval = sample_actions_def sample_providers_def world_of_def up_def boot_def open_db_def
  reset_in_flight_def update_rows_def enqueue_def poll_def claim_ready_def select_ready_def claim_update_def
  claimed_job_def json_roundtrip settle_def settle_job_def outcome_of_def fastly_purge_def init_fastly_def
  fastly_purge_all_def fastly_purge_one_def gather_def default_retry_def exponential_backoff_def
  mark_done_def reschedule_def aggregate_def classify_def is_2xx_def retryable_status_def

lemma endpoint_a: "purge_endpoint ''https://repo.x/a'' = Inr ''https://api.fastly.com/purge/repo.x/a''"
  by code_simp

lemma sample_run:
  "rows (store (sys_run provider_purge str default_retry sample_providers sample_actions (first_boot sample_providers))) =
    [\<lparr>row_id = 1, row_cdn = ''f'', urls_json = json_dumps [''https://repo.x/a''], attempts = 1, next_attempt_at = 8,
      created_at = 1, status = Done, message = None\<rparr>]"
  by (simp add: run_eval endpoint_a Let_def)

abbreviation sample_end :: "provider_world action list \<Rightarrow> provider system" where
  "sample_end as \<equiv> sys_run provider_purge (\<lambda>e. []) default_retry sample_providers as (first_boot sample_providers)"

lemma sample_phase: "phases (sample_end sample_actions) 1 = Some Delivered"
  unfolding phases_def row_of_def sample_run by simp

theorem job_lifecycle_witness:
  "phases (sample_end (sample_actions @ [Restart, Put ''f'' [''https://repo.x/a''] 20])) 1 = Some Delivered"
  using job_lifecycle [of default_retry provider_purge "\<lambda>e. []" sample_providers sample_actions 1
      "[Restart, Put ''f'' [''https://repo.x/a''] 20]"] sample_phase
  by simp

theorem one_in_flight_witness:
  "\<exists>j. in_hand (sample_end (take 2 sample_actions)) ''f'' = Some j \<and> job_id j = 1 \<and> job_attempts j = 0"
proof -
  have r: "rows (store (sample_end (take 2 sample_actions))) =
    [\<lparr>row_id = 1, row_cdn = ''f'', urls_json = json_dumps [''https://repo.x/a''], attempts = 0, next_attempt_at = 1,
      created_at = 1, status = InFlight, message = None\<rparr>]"
    by (simp add: run_eval Let_def)
  have m: "hd (rows (store (sample_end (take 2 sample_actions)))) \<in> set (rows (store (sample_end (take 2 sample_actions))))"
    unfolding r by simp
  have f: "status (hd (rows (store (sample_end (take 2 sample_actions))))) = InFlight"
    unfolding r by simp
  from one_in_flight [OF refl m f] show ?thesis unfolding r by auto
qed

theorem done_was_accepted_witness:
  "(''f'', ''https://repo.x/a'') \<in>
     taken_run provider_purge (\<lambda>e. []) default_retry sample_providers provider_accepted sample_actions (first_boot sample_providers)"
proof -
  let ?r = "hd (rows (store (sample_end sample_actions)))"
  have "?r \<in> set (rows (store (sample_end sample_actions)))" "status ?r = Done"
    "json_loads (urls_json ?r) = Some [''https://repo.x/a'']"
    unfolding sample_run by (simp_all add: json_roundtrip)
  from done_was_accepted [OF refl this, of "''https://repo.x/a''"] show ?thesis
    unfolding sample_run by simp
qed

end
