(* ===== verification/Worker_Progress.thy ===== *)
theory Worker_Progress
  imports Worker_Contract
begin

text \<open>
  Progress of the workers: what one turn does with a due job, how the queue of a CDN drains under a
  worker that polls, and where the daemon cannot get on.
\<close>

section \<open>Work left\<close>

definition weight :: "int \<Rightarrow> string \<Rightarrow> job_row \<Rightarrow> nat" where
  \<comment> \<open>how many calls this row may still take\<close>
  "weight m c r = (if row_cdn r = c \<and> status r = Pending then nat (max 1 (m - attempts r)) else 0)"

definition work :: "int \<Rightarrow> string \<Rightarrow> db \<Rightarrow> nat" where
  "work m c d = sum_list (map (weight m c) (rows d))"

lemma weight_pos: "row_cdn r = c \<Longrightarrow> status r = Pending \<Longrightarrow> 0 < weight m c r"
  by (simp add: weight_def)

lemma sum_update:
  fixes f :: "'a \<Rightarrow> nat"
  assumes "distinct (map k xs)" "x \<in> set xs" "k x = i"
  shows "sum_list (map f (map (\<lambda>z. if k z = i then g z else z) xs)) + f x = sum_list (map f xs) + f (g x)"
  using assms
proof (induction xs)
  case (Cons z xs)
  show ?case
  proof (cases "z = x")
    case True
    with Cons.prems have "map (\<lambda>z. if k z = i then g z else z) xs = xs"
      by (intro map_idI) (auto simp: image_iff)
    with True Cons.prems show ?thesis by simp
  next
    case False
    with Cons.prems have "x \<in> set xs" "k z \<noteq> i" by (auto simp: image_iff)
    with Cons show ?thesis by simp
  qed
qed simp

lemma weight_zero: "weight m c r = 0 \<longleftrightarrow> (row_cdn r = c \<longrightarrow> status r \<noteq> Pending)"
  by (auto simp: weight_def)

lemma work_zero: "work m c d = 0 \<longleftrightarrow> (\<forall>r \<in> set (rows d). row_cdn r = c \<longrightarrow> status r \<noteq> Pending)"
  by (simp add: work_def sum_list_eq_0_iff weight_zero)

section \<open>A turn\<close>

definition turn ::
  "('w \<Rightarrow> 'p \<Rightarrow> string list \<Rightarrow> 'p \<times> purge_result res) \<Rightarrow> (exn \<Rightarrow> string) \<Rightarrow> retry_config \<Rightarrow>
   string \<Rightarrow> 'w \<Rightarrow> real \<Rightarrow> 'p system \<Rightarrow> 'p system" where
  \<comment> \<open>one turn of the loop of the worker for \<open>c\<close>, undisturbed\<close>
  "turn purge str cfg c w now s =
     sys_run purge str cfg Map.empty [Poll c now, Settle c w now] s"

definition rested :: "'p system \<Rightarrow> string \<Rightarrow> real \<Rightarrow> bool" where
  \<comment> \<open>the worker of \<open>c\<close> runs and holds no job, and every pending job of \<open>c\<close> is due\<close>
  "rested s c now \<longleftrightarrow> sys_inv s \<and> crashed s = None \<and> in_hand s c = None \<and> providers s c \<noteq> None \<and>
     (\<forall>r \<in> set (rows (store s)). row_cdn r = c \<longrightarrow> status r = Pending \<longrightarrow> next_attempt_at r \<le> now \<and> 0 \<le> attempts r)"

definition first_due :: "'p system \<Rightarrow> string \<Rightarrow> real \<Rightarrow> job_row \<Rightarrow> bool" where
  "first_due s c now x \<longleftrightarrow> x \<in> set (rows (store s)) \<and> ready now c x \<and>
     (\<forall>y \<in> set (rows (store s)). ready now c y \<longrightarrow> row_id x \<le> row_id y)"

definition settled :: "retry_config \<Rightarrow> real \<Rightarrow> purge_result \<Rightarrow> job_row \<Rightarrow> job_row" where
  "settled cfg now r x =
     (if ok r then x\<lparr>status := Done\<rparr>
      else if retryable r \<and> attempts x + 1 < max_attempts cfg
      then x\<lparr>status := Pending, attempts := attempts x + 1,
             next_attempt_at := now + min (initial_backoff_seconds cfg * 2 ^ nat (attempts x)) (max_backoff_seconds cfg)\<rparr>
      else x\<lparr>status := Failed, message := Some (result_message r)\<rparr>)"

lemma poll_first_due:
  assumes "sys_inv s" "in_hand s c = None" "providers s c \<noteq> None" "first_due s c now x"
  shows "\<exists>j. poll c now s = s\<lparr>store := fst (claim_update (row_id x) (store s)), in_hand := (in_hand s)(c \<mapsto> j),
      lines := lines s @ [PurgeAttempt c (row_id x) (length (job_urls j)) (attempts x + 1)]\<rparr> \<and>
    job_id j = row_id x \<and> job_attempts j = attempts x \<and> json_loads (urls_json x) = Some (job_urls j)"
proof -
  note wf = sys_invD(1) [OF assms(1)]
  have "select_ready now c (store s) \<noteq> None"
    using assms(4) by (auto simp: select_ready_None first_due_def ready_def)
  then obtain r where r: "select_ready now c (store s) = Some r" by blast
  note sel = select_ready_Some [OF wf r]
  have x: "row_of (store s) (row_id x) = Some x" using assms(4) by (simp add: row_of_Some [OF wf] first_due_def)
  have "r \<in> set (rows (store s))" "ready now c r" using sel(1-4) by (simp_all add: row_of_Some [OF wf] ready_def)
  then have "row_id x \<le> row_id r" using assms(4) by (simp add: first_due_def)
  moreover have "row_id r \<le> row_id x" using sel(5) [of x] assms(4) by (simp add: first_due_def ready_def)
  ultimately have "r = x" using sel(1) x by simp
  with claim_ready_Some [OF wf r] obtain j where
    j: "claim_ready now c (store s) = (fst (claim_update (row_id x) (store s)), Inr (Some j))"
    "claims_row (store s) (fst (claim_update (row_id x) (store s))) x j" by blast
  have "job_id j = row_id x" using j(2) by (auto simp: claims_row_def dest: row_of_id)
  with j assms(2,3) show ?thesis by (auto simp: poll_def claims_row_def)
qed

lemma turn_first_due:
  assumes "rested s c now" "first_due s c now x" "max_attempts cfg \<le> 1025"
    and "providers s c = Some p" "json_loads (urls_json x) = Some us" "purge w p us = (p', r)"
  shows "row_of (store (turn purge str cfg c w now s)) =
      (row_of (store s))(row_id x \<mapsto> settled cfg now (outcome_of str r) x)"
    "\<exists>f. keeps_row f \<and> rows (store (turn purge str cfg c w now s)) =
       map (\<lambda>z. if row_id z = row_id x then f z else z) (rows (store s)) \<and> f x = settled cfg now (outcome_of str r) x"
    "in_hand (turn purge str cfg c w now s) = (in_hand s)(c := None)"
    "crashed (turn purge str cfg c w now s) = None"
    "providers (turn purge str cfg c w now s) = (providers s)(c \<mapsto> p')"
proof -
  have inv: "sys_inv s" "in_hand s c = None" "crashed s = None" and att: "0 \<le> attempts x" and pend: "status x = Pending"
    using assms(1,2) by (auto simp: rested_def first_due_def ready_def)
  have row: "row_of (store s) (row_id x) = Some x"
    using assms(2) by (simp add: row_of_Some [OF sys_invD(1) [OF inv(1)]] first_due_def)
  from poll_first_due [OF inv(1,2) _ assms(2)] assms(4) obtain j where
    j: "poll c now s = s\<lparr>store := fst (claim_update (row_id x) (store s)), in_hand := (in_hand s)(c \<mapsto> j),
        lines := lines s @ [PurgeAttempt c (row_id x) (length (job_urls j)) (attempts x + 1)]\<rparr>"
      "job_id j = row_id x" "job_attempts j = attempts x" "job_urls j = us"
    using assms(5) by auto
  let ?o = "outcome_of str r" and ?d = "fst (claim_update (row_id x) (store s))"
  let ?m = "\<lambda>g. fst (update_rows (\<lambda>z. row_id z = row_id x) g ?d)"
  obtain f l where f: "settle_job cfg c now j ?o ?d = Inr (?m f, l)" "keeps_row f" "f (x\<lparr>status := InFlight\<rparr>) = settled cfg now ?o x"
  proof (cases "ok ?o")
    case True
    then show ?thesis
      by (intro that [of "\<lambda>z. z\<lparr>status := Done\<rparr>"]) (simp_all add: settle_job_def Let_def mark_done_def j settled_def)
  next
    case no: False
    show ?thesis
    proof (cases "retryable ?o \<and> attempts x + 1 < max_attempts cfg")
      case True
      with assms(3) att have "exponential_backoff (attempts x + 1) (initial_backoff_seconds cfg) (max_backoff_seconds cfg) =
          Inr (min (initial_backoff_seconds cfg * 2 ^ nat (attempts x)) (max_backoff_seconds cfg))"
        by (simp add: exponential_backoff_def)
      with no True show ?thesis
        by (intro that [of "\<lambda>z. z\<lparr>status := Pending, attempts := attempts x + 1, next_attempt_at :=
              now + min (initial_backoff_seconds cfg * 2 ^ nat (attempts x)) (max_backoff_seconds cfg)\<rparr>"])
           (simp_all add: settle_job_def Let_def reschedule_def j settled_def)
    next
      case False
      with no show ?thesis
        by (intro that [of "\<lambda>z. z\<lparr>status := Failed, message := Some (result_message ?o)\<rparr>"])
           (auto simp: settle_job_def Let_def mark_failed_def j settled_def)
    qed
  qed
  have t: "turn purge str cfg c w now s = (poll c now s)\<lparr>store := ?m f, providers := (providers s)(c \<mapsto> p'),
      in_hand := (in_hand s)(c := None), lines := lines (poll c now s) @ [l]\<rparr>"
    using assms(4,6) f(1) inv(3) by (simp add: turn_def settle_def j)
  show "in_hand (turn purge str cfg c w now s) = (in_hand s)(c := None)" "crashed (turn purge str cfg c w now s) = None"
    "providers (turn purge str cfg c w now s) = (providers s)(c \<mapsto> p')"
    using inv(3) by (simp_all add: t j(1))
  show "row_of (store (turn purge str cfg c w now s)) =
      (row_of (store s))(row_id x \<mapsto> settled cfg now (outcome_of str r) x)"
    using row pend by (auto simp: t fun_eq_iff row_of_update [OF f(2)] row_of_ops f(3) map_option_case
        dest: row_of_id split: option.splits)
  show "\<exists>f. keeps_row f \<and> rows (store (turn purge str cfg c w now s)) =
       map (\<lambda>z. if row_id z = row_id x then f z else z) (rows (store s)) \<and> f x = settled cfg now (outcome_of str r) x"
    using pend f(2,3)
    by (intro exI [of _ "\<lambda>z. f (if status z = Pending then z\<lparr>status := InFlight\<rparr> else z)"])
       (auto simp: t update_rows_sel claim_update_def keeps_row_def)
qed


lemma show_429: "show_int 429 = ''429''"
  by code_simp


section \<open>Draining\<close>

fun turns ::
  "('w \<Rightarrow> 'p \<Rightarrow> string list \<Rightarrow> 'p \<times> purge_result res) \<Rightarrow> (exn \<Rightarrow> string) \<Rightarrow> retry_config \<Rightarrow>
   string \<Rightarrow> (real \<times> 'w) list \<Rightarrow> 'p system \<Rightarrow> 'p system" where
  "turns purge str cfg c [] s = s"
| "turns purge str cfg c ((now, w) # tws) s = turns purge str cfg c tws (turn purge str cfg c w now s)"

fun spaced :: "real \<Rightarrow> real \<Rightarrow> (real \<times> 'w) list \<Rightarrow> bool" where
  \<comment> \<open>the first turn is not before \<open>t\<close>, and each is followed by a pause of at least \<open>gap\<close>\<close>
  "spaced gap t [] = True"
| "spaced gap t ((now, w) # tws) \<longleftrightarrow> t \<le> now \<and> spaced gap (now + gap) tws"

lemma rested_later: "rested s c t \<Longrightarrow> t \<le> now \<Longrightarrow> rested s c now"
  by (fastforce simp: rested_def)

lemma turn_idle:
  assumes "rested s c now" "work m c (store s) = 0"
  shows "turn purge str cfg c w now s = s"
proof -
  have "claim_ready now c (store s) = (store s, Inr None)"
    using assms(2) by (intro claim_ready_None) (auto simp: work_zero ready_def)
  then have "poll c now s = s" using assms(1) by (simp add: poll_def)
  with assms(1) show ?thesis by (simp add: turn_def rested_def settle_def)
qed

lemma first_due_exists:
  assumes "rested s c now" "work m c (store s) \<noteq> 0"
  shows "\<exists>x. first_due s c now x"
proof -
  have "rested s c now" "\<exists>r \<in> set (rows (store s)). ready now c r"
    using assms by (auto simp: work_zero rested_def ready_def)
  then obtain r where "select_ready now c (store s) = Some r"
    by (cases "select_ready now c (store s)") (auto simp: select_ready_None ready_def)
  note sel = select_ready_Some [OF _ this]
  have wf: "wf_db (store s)" using assms(1) by (simp add: rested_def sys_inv_def)
  show ?thesis
    using sel [OF wf] by (intro exI [of _ r]) (auto simp: first_due_def ready_def row_of_Some [OF wf])
qed

lemma settled_weight:
  assumes "status x = Pending" "row_cdn x = c"
  shows "weight (max_attempts cfg) c (settled cfg now r x) < weight (max_attempts cfg) c x"
  using assms by (auto simp: settled_def weight_def)

lemma turn_progress:
  assumes "rested s c now" "work (max_attempts cfg) c (store s) \<noteq> 0" "max_attempts cfg \<le> 1025"
  shows "rested (turn purge str cfg c w now s) c (now + max 0 (max_backoff_seconds cfg)) \<and>
    work (max_attempts cfg) c (store (turn purge str cfg c w now s)) < work (max_attempts cfg) c (store s)"
proof -
  let ?t = "turn purge str cfg c w now s"
  have inv: "sys_inv s" using assms(1) by (simp add: rested_def)
  note wf = sys_invD(1) [OF inv]
  from first_due_exists [OF assms(1,2)] obtain x where x: "first_due s c now x" by blast
  then have x': "x \<in> set (rows (store s))" "status x = Pending" "row_cdn x = c" "0 \<le> attempts x"
    using assms(1) by (auto simp: first_due_def ready_def rested_def)
  have row: "row_of (store s) (row_id x) = Some x" using x'(1) by (simp add: row_of_Some [OF wf])
  obtain p where p: "providers s c = Some p" using assms(1) by (auto simp: rested_def)
  from poll_first_due [OF inv _ _ x] p assms(1) obtain us where us: "json_loads (urls_json x) = Some us"
    by (auto simp: rested_def)
  obtain p' r where r: "purge w p us = (p', r)" by fastforce
  note turn = turn_first_due [OF assms(1) x assms(3) p us, where str = str and purge = purge and w = w, OF r]
  let ?y = "settled cfg now (outcome_of str r) x"
  have wft: "sys_inv ?t" unfolding turn_def by (rule sys_run_inv [OF inv])
  have y: "next_attempt_at ?y \<le> now + max 0 (max_backoff_seconds cfg) \<and> 0 \<le> attempts ?y" if "status ?y = Pending"
    using that x'(4) by (auto simp: settled_def split: if_splits)
  have "next_attempt_at z \<le> now + max 0 (max_backoff_seconds cfg) \<and> 0 \<le> attempts z"
    if z: "z \<in> set (rows (store ?t))" "row_cdn z = c" "status z = Pending" for z
  proof -
    have row_z: "row_of (store ?t) (row_id z) = Some z" using z(1) by (simp add: row_of_Some [OF sys_invD(1) [OF wft]])
    show ?thesis
    proof (cases "row_id z = row_id x")
      case True
      with row_z have "z = ?y" by (simp add: turn(1))
      with y z(3) show ?thesis by simp
    next
      case False
      with row_z have "z \<in> set (rows (store s))" by (auto simp: turn(1) dest: row_of_id)
      with z assms(1) have "next_attempt_at z \<le> now" "0 \<le> attempts z" by (auto simp: rested_def)
      then show ?thesis by linarith
    qed
  qed
  then have "rested ?t c (now + max 0 (max_backoff_seconds cfg))"
    using wft turn(3-5) by (simp add: rested_def)
  moreover obtain f where f: "rows (store ?t) = map (\<lambda>z. if row_id z = row_id x then f z else z) (rows (store s))" "f x = ?y"
    using turn(2) by blast
  have "work (max_attempts cfg) c (store ?t) + weight (max_attempts cfg) c x =
      work (max_attempts cfg) c (store s) + weight (max_attempts cfg) c ?y"
    unfolding work_def f(1) f(2) [symmetric] by (rule sum_update [OF wf_distinct [OF wf] x'(1) refl])
  with settled_weight [OF x'(2,3), of cfg now "outcome_of str r"]
  have "work (max_attempts cfg) c (store ?t) < work (max_attempts cfg) c (store s)" by linarith
  ultimately show ?thesis by simp
qed

lemma turns_drain:
  "rested s c t \<Longrightarrow> max_attempts cfg \<le> 1025 \<Longrightarrow> spaced (max 0 (max_backoff_seconds cfg)) t tws \<Longrightarrow>
     work (max_attempts cfg) c (store s) \<le> length tws \<Longrightarrow>
     \<exists>t'. rested (turns purge str cfg c tws s) c t' \<and> work (max_attempts cfg) c (store (turns purge str cfg c tws s)) = 0"
proof (induction tws arbitrary: s t)
  case (Cons tw tws)
  obtain now w where tw: "tw = (now, w)" by (cases tw)
  have r: "rested s c now" using Cons.prems(1,3) tw by (auto intro: rested_later)
  have sp: "spaced (max 0 (max_backoff_seconds cfg)) (now + max 0 (max_backoff_seconds cfg)) tws"
    using Cons.prems(3) tw by simp
  show ?case
  proof (cases "work (max_attempts cfg) c (store s) = 0")
    case True
    have "rested s c (now + max 0 (max_backoff_seconds cfg))" by (rule rested_later [OF r]) simp
    from Cons.IH [OF this Cons.prems(2) sp] True show ?thesis by (simp add: tw turn_idle [OF r True])
  next
    case False
    note p = turn_progress [OF r False Cons.prems(2), of purge str w]
    from Cons.IH [OF conjunct1 [OF p] Cons.prems(2) sp] conjunct2 [OF p] Cons.prems(4) show ?thesis
      by (simp add: tw)
  qed
qed auto

text \<open>
  C9. The queue of a CDN drains: whatever the provider answers, when the worker of the CDN keeps
  making turns, the longest backoff apart, then after as many turns as its pending jobs have calls
  left every job of the CDN is done or failed; for up to 1025 attempts, where the backoff is defined.
\<close>

theorem queue_drains:
  assumes "rested s c t" "max_attempts cfg \<le> 1025" "spaced (max 0 (max_backoff_seconds cfg)) t tws"
    and "work (max_attempts cfg) c (store s) \<le> length tws"
  shows "crashed (turns purge str cfg c tws s) = None \<and>
    (\<forall>r \<in> set (rows (store (turns purge str cfg c tws s))). row_cdn r = c \<longrightarrow> status r = Done \<or> status r = Failed)"
proof -
  let ?t = "turns purge str cfg c tws s"
  from turns_drain [OF assms] obtain t' where t: "rested ?t c t'" "work (max_attempts cfg) c (store ?t) = 0" by blast
  then have inv: "sys_inv ?t" "in_hand ?t c = None" "crashed ?t = None" by (simp_all add: rested_def)
  have "status r \<noteq> InFlight" if "r \<in> set (rows (store ?t))" "row_cdn r = c" for r
    using sys_invD(3) [OF inv(1), of "row_id r" r] that inv(2) by (auto simp: row_of_Some [OF sys_invD(1) [OF inv(1)]])
  with t(2) inv(3) show ?thesis by (metis job_status.exhaust work_zero)
qed

definition eight_turns :: "(real \<times> provider_world) list" where
  "eight_turns = map (\<lambda>k. (300 * k, world_of 429)) [1, 2, 3, 4, 5, 6, 7, 8]"

theorem queue_drains_witness:
  "filter (\<lambda>r. row_cdn r = ''f'' \<and> status r \<noteq> Done \<and> status r \<noteq> Failed)
     (rows (store (turns provider_purge (\<lambda>e. []) default_retry ''f'' eight_turns
       (sample_end [Put ''f'' [''https://repo.x/a''] 1, Put ''g'' [] 1])))) = []"
proof -
  let ?s = "sample_end [Put ''f'' [''https://repo.x/a''] 1, Put ''g'' [] 1]"
  have inv: "sys_inv ?s" by (rule sys_run_inv [OF first_boot_inv])
  have rows: "rows (store ?s) =
    [\<lparr>row_id = 1, row_cdn = ''f'', urls_json = json_dumps [''https://repo.x/a''], attempts = 0, next_attempt_at = 1,
      created_at = 1, status = Pending, message = None\<rparr>,
     \<lparr>row_id = 2, row_cdn = ''g'', urls_json = json_dumps [], attempts = 0, next_attempt_at = 1,
      created_at = 1, status = Pending, message = None\<rparr>]"
    by (simp add: run_eval Let_def)
  have sel: "crashed ?s = None" "in_hand ?s ''f'' = None" "providers ?s ''f'' = Some (FastlyProvider (init_fastly ''svc'' ''tok'' False))"
    by (simp_all add: run_eval Let_def)
  have r: "rested ?s ''f'' 1" unfolding rested_def sel rows using inv by simp
  have w: "work (max_attempts default_retry) ''f'' (store ?s) \<le> length eight_turns"
    unfolding work_def rows by (simp add: weight_def default_retry_def eight_turns_def)
  have sp: "spaced (max 0 (max_backoff_seconds default_retry)) 1 eight_turns"
    by (simp add: default_retry_def eight_turns_def)
  have m: "max_attempts default_retry \<le> 1025" by (simp add: default_retry_def)
  from queue_drains [OF r m sp w, of provider_purge "\<lambda>e. []"] show ?thesis
    by (auto simp: filter_empty_conv)
qed

section \<open>The crash loop\<close>

lemma overflow_turn:
  assumes "sys_inv s" "crashed s = None" "in_hand s c = None" "providers s c = Some p" "first_due s c now x"
    and "1024 \<le> attempts x" "attempts x + 1 < max_attempts cfg"
    and "json_loads (urls_json x) = Some us" "purge w p us = (p', r)"
    and "\<not> ok (outcome_of str r)" "retryable (outcome_of str r)"
  shows "crashed (turn purge str cfg c w now s) = Some OverflowError"
    "row_of (store (turn purge str cfg c w now s)) = (row_of (store s))(row_id x \<mapsto> x\<lparr>status := InFlight\<rparr>)"
    "lines (turn purge str cfg c w now s) = lines s @ [PurgeAttempt c (row_id x) (length us) (attempts x + 1)]"
proof -
  have row: "row_of (store s) (row_id x) = Some x" "status x = Pending"
    using assms(5) by (simp_all add: row_of_Some [OF sys_invD(1) [OF assms(1)]] first_due_def ready_def)
  from poll_first_due [OF assms(1,3) _ assms(5)] assms(4,8) obtain j where
    j: "poll c now s = s\<lparr>store := fst (claim_update (row_id x) (store s)), in_hand := (in_hand s)(c \<mapsto> j),
        lines := lines s @ [PurgeAttempt c (row_id x) (length us) (attempts x + 1)]\<rparr>"
      "job_id j = row_id x" "job_attempts j = attempts x" "job_urls j = us"
    by auto
  have e: "exponential_backoff (attempts x + 1) (initial_backoff_seconds cfg) (max_backoff_seconds cfg) = Inl OverflowError"
    using assms(6) by (simp add: exponential_backoff_def)
  have "turn purge str cfg c w now s = (poll c now s)\<lparr>providers := (providers s)(c \<mapsto> p'), crashed := Some OverflowError\<rparr>"
    using assms(2,4,7,9-11) e by (simp add: turn_def settle_def j settle_job_def)
  then show "crashed (turn purge str cfg c w now s) = Some OverflowError"
    "row_of (store (turn purge str cfg c w now s)) = (row_of (store s))(row_id x \<mapsto> x\<lparr>status := InFlight\<rparr>)"
    "lines (turn purge str cfg c w now s) = lines s @ [PurgeAttempt c (row_id x) (length us) (attempts x + 1)]"
    using row by (simp_all add: j(1) row_of_claimed)
qed

lemma first_due_again:
  assumes "sys_inv s" "in_hand s c = None" "first_due s c now x" "sys_inv s'"
    and "row_of (store s) (row_id x) = Some x"
    and "\<And>i. row_of (store s') i = map_option (\<lambda>r. if status r = InFlight then r\<lparr>status := Pending\<rparr> else r)
      (((row_of (store s))(row_id x \<mapsto> x\<lparr>status := InFlight\<rparr>)) i)"
  shows "first_due s' c now x" "row_of (store s') (row_id x) = Some x"
proof -
  have x: "ready now c x" "status x = Pending" using assms(3) by (simp_all add: first_due_def ready_def)
  then show row: "row_of (store s') (row_id x) = Some x" by (simp add: assms(6))
  note wf = sys_invD(1) [OF assms(1)] and wf' = sys_invD(1) [OF assms(4)]
  have "row_id x \<le> row_id y" if y: "y \<in> set (rows (store s'))" "ready now c y" for y
  proof (cases "row_id y = row_id x")
    case False
    have "row_of (store s') (row_id y) = Some y" using y(1) by (simp add: row_of_Some [OF wf'])
    with False obtain z where z: "row_of (store s) (row_id y) = Some z"
      "y = (if status z = InFlight then z\<lparr>status := Pending\<rparr> else z)"
      by (auto simp: assms(6))
    have "status z \<noteq> InFlight"
      using sys_invD(3) [OF assms(1) z(1)] assms(2) y(2) z(2) by (auto simp: ready_def)
    with z have "y \<in> set (rows (store s))" by (auto dest: row_of_id)
    with assms(3) y(2) show ?thesis by (simp add: first_due_def)
  qed simp
  with row x(1) show "first_due s' c now x" by (auto simp: first_due_def dest: row_of_id)
qed

text \<open>
  C40. Where the daemon cannot get on: with \<open>max_attempts\<close> above 1025, a job that has failed 1024 times
  and is answered retryably once more raises OverflowError in the worker, which ends the daemon with
  the attempt not counted; every restart calls the provider again and ends the same way, without end,
  and no later job of the CDN is tried.
\<close>

theorem overflow_crash_loop:
  assumes "sys_inv s" "crashed s = None" "in_hand s c = None" "providers s c = Some p" "fresh c = Some p"
    and "first_due s c now x" "1024 \<le> attempts x" "attempts x + 1 < max_attempts cfg"
    and "json_loads (urls_json x) = Some us" "purge w p us = (p', r)"
    and "\<not> ok (outcome_of str r)" "retryable (outcome_of str r)"
    and "s' = sys_run purge str cfg fresh (concat (replicate n [Poll c now, Settle c w now, Restart])) s"
  shows "row_of (store s') (row_id x) = Some x \<and>
    attempts_logged (row_id x) (lines s') = attempts_logged (row_id x) (lines s) + n \<and>
    crashed (turn purge str cfg c w now s') = Some OverflowError"
  using assms(1-4,6,13)
proof (induction n arbitrary: s)
  case 0
  have "row_of (store s) (row_id x) = Some x"
    using 0(5) by (simp add: row_of_Some [OF sys_invD(1) [OF 0(1)]] first_due_def)
  with 0 overflow_turn(1) [where purge = purge and w = w and p = p and us = us, OF 0(1-5) assms(7-12)] show ?case by simp
next
  case (Suc n)
  let ?t = "turn purge str cfg c w now s"
  let ?b = "boot fresh (store ?t) (lines ?t)"
  note o = overflow_turn [where purge = purge and w = w and p = p and us = us, OF Suc.prems(1-5) assms(7-12)]
  have t: "sys_run purge str cfg fresh [Poll c now, Settle c w now] s = ?t"
    by (simp add: turn_def)
  have run: "s' = sys_run purge str cfg fresh (concat (replicate n [Poll c now, Settle c w now, Restart])) ?b"
    using Suc.prems(6) t by simp
  have inv: "sys_inv ?b"
    by (rule boot_inv, rule sys_invD(1)) (simp add: turn_def sys_run_inv [OF Suc.prems(1)] del: sys_run.simps)
  have row: "row_of (store s) (row_id x) = Some x"
    using Suc.prems(5) by (simp add: row_of_Some [OF sys_invD(1) [OF Suc.prems(1)]] first_due_def)
  have due: "first_due ?b c now x"
    by (rule first_due_again [OF Suc.prems(1,3,5) inv row]) (simp only: boot_sel(1) o(2))
  have "attempts_logged (row_id x) (lines ?b) = attempts_logged (row_id x) (lines s) + 1"
    by (auto simp: boot_def o(3) attempts_logged_def split: prod.splits)
  with Suc.IH [OF inv _ _ _ due run] assms(5) show ?case by (simp add: boot_sel)
qed

definition stubborn_row :: job_row where
  "stubborn_row = \<lparr>row_id = 1, row_cdn = ''f'', urls_json = json_dumps [''https://repo.x/a''], attempts = 1024,
     next_attempt_at = 1, created_at = 1, status = Pending, message = None\<rparr>"

definition stubborn_retry :: retry_config where
  "stubborn_retry = \<lparr>max_attempts = 2000, initial_backoff_seconds = 5, max_backoff_seconds = 300\<rparr>"

theorem overflow_crash_loop_witness:
  "crashed (turn provider_purge (\<lambda>e. []) stubborn_retry ''f'' (world_of 429) 2
      (sys_run provider_purge (\<lambda>e. []) stubborn_retry sample_providers
        (concat (replicate 7 [Poll ''f'' 2, Settle ''f'' (world_of 429) 2, Restart]))
        (boot sample_providers \<lparr>rows = [stubborn_row], last_id = 1\<rparr> []))) = Some OverflowError"
proof -
  let ?d = "\<lparr>rows = [stubborn_row], last_id = 1\<rparr>"
  let ?s = "boot sample_providers ?d []"
  let ?p = "FastlyProvider (init_fastly ''svc'' ''tok'' False)"
  have "wf_db ?d" by (auto simp: wf_db_def wf_row_def stubborn_row_def)
  then have inv: "sys_inv ?s" by (rule boot_inv)
  have rows: "rows (store ?s) = [stubborn_row]"
    by (simp add: boot_def open_db_def reset_in_flight_def update_rows_def stubborn_row_def)
  have sel: "crashed ?s = None" "in_hand ?s ''f'' = None" "providers ?s ''f'' = Some ?p" "sample_providers ''f'' = Some ?p"
    by (simp_all add: boot_sel sample_providers_def)
  have x: "first_due ?s ''f'' 2 stubborn_row"
    unfolding first_due_def rows by (simp add: ready_def stubborn_row_def)
  have a: "1024 \<le> attempts stubborn_row" "attempts stubborn_row + 1 < max_attempts stubborn_retry"
    "json_loads (urls_json stubborn_row) = Some [''https://repo.x/a'']"
    by (simp_all add: stubborn_row_def stubborn_retry_def json_roundtrip)
  have p: "provider_purge (world_of 429) ?p [''https://repo.x/a''] = (?p, Inr (failure True ''HTTP 429''))"
    using show_429 by (simp add: run_eval endpoint_a)
  have r: "\<not> ok (outcome_of (\<lambda>e. []) (Inr (failure True ''HTTP 429'')))"
    "retryable (outcome_of (\<lambda>e. []) (Inr (failure True ''HTTP 429'')))"
    by (simp_all add: outcome_of_def)
  from overflow_crash_loop [where purge = provider_purge and w = "world_of 429" and p = ?p and c = "''f''" and now = 2 and n = 7 and fresh = sample_providers
      and str = "\<lambda>e. []", OF inv sel x a p r refl] show ?thesis by blast
qed

end
