(* ===== verification/Worker_Failure.thy ===== *)
theory Worker_Failure
  imports Worker_Progress
begin

text \<open>
  SQLite raises while a worker records what its provider answered: what the next start finds, and
  what the provider sees again.
\<close>

lemma record_raises_settled:
  assumes "crashed s = None" "in_hand s c = Some j" "providers s c = Some p" "purge w p (job_urls j) = (p', r)"
    and "settle_job cfg c now j (outcome_of str r) (store s) = Inr (d, l)"
  shows "sys_step purge str cfg fresh (RecordRaises c w now landed e) s =
    s\<lparr>store := (if landed then d else store s), providers := (providers s)(c \<mapsto> p'),
      in_hand := (if landed then (in_hand s)(c := None) else in_hand s), crashed := Some e, lines := lines s @ [l]\<rparr>"
  using assms by (simp add: record_raises_def)

lemma settled_not_in_flight:
  fixes s :: "'p system" and purge :: "'w \<Rightarrow> 'p \<Rightarrow> string list \<Rightarrow> 'p \<times> purge_result res"
  assumes "sys_inv s" "crashed s = None" "in_hand s c = Some j" "providers s c = Some p" "purge w p (job_urls j) = (p', r)"
    and "settle_job cfg c now j (outcome_of str r) (store s) = Inr (d, l)"
  shows "\<exists>y. row_of d (job_id j) = Some y \<and> status y \<noteq> InFlight"
proof -
  have s: "settle purge str cfg c w now s = s\<lparr>store := d, providers := (providers s)(c \<mapsto> p'),
      in_hand := (in_hand s)(c := None), lines := lines s @ [l]\<rparr>"
    using assms(3-6) by (simp add: settle_def)
  show ?thesis
  proof (cases rule: settle_cases [OF assms(1), of purge str cfg c w now])
    case 1
    from arg_cong [OF this, of lines] show ?thesis by (simp add: s)
  next
    case (2 p'' e)
    from arg_cong [OF this, of lines] show ?thesis by (simp add: s)
  next
    case 3: (3 j' q q' r' d' l' x y)
    from arg_cong [OF 3(4), of store] have "d' = d" by (simp add: s)
    with 3(1,13) settled_row_status [OF 3(14)] assms(3) show ?thesis by simp
  qed
qed

text \<open>
  C16. When SQLite raises while the answer of a provider is recorded, the daemon stops with that
  exception, the result logged. If the statement takes effect all the same, the next start finds the
  job as settled. Otherwise it finds the job pending with the attempts and the due time it was claimed
  with, whatever was answered: the call is not counted, and as soon as the job is the first one due the
  worker claims it with the same URLs, so that a batch the CDN has accepted is sent to it again.
\<close>

theorem record_failure:
  assumes "sys_inv s" "crashed s = None" "in_hand s c = Some j" "providers s c = Some p" "fresh c = Some p0"
    and "row_of (store s) (job_id j) = Some x"
    and "purge w p (job_urls j) = (p', r)" "settle_job cfg c now j (outcome_of str r) (store s) = Inr (d, l)"
    and "s1 = (\<lambda>landed. sys_step purge str cfg fresh (RecordRaises c w now landed e) s)"
    and "s2 = (\<lambda>landed. sys_step purge str cfg fresh Restart (s1 landed))"
  shows "crashed (s1 landed) = Some e \<and> lines (s1 landed) = lines s @ [l] \<and>
    row_of (store (s2 True)) (job_id j) = row_of d (job_id j) \<and>
    row_of (store (s2 False)) (job_id j) = Some (x\<lparr>status := Pending\<rparr>) \<and>
    (first_due (s2 False) c later (x\<lparr>status := Pending\<rparr>) \<longrightarrow>
      (\<exists>j'. in_hand (poll c later (s2 False)) c = Some j' \<and> job_id j' = job_id j \<and> job_urls j' = job_urls j \<and>
         job_attempts j' = job_attempts j))"
proof -
  note raised = record_raises_settled [where purge = purge and str = str and fresh = fresh and e = e and w = w, OF assms(2-4,7,8)]
  note x = sys_invD(2) [OF assms(1,3)]
  have row: "row_id x = job_id j" "status x = InFlight" "attempts x = job_attempts j"
    "json_loads (urls_json x) = Some (job_urls j)"
    using x assms(6) by (auto simp: holds_def dest: row_of_id)
  from settled_not_in_flight [where purge = purge and w = w and str = str, OF assms(1-4,7,8)] obtain y where y: "row_of d (job_id j) = Some y" "status y \<noteq> InFlight"
    by blast
  have r2: "row_of (store (s2 True)) (job_id j) = row_of d (job_id j)"
    "row_of (store (s2 False)) (job_id j) = Some (x\<lparr>status := Pending\<rparr>)"
    using y assms(6) row(2) by (simp_all add: assms(9,10) raised boot_sel del: sys_step.simps(3,6))
  have inv: "sys_inv (s2 False)" unfolding assms(9,10) by (intro sys_step_inv assms(1))
  have s2: "in_hand (s2 False) c = None" "providers (s2 False) c \<noteq> None"
    using assms(5) by (simp_all add: assms(10) boot_sel)
  have "\<exists>j'. in_hand (poll c later (s2 False)) c = Some j' \<and> job_id j' = job_id j \<and> job_urls j' = job_urls j \<and>
      job_attempts j' = job_attempts j" if "first_due (s2 False) c later (x\<lparr>status := Pending\<rparr>)"
    using poll_first_due [OF inv s2 that] row by auto
  with r2 show ?thesis by (auto simp: assms(9) raised simp del: sys_step.simps)
qed

theorem record_failure_witness:
  "let s2 = sys_run provider_purge (\<lambda>e. []) default_retry sample_providers
      [RecordRaises ''f'' (world_of 200) 3 False (OSError ''disk I/O error''), Restart] (sample_end (take 2 sample_actions)) in
    \<exists>j. in_hand (poll ''f'' 4 s2) ''f'' = Some j \<and> job_urls j = [''https://repo.x/a''] \<and> job_attempts j = 0"
proof -
  let ?s = "sample_end (take 2 sample_actions)" and ?p = "FastlyProvider (init_fastly ''svc'' ''tok'' False)"
  let ?x = "\<lparr>row_id = 1, row_cdn = ''f'', urls_json = json_dumps [''https://repo.x/a''], attempts = 0, next_attempt_at = 1,
      created_at = 1, status = InFlight, message = None\<rparr>"
  let ?e = "OSError ''disk I/O error''"
  have inv: "sys_inv ?s" by (rule sys_run_inv [OF first_boot_inv])
  have rows: "rows (store ?s) = [?x]" by (simp add: run_eval Let_def)
  obtain j where sel: "crashed ?s = None" "in_hand ?s ''f'' = Some j" "providers ?s ''f'' = Some ?p"
    and j: "job_id j = 1" "job_urls j = [''https://repo.x/a'']" "job_attempts j = 0"
    by (simp add: run_eval Let_def)
  have fresh: "sample_providers ''f'' = Some ?p" by (simp add: sample_providers_def)
  have row: "row_of (store ?s) (job_id j) = Some ?x" by (simp add: row_of_def rows j)
  have p: "provider_purge (world_of 200) ?p (job_urls j) = (?p, Inr (success ''ok''))"
    by (simp add: run_eval endpoint_a j)
  obtain d l where d: "settle_job default_retry ''f'' 3 j (outcome_of (\<lambda>e. []) (Inr (success ''ok''))) (store ?s) = Inr (d, l)"
    by (simp add: settle_job_def outcome_of_def Let_def)
  let ?s2 = "sys_step provider_purge (\<lambda>e. []) default_retry sample_providers Restart
     (sys_step provider_purge (\<lambda>e. []) default_retry sample_providers (RecordRaises ''f'' (world_of 200) 3 False ?e) ?s)"
  note f = record_failure [where purge = provider_purge and fresh = sample_providers and c = "''f''" and w = "world_of 200" and str = "\<lambda>e. []", OF inv sel fresh row p d refl refl,
      of True ?e 4]
  let ?s1 = "sys_step provider_purge (\<lambda>e. []) default_retry sample_providers (RecordRaises ''f'' (world_of 200) 3 False ?e) ?s"
  have "store ?s1 = store ?s"
    by (subst record_raises_settled [where purge = provider_purge and w = "world_of 200" and str = "\<lambda>e. []", OF sel p d]) simp
  then have "rows (store ?s1) = [?x]" by (simp only: rows)
  moreover have "rows (store (boot fresh b ls)) = map (\<lambda>r. if status r = InFlight then r\<lparr>status := Pending\<rparr> else r) (rows b)"
    for fresh :: "string \<Rightarrow> provider option" and b ls
    by (simp add: boot_def open_db_def reset_in_flight_def update_rows_def split: prod.splits)
  ultimately have "rows (store ?s2) = [?x\<lparr>status := Pending\<rparr>]" by (simp only: sys_step.simps(1)) simp
  then have "first_due ?s2 ''f'' 4 (?x\<lparr>status := Pending\<rparr>)" by (simp add: first_due_def ready_def)
  with f j have "\<exists>j'. in_hand (poll ''f'' 4 ?s2) ''f'' = Some j' \<and> job_urls j' = [''https://repo.x/a''] \<and> job_attempts j' = 0"
    by metis
  then show ?thesis by (simp only: Let_def sys_run.simps)
qed

end
