(* ===== verification/Config_Load.thy ===== *)
theory Config_Load
  imports Provider_Table "HOL-Library.Word"
begin

unbundle bit_operations_syntax

text \<open>
  \<open>config.load\<close>: the mode check of the secrets file, reading and parsing both files, validation, the
  checks of watches and bindings, and the attachment of credentials. The file system, the YAML parser
  and pydantic's \<open>model_validate\<close> are the parameter \<open>load_env\<close>; each of them can raise the exception
  that \<open>load\<close> expects of it or any other one. A parsed document is \<open>yaml\<close>.
\<close>

section \<open>Documents\<close>

datatype yaml =
    YNull
  | YBool bool
  | YInt int
  | YFloat real string \<comment> \<open>with its \<open>str\<close>\<close>
  | YStr string
  | YSeq "yaml list" string
  | YMap "(yaml \<times> yaml) list" string
  | YOther string \<comment> \<open>a date, bytes or a set that is not empty\<close>

definition truthy :: "yaml \<Rightarrow> bool" where
  "truthy y = (case y of
     YNull \<Rightarrow> False | YBool b \<Rightarrow> b | YInt n \<Rightarrow> n \<noteq> 0 | YFloat x s \<Rightarrow> x \<noteq> 0 | YStr s \<Rightarrow> s \<noteq> []
   | YSeq ys s \<Rightarrow> ys \<noteq> [] | YMap kvs s \<Rightarrow> kvs \<noteq> [] | YOther s \<Rightarrow> True)"

definition or_empty :: "yaml \<Rightarrow> yaml" where
  \<comment> \<open>\<open>y or {}\<close>\<close>
  "or_empty y = (if truthy y then y else YMap [] ''{}'')"

fun yaml_str :: "yaml \<Rightarrow> string" where
  "yaml_str YNull = ''None''"
| "yaml_str (YBool b) = (if b then ''True'' else ''False'')"
| "yaml_str (YInt n) = show_int n"
| "yaml_str (YFloat x s) = s"
| "yaml_str (YStr s) = s"
| "yaml_str (YSeq ys s) = s"
| "yaml_str (YMap kvs s) = s"
| "yaml_str (YOther s) = s"

definition int_max_str :: int where
  \<comment> \<open>from here on \<open>str\<close> of an integer raises a ValueError: it has more than 4300 digits\<close>
  "int_max_str = 10 ^ 4300"

fun str_fails :: "yaml \<Rightarrow> bool" where
  "str_fails (YInt n) \<longleftrightarrow> int_max_str \<le> \<bar>n\<bar>"
| "str_fails (YSeq ys s) \<longleftrightarrow> (\<exists>y \<in> set ys. str_fails y)"
| "str_fails (YMap kvs s) \<longleftrightarrow> (\<exists>kv \<in> set kvs. str_fails (fst kv) \<or> str_fails (snd kv))"
| "str_fails y \<longleftrightarrow> False"

section \<open>The environment\<close>

datatype refusal =
    Reported string \<comment> \<open>the exception that \<open>load\<close> catches (OSError, YAMLError, ValidationError), with its text\<close>
  | Escapes exn \<comment> \<open>any other one, such as the ValueError of a timestamp that is no date\<close>

datatype read_result =
    FileText string
  | ReadFails string \<comment> \<open>OSError, with its text\<close>
  | ReadRaises exn \<comment> \<open>such as UnicodeDecodeError\<close>

record load_env =
  stat_mode :: "path \<Rightarrow> refusal + 32 word" \<comment> \<open>\<open>st_mode\<close>\<close>
  read_text :: "path \<Rightarrow> read_result"
  safe_load :: "string \<Rightarrow> refusal + yaml"
  model_validate :: "yaml \<Rightarrow> refusal + config"
  path_exists :: "path \<Rightarrow> bool res"

definition octal_digits :: "nat \<Rightarrow> string" where
  \<comment> \<open>of a permission mode: at most four digits\<close>
  "octal_digits n = (let ds = [n div 512 mod 8, n div 64 mod 8, n div 8 mod 8, n mod 8];
      ds' = dropWhile (\<lambda>d. d = 0) ds in map (\<lambda>d. char_of (d + 48)) (if ds' = [] then [0] else ds'))"

definition perm_bits :: "32 word \<Rightarrow> 32 word" where
  \<comment> \<open>\<open>stat.S_IMODE\<close>\<close>
  "perm_bits m = m AND 0xFFF"

section \<open>Loading\<close>

definition config_error :: "string \<Rightarrow> refusal \<Rightarrow> exn" where
  \<comment> \<open>\<open>raise ConfigError(...) from e\<close> for the exception that is caught\<close>
  "config_error what x = (case x of Reported m \<Rightarrow> ConfigError (what @ m) | Escapes e \<Rightarrow> e)"

definition check_mode :: "load_env \<Rightarrow> path \<Rightarrow> unit res" where
  "check_mode w sp =
     (case stat_mode w sp of
        Inl x \<Rightarrow> Inl (config_error (''cannot stat secrets file '' @ path_str sp @ '': '') x)
      | Inr st \<Rightarrow>
          if perm_bits st AND 0x3F \<noteq> 0
          then Inl (ConfigError (''secrets file '' @ path_str sp @ '' has insecure permission 0o'' @
                 octal_digits (unat (perm_bits st)) @ ''; expected mode 0600 (group/world bits must be clear)''))
          else Inr ())"

definition read_document :: "load_env \<Rightarrow> string \<Rightarrow> path \<Rightarrow> yaml res" where
  "read_document w what p =
     (case read_text w p of
        ReadFails e \<Rightarrow> Inl (ConfigError (''cannot read '' @ what @ '' file '' @ path_str p @ '': '' @ e))
      | ReadRaises e \<Rightarrow> Inl e
      | FileText s \<Rightarrow>
          (case safe_load w s of
             Inl x \<Rightarrow> Inl (config_error (''failed to parse '' @ path_str p @ '': '') x)
           | Inr y \<Rightarrow> Inr (or_empty y)))"

definition secrets_map :: "path \<Rightarrow> yaml \<Rightarrow> (yaml \<times> yaml) list res" where
  "secrets_map sp y = (case y of
     YMap kvs s \<Rightarrow> Inr kvs
   | _ \<Rightarrow> Inl (ConfigError (''secrets file '' @ path_str sp @ '' must be a mapping'')))"

fun check_bindings :: "load_env \<Rightarrow> string list \<Rightarrow> path \<Rightarrow> binding list \<Rightarrow> unit res" where
  "check_bindings w names p [] = Inr ()"
| "check_bindings w names p (b # bs) =
     (if List.member names (cdn b) then check_bindings w names p bs
      else Inl (ConfigError (''watch '' @ path_str p @ '': binding references unknown cdn '' @ py_repr (cdn b) @
             ''; defined cdns: ['' @ join_with '', '' (map (py_repr) (sort names)) @ '']'')))"

fun check_watches :: "load_env \<Rightarrow> string list \<Rightarrow> watch_config list \<Rightarrow> unit res" where
  "check_watches w names [] = Inr ()"
| "check_watches w names (wc # wcs) =
     bind_res (path_exists w (watch_path wc)) (\<lambda>found.
       if \<not> found then Inl (ConfigError (''watch path '' @ path_str (watch_path wc) @ '' does not exist''))
       else bind_res (check_bindings w names (watch_path wc) (bindings wc)) (\<lambda>_. check_watches w names wcs))"

definition int_str_error :: string where
  "int_str_error = ''Exceeds the limit (4300 digits) for integer string conversion; '' @
     ''use sys.set_int_max_str_digits() to increase the limit''"

fun attach :: "load_env \<Rightarrow> path \<Rightarrow> (yaml \<times> yaml) list \<Rightarrow> string list \<Rightarrow> config \<Rightarrow> config res" where
  \<comment> \<open>the credentials of these CDNs\<close>
  "attach w sp secrets [] cfg = Inr cfg"
| "attach w sp secrets (n # ns) cfg =
     (case map_of secrets (YStr n) of
        Some (YMap (kv # kvs) s) \<Rightarrow>
          if str_fails (YMap (kv # kvs) s) then Inl (ValueError int_str_error)
          else attach w sp secrets ns (cfg\<lparr>credentials := AList.update n
            (dict_of (map (\<lambda>(k, v). (yaml_str k, yaml_str v)) (kv # kvs))) (credentials cfg)\<rparr>)
      | _ \<Rightarrow> Inl (ConfigError (''no credentials for cdn '' @ py_repr n @ '' in '' @ path_str sp)))"

definition validated :: "load_env \<Rightarrow> yaml \<Rightarrow> config res" where
  "validated w cd = (case model_validate w cd of
     Inl x \<Rightarrow> Inl (config_error ''invalid configuration: '' x) | Inr cfg \<Rightarrow> Inr cfg)"

definition load :: "load_env \<Rightarrow> path \<Rightarrow> path \<Rightarrow> config res" where
  "load w cp sp =
     bind_res (check_mode w sp) (\<lambda>_.
     bind_res (read_document w ''config'' cp) (\<lambda>cd.
     bind_res (read_document w ''secrets'' sp) (\<lambda>sd.
     bind_res (secrets_map sp sd) (\<lambda>secrets.
     bind_res (validated w cd) (\<lambda>cfg.
     bind_res (check_watches w (dict_keys (cdns cfg)) (watches cfg)) (\<lambda>_.
     attach w sp secrets (dict_keys (cdns cfg)) cfg))))))"

section \<open>What a loaded configuration satisfies\<close>

lemma check_mode_iff:
  "check_mode w sp = Inr () \<longleftrightarrow> (\<exists>st. stat_mode w sp = Inr st \<and> (\<forall>i < 6. \<not> bit st i))"
proof -
  have "perm_bits st AND 0x3F = st AND mask 6" for st :: "32 word"
  proof -
    have "(0xFFF AND 0x3F :: 32 word) = mask 6" by (simp add: mask_numeral)
    then show ?thesis by (simp only: perm_bits_def and.assoc)
  qed
  moreover have "st AND mask 6 = 0 \<longleftrightarrow> (\<forall>i < 6. \<not> bit st i)" for st :: "32 word"
  proof
    assume z: "st AND mask 6 = 0"
    show "\<forall>i < 6. \<not> bit st i"
    proof (intro allI impI notI)
      fix i :: nat assume "i < 6" "bit st i"
      then have "bit (st AND mask 6) i" by (simp add: bit_simps)
      with z show False by simp
    qed
  next
    assume "\<forall>i < 6. \<not> bit st i"
    then show "st AND mask 6 = 0" by (intro bit_eqI) (auto simp: bit_simps)
  qed
  ultimately show ?thesis by (auto simp: check_mode_def split: sum.splits)
qed

lemma check_bindings_iff: "check_bindings w names p bs = Inr () \<longleftrightarrow> (\<forall>b \<in> set bs. cdn b \<in> set names)"
  by (induction bs) auto

lemma check_watches_iff:
  "check_watches w names wcs = Inr () \<longleftrightarrow>
     (\<forall>wc \<in> set wcs. path_exists w (watch_path wc) = Inr True \<and> (\<forall>b \<in> set (bindings wc). cdn b \<in> set names))"
  by (induction wcs) (auto simp: bind_res_eq_Inr check_bindings_iff)

definition given :: "(yaml \<times> yaml) list \<Rightarrow> string \<Rightarrow> bool" where
  \<comment> \<open>the secrets have a non-empty mapping for this CDN\<close>
  "given secrets n \<longleftrightarrow> (\<exists>kvs s. map_of secrets (YStr n) = Some (YMap kvs s) \<and> kvs \<noteq> [])"

lemma attach_Inr:
  "attach w sp secrets ns cfg = Inr cfg' \<Longrightarrow>
     cdns cfg' = cdns cfg \<and> watches cfg' = watches cfg \<and> daemon cfg' = daemon cfg \<and>
     (\<forall>n \<in> set ns. given secrets n) \<and>
     (\<forall>n. n \<notin> set ns \<longrightarrow> map_of (credentials cfg') n = map_of (credentials cfg) n)"
proof (induction ns arbitrary: cfg)
  case (Cons n ns)
  from Cons.prems obtain kv kvs s where m: "map_of secrets (YStr n) = Some (YMap (kv # kvs) s)"
    and rest: "attach w sp secrets ns (cfg\<lparr>credentials := AList.update n
            (dict_of (map (\<lambda>(k, v). (yaml_str k, yaml_str v)) (kv # kvs))) (credentials cfg)\<rparr>) = Inr cfg'"
    by (auto split: option.splits yaml.splits list.splits if_splits simp del: str_fails.simps)
  have "given secrets n" using m by (auto simp: given_def)
  with Cons.IH [OF rest] show ?case by (auto simp: update_conv')
qed simp

lemma attach_credentials:
  "attach w sp secrets ns cfg = Inr cfg' \<Longrightarrow> distinct ns \<Longrightarrow> n \<in> set ns \<Longrightarrow>
     \<exists>kvs s. map_of secrets (YStr n) = Some (YMap kvs s) \<and>
       map_of (credentials cfg') n = Some (dict_of (map (\<lambda>(k, v). (yaml_str k, yaml_str v)) kvs))"
proof (induction ns arbitrary: cfg)
  case (Cons m ns)
  from Cons.prems obtain kv kvs s where m: "map_of secrets (YStr m) = Some (YMap (kv # kvs) s)"
    and rest: "attach w sp secrets ns (cfg\<lparr>credentials := AList.update m
            (dict_of (map (\<lambda>(k, v). (yaml_str k, yaml_str v)) (kv # kvs))) (credentials cfg)\<rparr>) = Inr cfg'"
    by (auto split: option.splits yaml.splits list.splits if_splits simp del: str_fails.simps)
  show ?case
  proof (cases "n = m")
    case True
    with Cons.prems(2) attach_Inr [OF rest] m show ?thesis by (auto simp: update_conv')
  next
    case False
    with Cons.IH [OF rest] Cons.prems(2,3) show ?thesis by simp
  qed
qed simp

lemma validated_Inr: "validated w cd = Inr cfg \<longleftrightarrow> model_validate w cd = Inr cfg"
  by (simp add: validated_def split: sum.splits)

lemma load_Inr:
  "load w cp sp = Inr cfg \<longleftrightarrow>
     (\<exists>cd sd secrets cfg0. check_mode w sp = Inr () \<and> read_document w ''config'' cp = Inr cd \<and>
       read_document w ''secrets'' sp = Inr sd \<and> secrets_map sp sd = Inr secrets \<and>
       model_validate w cd = Inr cfg0 \<and> check_watches w (dict_keys (cdns cfg0)) (watches cfg0) = Inr () \<and>
       attach w sp secrets (dict_keys (cdns cfg0)) cfg0 = Inr cfg)"
  by (auto simp: load_def bind_res_eq_Inr validated_Inr)

text \<open>
  C29. A configuration is loaded only when it is safe to run: no permission bit of group or others is
  set on the secrets file, every watch exists, every binding names a configured CDN, and every CDN has
  a non-empty mapping in the secrets file, whose entries, as strings, are its credentials; everything
  else is as validated.
\<close>

theorem load_sound:
  assumes "load w cp sp = Inr cfg" "distinct (dict_keys (cdns cfg))"
  shows "(\<exists>st. stat_mode w sp = Inr st \<and> (\<forall>i < 6. \<not> bit st i)) \<and>
    (\<forall>wc \<in> set (watches cfg). path_exists w (watch_path wc) = Inr True \<and>
       (\<forall>b \<in> set (bindings wc). cdn b \<in> set (dict_keys (cdns cfg)))) \<and>
    (\<exists>sd secrets. read_document w ''secrets'' sp = Inr sd \<and> secrets_map sp sd = Inr secrets \<and>
       (\<forall>n \<in> set (dict_keys (cdns cfg)). \<exists>kvs s. map_of secrets (YStr n) = Some (YMap kvs s) \<and> kvs \<noteq> [] \<and>
          map_of (credentials cfg) n = Some (dict_of (map (\<lambda>(k, v). (yaml_str k, yaml_str v)) kvs)))) \<and>
    (\<exists>cd cfg0. read_document w ''config'' cp = Inr cd \<and> model_validate w cd = Inr cfg0 \<and>
       cdns cfg = cdns cfg0 \<and> watches cfg = watches cfg0 \<and> daemon cfg = daemon cfg0)"
proof -
  from assms(1) obtain cd sd secrets cfg0 where l: "check_mode w sp = Inr ()" "read_document w ''config'' cp = Inr cd"
    "read_document w ''secrets'' sp = Inr sd" "secrets_map sp sd = Inr secrets" "model_validate w cd = Inr cfg0"
    "check_watches w (dict_keys (cdns cfg0)) (watches cfg0) = Inr ()"
    "attach w sp secrets (dict_keys (cdns cfg0)) cfg0 = Inr cfg"
    unfolding load_Inr by blast
  note a = attach_Inr [OF l(7)]
  have "\<exists>kvs s. map_of secrets (YStr n) = Some (YMap kvs s) \<and> kvs \<noteq> [] \<and>
      map_of (credentials cfg) n = Some (dict_of (map (\<lambda>(k, v). (yaml_str k, yaml_str v)) kvs))"
    if "n \<in> set (dict_keys (cdns cfg))" for n
  proof -
    from that a have n: "n \<in> set (dict_keys (cdns cfg0))" by simp
    with a have "given secrets n" by blast
    moreover have "distinct (dict_keys (cdns cfg0))" using assms(2) a by simp
    note attach_credentials [OF l(7) this n]
    ultimately show ?thesis by (auto simp: given_def)
  qed
  with l a show ?thesis by (auto simp: check_mode_iff check_watches_iff)
qed

lemma map_of_str_fails: "map_of kvs k = Some v \<Longrightarrow> str_fails v \<Longrightarrow> str_fails (YMap kvs s)"
  by (force dest!: map_of_SomeD)

lemma secrets_map_Inr: "secrets_map sp (or_empty y) = Inr kvs \<Longrightarrow> str_fails (YMap kvs s) \<Longrightarrow> str_fails y"
  by (auto simp: secrets_map_def or_empty_def split: if_splits yaml.splits)

lemma read_document_Inr:
  "read_document w s p = Inr d \<longleftrightarrow> (\<exists>t y. read_text w p = FileText t \<and> safe_load w t = Inr y \<and> d = or_empty y)"
  by (auto simp: read_document_def split: read_result.splits sum.splits)

lemma attach_Inl:
  "attach w sp secrets ns cfg = Inl e \<Longrightarrow>
     (\<exists>m. e = ConfigError m) \<or> e = ValueError int_str_error \<and> (\<forall>s. str_fails (YMap secrets s))"
proof (induction ns arbitrary: cfg)
  case (Cons n ns)
  show ?case
  proof (cases "\<exists>kv kvs s. map_of secrets (YStr n) = Some (YMap (kv # kvs) s)")
    case True
    then obtain kv kvs s where m: "map_of secrets (YStr n) = Some (YMap (kv # kvs) s)" by blast
    show ?thesis
    proof (cases "str_fails (YMap (kv # kvs) s)")
      case True
      with Cons.prems m map_of_str_fails [OF m True] show ?thesis by (simp del: str_fails.simps)
    qed (use Cons m in \<open>simp del: str_fails.simps\<close>)
  next
    case False
    with Cons.prems show ?thesis by (auto split: option.splits yaml.splits list.splits)
  qed
qed simp

lemma check_mode_Inl:
  "check_mode w sp = Inl e \<Longrightarrow> (\<exists>m. e = ConfigError m) \<or> stat_mode w sp = Inl (Escapes e)"
  by (auto simp: check_mode_def config_error_def split: sum.splits if_splits refusal.splits)

lemma read_document_Inl:
  "read_document w s p = Inl e \<Longrightarrow> (\<exists>m. e = ConfigError m) \<or> read_text w p = ReadRaises e \<or>
     (\<exists>t. read_text w p = FileText t \<and> safe_load w t = Inl (Escapes e))"
  by (auto simp: read_document_def config_error_def split: read_result.splits sum.splits refusal.splits)

lemma validated_Inl:
  "validated w y = Inl e \<Longrightarrow> (\<exists>m. e = ConfigError m) \<or> model_validate w y = Inl (Escapes e)"
  by (auto simp: validated_def config_error_def split: sum.splits refusal.splits)

lemma secrets_map_Inl: "secrets_map sp y = Inl e \<Longrightarrow> \<exists>m. e = ConfigError m"
  by (auto simp: secrets_map_def split: yaml.splits)

lemma check_bindings_Inl: "check_bindings w ns p bs = Inl e \<Longrightarrow> \<exists>m. e = ConfigError m"
  by (induction bs) (auto split: if_splits)

lemma check_watches_Inl:
  "check_watches w ns wcs = Inl e \<Longrightarrow>
     (\<exists>m. e = ConfigError m) \<or> (\<exists>wc \<in> set wcs. path_exists w (watch_path wc) = Inl e)"
proof (induction wcs)
  case (Cons wc wcs)
  show ?case
  proof (cases "path_exists w (watch_path wc)")
    case (Inr found)
    with Cons check_bindings_Inl show ?thesis
      by (cases found; cases "check_bindings w ns (watch_path wc) (bindings wc)") auto
  qed (use Cons in auto)
qed simp

lemma load_InlE:
  assumes "load w cp sp = Inl e"
  obtains (mode) "check_mode w sp = Inl e"
    | (cdoc) "read_document w ''config'' cp = Inl e" | (sdoc) "read_document w ''secrets'' sp = Inl e"
    | (sec) sd where "secrets_map sp sd = Inl e"
    | (val) cd where "read_document w ''config'' cp = Inr cd" "validated w cd = Inl e"
    | (watch) cd cfg ns where "read_document w ''config'' cp = Inr cd" "model_validate w cd = Inr cfg"
        "check_watches w ns (watches cfg) = Inl e"
    | (att) sd secrets ns cfg where "read_document w ''secrets'' sp = Inr sd" "secrets_map sp sd = Inr secrets"
        "attach w sp secrets ns cfg = Inl e"
proof -
  show thesis
  proof (cases "check_mode w sp")
    case (Inr u)
    show thesis
    proof (cases "read_document w ''config'' cp")
      case cd: (Inr cd)
      show thesis
      proof (cases "read_document w ''secrets'' sp")
        case sd: (Inr sd)
        show thesis
        proof (cases "secrets_map sp sd")
          case ss: (Inr ss)
          show thesis
          proof (cases "validated w cd")
            case cfg: (Inr cfg)
            show thesis
            proof (cases "check_watches w (dict_keys (cdns cfg)) (watches cfg)")
              case (Inl x)
              with assms Inr cd sd ss cfg watch [OF cd] show thesis
                by (simp add: load_def validated_Inr)
            next
              case ws: (Inr v)
              with assms Inr cd sd ss cfg att [OF sd ss] show thesis by (simp add: load_def)
            qed
          qed (use assms Inr cd sd ss val in \<open>simp add: load_def\<close>)
        qed (use assms Inr cd sd sec in \<open>simp add: load_def\<close>)
      qed (use assms Inr cd sdoc in \<open>simp add: load_def\<close>)
    qed (use assms Inr cdoc in \<open>simp add: load_def\<close>)
  qed (use assms mode in \<open>simp add: load_def\<close>)
qed

lemma mode_first:
  assumes "load w cp sp = Inl e" "stat_mode w sp = Inr st" "i < 6" "bit st i"
  shows "(\<exists>m. e = ConfigError m) \<and>
    load (w\<lparr>read_text := r, safe_load := l, model_validate := v, path_exists := x\<rparr>) cp sp = Inl e"
proof -
  have "check_mode w sp \<noteq> Inr ()" using assms(2-4) by (auto simp: check_mode_iff)
  then obtain e' where e': "check_mode w sp = Inl e'" by (cases "check_mode w sp") auto
  then have "e' = e" using assms(1) by (simp add: load_def)
  moreover have "\<exists>m. e' = ConfigError m" using check_mode_Inl [OF e'] assms(2) by simp
  moreover have "check_mode (w\<lparr>read_text := r, safe_load := l, model_validate := v, path_exists := x\<rparr>) sp = check_mode w sp"
    by (simp add: check_mode_def)
  ultimately show ?thesis using e' by (simp add: load_def)
qed


section \<open>A pair of files\<close>

text \<open>A Fastly CDN whose secrets give a token, or the name of a token that is not \<open>api_token\<close>.\<close>

definition small_config :: config where
  "small_config = \<lparr>cdns = [(''f'', FastlyCdn ''svc'' False)], watches = [watch_block (parse_path ''/srv'') []],
     daemon = default_daemon, credentials = []\<rparr>"

definition file_env :: "32 word \<Rightarrow> string \<Rightarrow> load_env" where
  "file_env m k = \<lparr>stat_mode = (\<lambda>p. Inr m), read_text = (\<lambda>p. FileText (last (comps p))),
     safe_load = (\<lambda>s. Inr (if s = ''secrets.yaml'' then YMap [(YStr ''f'', YMap [(YStr k, YInt 7)] [])] [] else YNull)),
     model_validate = (\<lambda>y. Inr small_config), path_exists = (\<lambda>p. Inr True)\<rparr>"

lemma seven_small [simp]: "\<not> int_max_str \<le> 7"
proof -
  have "7 < (10 :: int) ^ n" if "1 \<le> n" for n :: nat
    using self_le_power [of "10 :: int" n] that by linarith
  from this [of 4300] have "7 < int_max_str" unfolding int_max_str_def by (simp only: one_le_numeral)
  then show ?thesis by (simp only: not_le)
qed

lemma small_load:
  "load (file_env 0x8180 k) (parse_path ''/etc/config.yaml'') (parse_path ''/etc/secrets.yaml'') =
     Inr (small_config\<lparr>credentials := [(''f'', [(k, yaml_str (YInt 7))])]\<rparr>)"
proof -
  have "(perm_bits 0x8180 AND 0x3F :: 32 word) = 0" by (simp add: perm_bits_def)
  then have m: "check_mode (file_env 0x8180 k) p = Inr ()" for p by (simp add: check_mode_def file_env_def)
  have c: "comps (parse_path ''/etc/config.yaml'') = [''etc'', ''config.yaml'']"
    "comps (parse_path ''/etc/secrets.yaml'') = [''etc'', ''secrets.yaml'']" by code_simp+
  show ?thesis
    unfolding load_def m
    by (simp add: read_document_def file_env_def c or_empty_def truthy_def secrets_map_def validated_def
        small_config_def watch_block_def dict_keys_def dict_of_def)
qed

theorem load_sound_witness:
  "map_of (credentials (projr (load (file_env 0x8180 ''api_token'') (parse_path ''/etc/config.yaml'')
     (parse_path ''/etc/secrets.yaml'')))) ''f'' \<noteq> None"
proof -
  have d: "distinct (dict_keys (cdns (small_config\<lparr>credentials := [(''f'', [(''api_token'', yaml_str (YInt 7))])]\<rparr>)))"
    by (simp add: small_config_def dict_keys_def)
  from load_sound [OF small_load d] show ?thesis by (simp add: small_load small_config_def dict_keys_def)
qed


text \<open>
  A timestamp that is no date, such as 2024-02-30 in either file, makes the parser raise a ValueError,
  which is no YAMLError: \<open>load\<close> raises it as it is.
\<close>

lemma bad_date_escapes:
  "load ((file_env 0x8180 ''k'')\<lparr>safe_load := \<lambda>s. Inl (Escapes (ValueError ''day is out of range for month''))\<rparr>) cp sp =
     Inl (ValueError ''day is out of range for month'')"
proof -
  have "(perm_bits 0x8180 AND 0x3F :: 32 word) = 0" by (simp add: perm_bits_def)
  then show ?thesis by (simp add: load_def check_mode_def file_env_def read_document_def config_error_def)
qed

end
