(* ===== verification/Batcher.thy ===== *)
theory Batcher
  imports Url_Mapper Sink
begin

text \<open>
  \<open>batcher.py\<close>: the state of \<open>Batcher\<close>, its operations, and the interleaving of its coroutines.

  \<open>async with self._lock\<close> sections run without a context switch up to the \<open>await\<close> of the queue's
  \<open>enqueue\<close> in \<open>_flush_locked\<close>. A flush is therefore two steps: \<open>begin_flush\<close> takes the URLs out of
  the buffer and leaves the pending batch in \<open>lock\<close> (the lock is held while the batch is being
  written), \<open>finish_flush\<close> is the return of \<open>enqueue\<close>. A debounce task is its program point in
  \<open>_debounce_loop\<close>. The queue is a parameter \<open>enq\<close> (the protocol \<open>EnqueueSink\<close>), and so is
  \<open>ord\<close>, the order in which Python lists the elements of a set.
\<close>

section \<open>State\<close>

datatype loop_pc =
    WaitWake \<comment> \<open>at the outer \<open>await wake.wait()\<close>\<close>
  | Assess \<comment> \<open>about to read the buffer under the lock\<close>
  | Sleeping real \<comment> \<open>in \<open>wait_for\<close>, with the time of the timeout\<close>
  | FlushDue \<comment> \<open>about to take the lock and flush\<close>
  | Flushing \<comment> \<open>awaiting \<open>enqueue\<close> with the lock held\<close>
  | Dead \<comment> \<open>ended by an exception\<close>
  | Cancelled

datatype holder = BySubmit | ByLoop

record 'q batcher =
  sink :: 'q
  buffers :: "(string, string set) pydict"
  first_added :: "string \<Rightarrow> real option"
  last_added :: "string \<Rightarrow> real option"
  wake :: "string \<Rightarrow> bool option"
  tasks :: "string \<Rightarrow> loop_pc option"
  lock :: "(holder \<times> string \<times> string list) option"
  raised :: "exn option" \<comment> \<open>an exception that left \<open>submit\<close>\<close>
  clock :: real

definition init_batcher :: "'q \<Rightarrow> real \<Rightarrow> 'q batcher" where
  "init_batcher q t =
     \<lparr>sink = q, buffers = [], first_added = Map.empty, last_added = Map.empty, wake = Map.empty,
      tasks = Map.empty, lock = None, raised = None, clock = t\<rparr>"

definition buf :: "'q batcher \<Rightarrow> string \<Rightarrow> string set" where
  "buf b c = (case map_of (buffers b) c of None \<Rightarrow> {} | Some s \<Rightarrow> s)"

section \<open>Operations\<close>

type_synonym set_order = "string set \<Rightarrow> string list"

type_synonym 'q sink_op = "real \<Rightarrow> 'q \<Rightarrow> string \<Rightarrow> string list \<Rightarrow> 'q res"

definition ensure_task :: "string \<Rightarrow> 'q batcher \<Rightarrow> 'q batcher" where
  "ensure_task c b =
     (case map_of (buffers b) c of
        None \<Rightarrow> b\<lparr>buffers := AList.update c {} (buffers b), wake := (wake b)(c \<mapsto> False),
                  tasks := (tasks b)(c \<mapsto> WaitWake)\<rparr>
      | Some _ \<Rightarrow> b)"

definition add_url :: "purge_target \<Rightarrow> 'q batcher \<Rightarrow> 'q batcher" where
  "add_url t b =
     (let c = cdn_name t in
        b\<lparr>first_added := (if buf b c = {} then (first_added b)(c \<mapsto> clock b) else first_added b),
          buffers := AList.update c (insert (url t) (buf b c)) (buffers b),
          last_added := (last_added b)(c \<mapsto> clock b),
          wake := (wake b)(c \<mapsto> True)\<rparr>)"

definition begin_flush :: "set_order \<Rightarrow> holder \<Rightarrow> string \<Rightarrow> 'q batcher \<Rightarrow> 'q batcher" where
  \<comment> \<open>\<open>_flush_locked\<close> up to its \<open>await\<close>\<close>
  "begin_flush ord h c b =
     (if buf b c = {} then b
      else b\<lparr>buffers := AList.update c {} (buffers b),
             first_added := (first_added b)(c := None),
             last_added := (last_added b)(c := None),
             lock := Some (h, c, ord (buf b c))\<rparr>)"

definition submit :: "daemon_config \<Rightarrow> set_order \<Rightarrow> purge_target \<Rightarrow> 'q batcher \<Rightarrow> 'q batcher" where
  "submit cfg ord t b =
     (let b' = add_url t (ensure_task (cdn_name t) b) in
        if batch_max_size cfg \<le> int (card (buf b' (cdn_name t)))
        then begin_flush ord BySubmit (cdn_name t) b' else b')"

definition goto :: "string \<Rightarrow> loop_pc \<Rightarrow> 'q batcher \<Rightarrow> 'q batcher" where
  "goto c pc b = b\<lparr>tasks := (tasks b)(c \<mapsto> pc)\<rparr>"

definition wake_up :: "string \<Rightarrow> 'q batcher \<Rightarrow> 'q batcher" where
  \<comment> \<open>\<open>wake.wait()\<close> returned; \<open>wake.clear()\<close>\<close>
  "wake_up c b = goto c Assess (b\<lparr>wake := (wake b)(c \<mapsto> False)\<rparr>)"

definition assess :: "daemon_config \<Rightarrow> string \<Rightarrow> 'q batcher \<Rightarrow> 'q batcher" where
  \<comment> \<open>the locked section of the inner loop; a missing key would end the task\<close>
  "assess cfg c b =
     (if buf b c = {} then goto c WaitWake b
      else (case (last_added b c, first_added b c) of
              (Some l, Some f) \<Rightarrow>
                (let wait = min (l + batch_quiet_window_seconds cfg) (f + batch_max_age_seconds cfg) - clock b
                 in if wait \<le> 0 then goto c FlushDue b else goto c (Sleeping (clock b + wait)) b)
            | _ \<Rightarrow> goto c Dead b))"

definition loop_flush :: "set_order \<Rightarrow> string \<Rightarrow> 'q batcher \<Rightarrow> 'q batcher" where
  \<comment> \<open>\<open>async with self._lock: await self._flush_locked(cdn)\<close>, then \<open>break\<close>\<close>
  "loop_flush ord c b =
     (if buf b c = {} then goto c WaitWake b
      else goto c Flushing (begin_flush ord ByLoop c b))"

definition finish_flush :: "'q sink_op \<Rightarrow> real \<Rightarrow> 'q batcher \<Rightarrow> 'q batcher" where
  \<comment> \<open>\<open>enqueue\<close> returned or raised at wall-clock time \<open>w\<close>: the lock is released\<close>
  "finish_flush enq w b =
     (case lock b of
        None \<Rightarrow> b
      | Some (h, c, us) \<Rightarrow>
          (case enq w (sink b) c us of
             Inr q \<Rightarrow> (if h = ByLoop then goto c WaitWake (b\<lparr>sink := q, lock := None\<rparr>)
                       else b\<lparr>sink := q, lock := None\<rparr>)
           | Inl e \<Rightarrow> (if h = ByLoop then goto c Dead (b\<lparr>lock := None\<rparr>)
                       else b\<lparr>lock := None, raised := Some e\<rparr>)))"

fun flush_each :: "set_order \<Rightarrow> 'q sink_op \<Rightarrow> real \<Rightarrow> string list \<Rightarrow> 'q batcher \<Rightarrow> 'q batcher \<times> unit res" where
  "flush_each ord enq w [] b = (b, Inr ())"
| "flush_each ord enq w (c # cs) b =
     (if buf b c = {} then flush_each ord enq w cs b
      else (let b' = begin_flush ord BySubmit c b in
              case enq w (sink b) c (ord (buf b c)) of
                Inl e \<Rightarrow> (b'\<lparr>lock := None\<rparr>, Inl e)
              | Inr q \<Rightarrow> flush_each ord enq w cs (b'\<lparr>sink := q, lock := None\<rparr>)))"

definition flush_all :: "set_order \<Rightarrow> 'q sink_op \<Rightarrow> real \<Rightarrow> 'q batcher \<Rightarrow> 'q batcher \<times> unit res" where
  \<comment> \<open>one locked section, entered when no flush is in progress\<close>
  "flush_all ord enq w b = flush_each ord enq w (dict_keys (buffers b)) b"

definition cancel_tasks :: "'q sink_op \<Rightarrow> bool \<Rightarrow> real \<Rightarrow> 'q batcher \<Rightarrow> 'q batcher" where
  \<comment> \<open>every task ends; a flush that was awaiting \<open>enqueue\<close> is abandoned, and \<open>landed\<close> says whether
    its statement took effect all the same\<close>
  "cancel_tasks enq landed w b =
     (let b' = b\<lparr>tasks := (\<lambda>c. map_option (\<lambda>_. Cancelled) (tasks b c)), lock := None\<rparr>
      in case lock b of
           None \<Rightarrow> b'
         | Some (h, c, us) \<Rightarrow>
             (case enq w (sink b) c us of
                Inl e \<Rightarrow> b'
              | Inr q \<Rightarrow> if landed then b'\<lparr>sink := q\<rparr> else b'))"

definition shutdown :: "set_order \<Rightarrow> 'q sink_op \<Rightarrow> bool \<Rightarrow> real \<Rightarrow> 'q batcher \<Rightarrow> 'q batcher" where
  \<comment> \<open>the \<open>CancelledError\<close> branch of \<open>run\<close>; an exception of \<open>flush_all\<close> is logged\<close>
  "shutdown ord enq landed w b = fst (flush_all ord enq w (cancel_tasks enq landed w b))"

section \<open>Interleaving\<close>

datatype label =
    Submit purge_target
  | Loop string
  | Finish real
  | Tick real

inductive step :: "daemon_config \<Rightarrow> set_order \<Rightarrow> 'q sink_op \<Rightarrow> 'q batcher \<Rightarrow> label \<Rightarrow> 'q batcher \<Rightarrow> bool"
  for cfg ord enq where
  step_submit: "lock b = None \<Longrightarrow> raised b = None \<Longrightarrow>
     step cfg ord enq b (Submit t) (submit cfg ord t b)"
| step_wake: "tasks b c = Some WaitWake \<Longrightarrow> wake b c = Some True \<Longrightarrow>
     step cfg ord enq b (Loop c) (wake_up c b)"
| step_assess: "tasks b c = Some Assess \<Longrightarrow> lock b = None \<Longrightarrow>
     step cfg ord enq b (Loop c) (assess cfg c b)"
| step_rearm: "tasks b c = Some (Sleeping d) \<Longrightarrow> wake b c = Some True \<Longrightarrow>
     step cfg ord enq b (Loop c) (wake_up c b)"
| step_timeout: "tasks b c = Some (Sleeping d) \<Longrightarrow> d \<le> clock b \<Longrightarrow>
     step cfg ord enq b (Loop c) (goto c FlushDue b)"
| step_flush: "tasks b c = Some FlushDue \<Longrightarrow> lock b = None \<Longrightarrow>
     step cfg ord enq b (Loop c) (loop_flush ord c b)"
| step_finish: "lock b \<noteq> None \<Longrightarrow> step cfg ord enq b (Finish w) (finish_flush enq w b)"
| step_tick: "0 \<le> dt \<Longrightarrow> step cfg ord enq b (Tick dt) (b\<lparr>clock := clock b + dt\<rparr>)"

inductive_cases step_SubmitE: "step cfg ord enq b (Submit t) b'"
inductive_cases step_LoopE: "step cfg ord enq b (Loop c) b'"
inductive_cases step_FinishE: "step cfg ord enq b (Finish w) b'"
inductive_cases step_TickE: "step cfg ord enq b (Tick dt) b'"

inductive run :: "daemon_config \<Rightarrow> set_order \<Rightarrow> 'q sink_op \<Rightarrow> 'q batcher \<Rightarrow> label list \<Rightarrow> 'q batcher \<Rightarrow> bool"
  for cfg ord enq b0 where
  run_nil: "run cfg ord enq b0 [] b0"
| run_snoc: "run cfg ord enq b0 ls b \<Longrightarrow> step cfg ord enq b l b' \<Longrightarrow> run cfg ord enq b0 (ls @ [l]) b'"

section \<open>Frame lemmas\<close>

named_theorems batch_simps \<open>effects of the batcher's operations\<close>

lemma buf_update [batch_simps]:
  "buf (b\<lparr>buffers := AList.update c s (buffers b)\<rparr>) d = (if d = c then s else buf b d)"
  by (simp add: buf_def update_conv')

lemma buf_cong: "buffers b' = buffers b \<Longrightarrow> buf b' = buf b"
  by (simp add: buf_def fun_eq_iff)

lemma buf_other_fields [batch_simps]:
  "buf (b\<lparr>tasks := x\<rparr>) = buf b" "buf (b\<lparr>wake := y\<rparr>) = buf b" "buf (b\<lparr>lock := z\<rparr>) = buf b"
  "buf (b\<lparr>sink := q\<rparr>) = buf b" "buf (b\<lparr>clock := t\<rparr>) = buf b" "buf (b\<lparr>raised := e\<rparr>) = buf b"
  "buf (b\<lparr>first_added := u\<rparr>) = buf b" "buf (b\<lparr>last_added := v\<rparr>) = buf b"
  by (simp_all add: buf_def fun_eq_iff)

lemma goto_sel [batch_simps]:
  "tasks (goto c pc b) = (tasks b)(c \<mapsto> pc)" "buf (goto c pc b) = buf b"
  "buffers (goto c pc b) = buffers b" "wake (goto c pc b) = wake b" "lock (goto c pc b) = lock b"
  "first_added (goto c pc b) = first_added b" "last_added (goto c pc b) = last_added b"
  "clock (goto c pc b) = clock b" "sink (goto c pc b) = sink b" "raised (goto c pc b) = raised b"
  by (simp_all add: goto_def batch_simps)

lemma ensure_task_sel [batch_simps]:
  "buf (ensure_task c b) = buf b"
  "first_added (ensure_task c b) = first_added b" "last_added (ensure_task c b) = last_added b"
  "clock (ensure_task c b) = clock b" "sink (ensure_task c b) = sink b"
  "lock (ensure_task c b) = lock b" "raised (ensure_task c b) = raised b"
  by (auto simp: ensure_task_def fun_eq_iff buf_def update_conv' split: option.splits)

lemma add_url_sel [batch_simps]:
  "buf (add_url t b) d = (if d = cdn_name t then insert (url t) (buf b d) else buf b d)"
  "tasks (add_url t b) = tasks b" "clock (add_url t b) = clock b" "sink (add_url t b) = sink b"
  "lock (add_url t b) = lock b" "raised (add_url t b) = raised b"
  "wake (add_url t b) = (wake b)(cdn_name t \<mapsto> True)"
  "last_added (add_url t b) = (last_added b)(cdn_name t \<mapsto> clock b)"
  by (simp_all add: add_url_def Let_def buf_def update_conv')

lemma begin_flush_sel [batch_simps]:
  "buf (begin_flush ord h c b) d = (if d = c then {} else buf b d)"
  "tasks (begin_flush ord h c b) = tasks b" "clock (begin_flush ord h c b) = clock b"
  "sink (begin_flush ord h c b) = sink b" "wake (begin_flush ord h c b) = wake b"
  "raised (begin_flush ord h c b) = raised b"
  by (auto simp: begin_flush_def buf_def update_conv')

end
