(* ===== verification/Batcher_Invariant.thy ===== *)
theory Batcher_Invariant
  imports Batcher
begin

text \<open>
  The invariant of the batcher's interleavings. It is stated per CDN (\<open>cdn_inv\<close>): the dictionaries
  agree, a buffer is below the size cap, the timestamps exist exactly for a non-empty buffer, and a
  non-empty buffer has a task that will look at it (no lost wake-up); and for the pending flush
  (\<open>lock_inv\<close>). Each operation has one preservation lemma; \<open>step_inv\<close> collects them.
\<close>

section \<open>The invariant\<close>

definition limit :: "daemon_config \<Rightarrow> nat" where
  "limit cfg = max 1 (nat (batch_max_size cfg))"

definition due :: "daemon_config \<Rightarrow> real \<Rightarrow> real \<Rightarrow> real" where
  \<comment> \<open>when a buffer with these timestamps has to be flushed\<close>
  "due cfg f l = min (l + batch_quiet_window_seconds cfg) (f + batch_max_age_seconds cfg)"

definition watched :: "daemon_config \<Rightarrow> 'q batcher \<Rightarrow> string \<Rightarrow> real \<Rightarrow> real \<Rightarrow> bool" where
  "watched cfg b c f l \<longleftrightarrow> wake b c = Some True \<or> tasks b c = Some Assess \<or>
     tasks b c = Some FlushDue \<or> tasks b c = Some Dead \<or> tasks b c = Some (Sleeping (due cfg f l))"

definition cdn_inv :: "daemon_config \<Rightarrow> 'q batcher \<Rightarrow> string \<Rightarrow> bool" where
  "cdn_inv cfg b c \<longleftrightarrow>
     (map_of (buffers b) c = None \<longleftrightarrow> tasks b c = None) \<and> (wake b c = None \<longleftrightarrow> tasks b c = None) \<and>
     finite (buf b c) \<and> card (buf b c) < limit cfg \<and>
     (if buf b c = {} then first_added b c = None \<and> last_added b c = None
      else (\<exists>f l. first_added b c = Some f \<and> last_added b c = Some l \<and> f \<le> l \<and> l \<le> clock b \<and>
              watched cfg b c f l))"

definition lock_inv :: "daemon_config \<Rightarrow> 'q batcher \<Rightarrow> bool" where
  "lock_inv cfg b \<longleftrightarrow>
     (case lock b of
        None \<Rightarrow> (\<forall>c. tasks b c \<noteq> Some Flushing)
      | Some (h, c, us) \<Rightarrow> us \<noteq> [] \<and> distinct us \<and> length us \<le> limit cfg \<and> buf b c = {} \<and>
          (\<forall>d. tasks b d = Some Flushing \<longleftrightarrow> h = ByLoop \<and> d = c))"

definition batch_inv :: "daemon_config \<Rightarrow> 'q batcher \<Rightarrow> bool" where
  "batch_inv cfg b \<longleftrightarrow> (\<forall>c. cdn_inv cfg b c) \<and> lock_inv cfg b"

definition iteration_order :: "set_order \<Rightarrow> bool" where
  "iteration_order ord \<longleftrightarrow> (\<forall>S. finite S \<longrightarrow> set (ord S) = S \<and> distinct (ord S))"

lemma iteration_orderD:
  "iteration_order ord \<Longrightarrow> finite S \<Longrightarrow> set (ord S) = S"
  "iteration_order ord \<Longrightarrow> finite S \<Longrightarrow> distinct (ord S)"
  "iteration_order ord \<Longrightarrow> finite S \<Longrightarrow> length (ord S) = card S"
  by (auto simp: iteration_order_def distinct_card [symmetric])

lemma limit_pos: "0 < limit cfg"
  by (simp add: limit_def)

lemma batch_inv_init: "batch_inv cfg (init_batcher q t)"
  by (simp add: batch_inv_def cdn_inv_def lock_inv_def init_batcher_def buf_def limit_pos)

lemma timestamps:
  assumes "cdn_inv cfg b c" "buf b c \<noteq> {}"
  obtains f l where "first_added b c = Some f" "last_added b c = Some l" "f \<le> l" "l \<le> clock b"
    "watched cfg b c f l"
  using assms by (auto simp: cdn_inv_def)

text \<open>The fields \<open>cdn_inv\<close> reads, for one CDN: an operation that leaves them alone keeps it.\<close>

lemma cdn_inv_frame:
  assumes "cdn_inv cfg b c" "map_of (buffers b') c = map_of (buffers b) c" "tasks b' c = tasks b c"
    "wake b' c = wake b c" "first_added b' c = first_added b c" "last_added b' c = last_added b c"
    "clock b \<le> clock b'"
  shows "cdn_inv cfg b' c"
proof -
  have "buf b' c = buf b c" using assms(2) by (simp add: buf_def)
  with assms show ?thesis
    by (fastforce simp: cdn_inv_def watched_def split: if_splits)
qed

lemma map_of_begin_flush:
  "map_of (buffers (begin_flush ord h c b)) d =
     (if d = c \<and> buf b c \<noteq> {} then Some {} else map_of (buffers b) d)"
  by (cases "buf b c = {}") (simp_all add: begin_flush_def update_conv')

lemma map_of_add_url:
  "map_of (buffers (add_url t b)) d =
     (if d = cdn_name t then Some (insert (url t) (buf b d)) else map_of (buffers b) d)"
  by (simp add: add_url_def Let_def update_conv')

lemma lock_inv_frame:
  assumes "lock_inv cfg b" "lock b' = lock b"
    and "\<And>d. tasks b' d = Some Flushing \<longleftrightarrow> tasks b d = Some Flushing"
    and "\<And>h c us. lock b = Some (h, c, us) \<Longrightarrow> buf b c = {} \<Longrightarrow> buf b' c = {}"
  shows "lock_inv cfg b'"
  using assms by (auto simp: lock_inv_def split: option.splits)

section \<open>Flushing\<close>

lemma begin_flush_cdn_inv:
  assumes "cdn_inv cfg b d"
  shows "cdn_inv cfg (begin_flush ord h c b) d"
proof (cases "d = c \<and> buf b c \<noteq> {}")
  case True
  then have "map_of (buffers b) c \<noteq> None" by (auto simp: buf_def split: option.splits)
  with True assms show ?thesis
    by (simp add: cdn_inv_def batch_simps map_of_begin_flush limit_pos) (simp add: begin_flush_def)
next
  case False
  show ?thesis
    by (rule cdn_inv_frame [OF assms]) (use False in \<open>auto simp: batch_simps begin_flush_def update_conv'\<close>)
qed

lemma begin_flush_lock:
  "buf b c \<noteq> {} \<Longrightarrow> lock (begin_flush ord h c b) = Some (h, c, ord (buf b c))"
  by (simp add: begin_flush_def)

lemma begin_flush_lock_inv:
  assumes "iteration_order ord" "buf b c \<noteq> {}" "finite (buf b c)" "card (buf b c) \<le> limit cfg"
    and "\<And>d. tasks b d = Some Flushing \<longleftrightarrow> h = ByLoop \<and> d = c"
  shows "lock_inv cfg (begin_flush ord h c b)"
  using assms iteration_orderD [OF assms(1,3)]
  by (auto simp: lock_inv_def begin_flush_lock batch_simps)

section \<open>Submitting\<close>

lemma ensure_task_inv: "batch_inv cfg b \<Longrightarrow> batch_inv cfg (ensure_task c b)"
proof (cases "map_of (buffers b) c")
  case None
  assume inv: "batch_inv cfg b"
  have "cdn_inv cfg (ensure_task c b) d" for d
  proof (cases "d = c")
    case True
    with inv None show ?thesis
      by (auto simp: ensure_task_def batch_inv_def cdn_inv_def buf_def update_conv' limit_pos
          dest!: spec [of _ c])
  next
    case False
    show ?thesis
      by (rule cdn_inv_frame [of cfg b])
        (use inv None False in \<open>auto simp: batch_inv_def ensure_task_def update_conv'\<close>)
  qed
  moreover have "tasks b c = None" using inv None by (auto simp: batch_inv_def cdn_inv_def)
  then have "tasks (ensure_task c b) d = Some Flushing \<longleftrightarrow> tasks b d = Some Flushing" for d
    using None by (simp add: ensure_task_def)
  with inv have "lock_inv cfg (ensure_task c b)"
    by (auto intro!: lock_inv_frame [of cfg b] simp: batch_inv_def batch_simps)
  ultimately show ?thesis by (simp add: batch_inv_def)
qed (simp add: ensure_task_def)

lemma ensure_task_task: "batch_inv cfg b \<Longrightarrow> map_of (buffers (ensure_task c b)) c \<noteq> None"
  by (auto simp: ensure_task_def update_conv' split: option.splits)

text \<open>
  After \<open>add_url\<close> the buffer may have reached the cap; everything else of the invariant holds.
\<close>

lemma add_url_inv:
  assumes inv: "batch_inv cfg b" and task: "map_of (buffers b) (cdn_name t) \<noteq> None"
    and small: "card (insert (url t) (buf b (cdn_name t))) < limit cfg"
  shows "cdn_inv cfg (add_url t b) d"
proof (cases "d = cdn_name t")
  case True
  have c: "cdn_inv cfg b (cdn_name t)" using inv by (simp add: batch_inv_def)
  have "\<exists>f. first_added (add_url t b) (cdn_name t) = Some f \<and> f \<le> clock b"
    using c by (fastforce simp: add_url_def Let_def cdn_inv_def split: if_splits)
  moreover have "tasks b (cdn_name t) \<noteq> None" "finite (buf b (cdn_name t))"
    using c task by (auto simp: cdn_inv_def)
  ultimately show ?thesis
    using True small by (simp add: cdn_inv_def batch_simps watched_def map_of_add_url)
next
  case False
  show ?thesis
    by (rule cdn_inv_frame [of cfg b])
      (use inv False in \<open>auto simp: batch_inv_def add_url_def Let_def update_conv'\<close>)
qed

lemma submit_inv:
  assumes ord: "iteration_order ord" and inv: "batch_inv cfg b" and free: "lock b = None"
  shows "batch_inv cfg (submit cfg ord t b)"
proof -
  let ?c = "cdn_name t"
  define b1 where "b1 = ensure_task ?c b"
  define b2 where "b2 = add_url t b1"
  have inv1: "batch_inv cfg b1" unfolding b1_def by (rule ensure_task_inv [OF inv])
  have task: "map_of (buffers b1) ?c \<noteq> None" unfolding b1_def by (rule ensure_task_task [OF inv])
  have free2: "lock b2 = None" by (simp add: b2_def b1_def free batch_simps)
  have noflush: "tasks b2 d \<noteq> Some Flushing" for d
    using inv1 free by (simp add: b2_def batch_inv_def lock_inv_def b1_def batch_simps)
  have B: "buf b2 ?c = insert (url t) (buf b1 ?c)" by (simp add: b2_def batch_simps)
  have fin: "finite (buf b2 ?c)" and le: "card (buf b2 ?c) \<le> limit cfg"
    using inv1 by (auto simp: B batch_inv_def cdn_inv_def card_insert_if Suc_le_eq less_imp_le)
  show ?thesis
  proof (cases "batch_max_size cfg \<le> int (card (buf b2 ?c))")
    case False
    then have "card (insert (url t) (buf b1 ?c)) < limit cfg"
      by (auto simp: B limit_def)
    with inv1 task have "cdn_inv cfg b2 d" for d
      unfolding b2_def by (rule add_url_inv)
    with False free2 noflush show ?thesis
      by (simp add: submit_def Let_def batch_inv_def lock_inv_def b1_def [symmetric] b2_def [symmetric])
  next
    case True
    have "cdn_inv cfg (begin_flush ord BySubmit ?c b2) d" for d
    proof (cases "d = ?c")
      case False
      have "cdn_inv cfg b2 d"
        by (rule cdn_inv_frame [of cfg b1])
          (use inv1 False in \<open>auto simp: batch_inv_def b2_def add_url_def Let_def update_conv'\<close>)
      then show ?thesis by (rule begin_flush_cdn_inv)
    next
      case d: True
      have "cdn_inv cfg b1 ?c" using inv1 by (simp add: batch_inv_def)
      then have "tasks b2 ?c \<noteq> None" using task by (auto simp: cdn_inv_def b2_def batch_simps)
      then show ?thesis
        using d B by (simp add: cdn_inv_def batch_simps map_of_begin_flush limit_pos b2_def)
          (simp add: begin_flush_def batch_simps)
    qed
    moreover have "lock_inv cfg (begin_flush ord BySubmit ?c b2)"
      by (rule begin_flush_lock_inv [OF ord _ fin le]) (simp_all add: B noflush)
    ultimately show ?thesis
      using True by (simp add: submit_def Let_def batch_inv_def b1_def [symmetric] b2_def [symmetric])
  qed
qed

section \<open>The debounce loop\<close>

lemma goto_inv:
  assumes "batch_inv cfg b" "tasks b c \<noteq> None" "tasks b c \<noteq> Some Flushing" "pc \<noteq> Flushing"
    and "buf b c \<noteq> {} \<Longrightarrow> wake b c = Some True \<or> pc = Assess \<or> pc = FlushDue \<or> pc = Dead \<or>
          (\<exists>f l. first_added b c = Some f \<and> last_added b c = Some l \<and> pc = Sleeping (due cfg f l))"
  shows "batch_inv cfg (goto c pc b)"
proof -
  have "cdn_inv cfg (goto c pc b) d" for d
  proof (cases "d = c")
    case True
    have "cdn_inv cfg b c" using assms(1) by (simp add: batch_inv_def)
    with True assms(2,5) show ?thesis
      by (auto simp: cdn_inv_def batch_simps watched_def split: if_splits)
  next
    case False
    show ?thesis
      by (rule cdn_inv_frame [of cfg b]) (use assms(1) False in \<open>auto simp: batch_inv_def batch_simps\<close>)
  qed
  moreover have "lock_inv cfg (goto c pc b)"
    by (rule lock_inv_frame [of cfg b]) (use assms in \<open>auto simp: batch_inv_def batch_simps\<close>)
  ultimately show ?thesis by (simp add: batch_inv_def)
qed

lemma wake_up_inv:
  assumes "batch_inv cfg b" "tasks b c = Some WaitWake \<or> tasks b c = Some (Sleeping d)"
  shows "batch_inv cfg (wake_up c b)"
proof -
  have c: "cdn_inv cfg b c" using assms(1) by (simp add: batch_inv_def)
  have "cdn_inv cfg (wake_up c b) e" for e
  proof (cases "e = c")
    case True
    with c assms(2) show ?thesis
      by (auto simp: wake_up_def cdn_inv_def batch_simps watched_def split: if_splits)
  next
    case False
    show ?thesis
      by (rule cdn_inv_frame [of cfg b])
        (use assms(1) False in \<open>auto simp: batch_inv_def wake_up_def batch_simps\<close>)
  qed
  moreover have "lock_inv cfg (wake_up c b)"
    by (rule lock_inv_frame [of cfg b])
      (use assms in \<open>auto simp: batch_inv_def wake_up_def batch_simps\<close>)
  ultimately show ?thesis by (simp add: batch_inv_def)
qed

lemma assess_inv:
  assumes "batch_inv cfg b" "tasks b c = Some Assess"
  shows "batch_inv cfg (assess cfg c b)"
proof (cases "buf b c = {}")
  case True
  with assms show ?thesis by (simp add: assess_def goto_inv)
next
  case False
  have "cdn_inv cfg b c" using assms(1) by (simp add: batch_inv_def)
  with False obtain f l where "first_added b c = Some f" "last_added b c = Some l"
    by (auto simp: cdn_inv_def)
  with False assms show ?thesis
    by (auto simp: assess_def Let_def due_def [symmetric] intro!: goto_inv)
qed

lemma loop_flush_inv:
  assumes ord: "iteration_order ord" and inv: "batch_inv cfg b" and pc: "tasks b c = Some FlushDue"
    and free: "lock b = None"
  shows "batch_inv cfg (loop_flush ord c b)"
proof (cases "buf b c = {}")
  case True
  with inv pc show ?thesis by (simp add: loop_flush_def goto_inv)
next
  case False
  let ?b = "goto c Flushing (begin_flush ord ByLoop c b)"
  have "cdn_inv cfg b d" for d using inv by (simp add: batch_inv_def)
  note ci = begin_flush_cdn_inv [OF this, of ord ByLoop c]
  have "cdn_inv cfg ?b d" for d
    using ci [of d] pc by (cases "d = c") (auto simp: cdn_inv_def batch_simps watched_def split: if_splits)
  moreover have "lock_inv cfg (begin_flush ord ByLoop c (goto c Flushing b))"
    by (rule begin_flush_lock_inv [OF ord])
      (use False inv free in \<open>auto simp: batch_simps batch_inv_def cdn_inv_def lock_inv_def less_imp_le\<close>)
  moreover have "begin_flush ord ByLoop c (goto c Flushing b) = ?b"
    using False by (simp add: begin_flush_def goto_def batch_simps)
  ultimately show ?thesis
    using False by (simp add: loop_flush_def batch_inv_def)
qed

lemma finish_flush_inv:
  assumes inv: "batch_inv cfg b" and l: "lock b = Some (h, c, us)"
  shows "batch_inv cfg (finish_flush enq w b)"
proof -
  have L: "tasks b d = Some Flushing \<longleftrightarrow> h = ByLoop \<and> d = c" "buf b c = {}" for d
    using inv l by (auto simp: batch_inv_def lock_inv_def)
  have cdn: "cdn_inv cfg b d" for d using inv by (simp add: batch_inv_def)
  have ret: "batch_inv cfg (goto c pc (b\<lparr>sink := q, lock := None\<rparr>))"
    if "pc = WaitWake \<or> pc = Dead" "h = ByLoop" for pc q
  proof -
    have "cdn_inv cfg (goto c pc (b\<lparr>sink := q, lock := None\<rparr>)) d" for d
    proof (cases "d = c")
      case True
      with cdn [of c] L that show ?thesis by (auto simp: cdn_inv_def batch_simps)
    next
      case False
      then show ?thesis by (intro cdn_inv_frame [OF cdn]) (simp_all add: batch_simps)
    qed
    then show ?thesis
      using L that by (auto simp: batch_inv_def lock_inv_def batch_simps)
  qed
  have stay: "batch_inv cfg (b\<lparr>sink := q, lock := None, raised := e\<rparr>)" if "h = BySubmit" for q e
  proof -
    have "cdn_inv cfg (b\<lparr>sink := q, lock := None, raised := e\<rparr>) d" for d
      by (rule cdn_inv_frame [OF cdn]) simp_all
    then show ?thesis using L that by (simp add: batch_inv_def lock_inv_def)
  qed
  show ?thesis
  proof (cases h)
    case ByLoop
    with l ret [of WaitWake] ret [of Dead "sink b"] show ?thesis
      by (auto simp: finish_flush_def split: sum.splits)
  next
    case BySubmit
    with l stay [where e = "raised b"] stay [where q = "sink b"] show ?thesis
      by (auto simp: finish_flush_def split: sum.splits)
  qed
qed

section \<open>Steps and runs\<close>

lemma tick_inv:
  assumes "batch_inv cfg b" "0 \<le> dt"
  shows "batch_inv cfg (b\<lparr>clock := clock b + dt\<rparr>)"
proof -
  have "cdn_inv cfg (b\<lparr>clock := clock b + dt\<rparr>) c" for c
    by (rule cdn_inv_frame [of cfg b]) (use assms in \<open>auto simp: batch_inv_def\<close>)
  moreover have "lock_inv cfg (b\<lparr>clock := clock b + dt\<rparr>)"
    by (rule lock_inv_frame [of cfg b]) (use assms in \<open>auto simp: batch_inv_def batch_simps\<close>)
  ultimately show ?thesis by (simp add: batch_inv_def)
qed

lemma step_inv:
  assumes "iteration_order ord" "step cfg ord enq b l b'" "batch_inv cfg b"
  shows "batch_inv cfg b'"
  using assms(2,3)
proof (induction rule: step.induct)
  case (step_timeout b c d)
  then show ?case by (auto intro!: goto_inv)
next
  case (step_finish b w)
  then show ?case by (auto intro: finish_flush_inv)
qed (simp_all add: submit_inv [OF assms(1)] wake_up_inv assess_inv loop_flush_inv [OF assms(1)] tick_inv)

lemma run_inv:
  assumes "iteration_order ord" "run cfg ord enq b0 ls b" "batch_inv cfg b0"
  shows "batch_inv cfg b"
  using assms(2) by induction (auto intro: step_inv [OF assms(1)] assms(3))

lemmas run_init_inv = run_inv [OF _ _ batch_inv_init]

end
