(* ===== verification/Job_View.thy ===== *)
theory Job_View
  imports Queue_Contract
begin

text \<open>
  What the batcher and the daemon promise about the queue is a set of (CDN, URL) pairs that some jobs
  hold: all jobs, or those created after a given moment. A \<open>job_view\<close> is such a set together with the
  tables it can be read from: a new job adds its pairs, and no update of a row changes it.
\<close>

locale job_view =
  fixes st :: "db \<Rightarrow> (string \<times> string) set" and valid :: "db \<Rightarrow> bool"
  assumes enq_view: "valid q \<Longrightarrow> valid (fst (enqueue w c us q)) \<and> st (fst (enqueue w c us q)) = st q \<union> {c} \<times> set us"
    and update_view: "keeps_row f \<Longrightarrow> st (fst (update_rows P f q)) = st q \<and> (valid (fst (update_rows P f q)) \<longleftrightarrow> valid q)"
begin

lemma reset_view: "st (fst (reset_in_flight q)) = st q" "valid (fst (reset_in_flight q)) \<longleftrightarrow> valid q"
  by (simp_all add: reset_in_flight_def update_view)

lemma claim_view: "st (fst (claim_update i q)) = st q" "valid (fst (claim_update i q)) \<longleftrightarrow> valid q"
  by (simp_all add: claim_update_def update_view)

end

definition row_pairs :: "job_row \<Rightarrow> (string \<times> string) set" where
  "row_pairs r = {row_cdn r} \<times> set (case json_loads (urls_json r) of None \<Rightarrow> [] | Some us \<Rightarrow> us)"

definition stored_since :: "int \<Rightarrow> db \<Rightarrow> (string \<times> string) set" where
  \<comment> \<open>the pairs of the jobs with an id above \<open>n\<close>\<close>
  "stored_since n d = \<Union> (row_pairs ` set (filter (\<lambda>r. n < row_id r) (rows d)))"

lemma row_pairs_iff:
  "(c, u) \<in> row_pairs r \<longleftrightarrow> row_cdn r = c \<and> (\<exists>us. json_loads (urls_json r) = Some us \<and> u \<in> set us)"
  by (cases "json_loads (urls_json r)") (auto simp: row_pairs_def)

lemma stored_since_row: "(c, u) \<in> stored_since n d \<longleftrightarrow>
    (\<exists>r \<in> set (rows d). n < row_id r \<and> row_cdn r = c \<and> (\<exists>us. json_loads (urls_json r) = Some us \<and> u \<in> set us))"
  unfolding stored_since_def by (simp add: row_pairs_iff) blast

lemma stored_since_enqueue:
  "n \<le> last_id q \<Longrightarrow> stored_since n (fst (enqueue w c us q)) = stored_since n q \<union> {c} \<times> set us"
  by (simp add: stored_since_def enqueue_def Let_def row_pairs_def json_roundtrip Un_commute)

lemma stored_since_update:
  assumes "keeps_row f"
  shows "stored_since n (fst (update_rows P f q)) = stored_since n q"
proof -
  define g where "g = (\<lambda>r. if P r then f r else r)"
  have "row_pairs (g r) = row_pairs r" "row_id (g r) = row_id r" for r
    using assms by (simp_all add: g_def keeps_row_def row_pairs_def)
  moreover have "rows (fst (update_rows P f q)) = map g (rows q)" by (simp add: update_rows_def g_def)
  ultimately show ?thesis by (simp add: stored_since_def filter_map o_def image_image)
qed

interpretation all_jobs: job_view stored "\<lambda>d. True"
  by unfold_locales
     (auto simp: enqueue_def stored_def Let_def json_roundtrip update_rows_def keeps_row_def)

interpretation new_jobs: job_view "stored_since n" "\<lambda>d. n \<le> last_id d" for n
  by unfold_locales
     (simp_all add: stored_since_enqueue stored_since_update, simp_all add: enqueue_def Let_def update_rows_def)

end
