(* ===== verification/Batcher_Failure.thy ===== *)
theory Batcher_Failure
  imports Batcher_Properties Job_View
begin

text \<open>
  What the batcher does when things go wrong: a shutdown that cancels a task in the middle of a
  flush, and a queue whose \<open>enqueue\<close> raises.
\<close>

section \<open>Shutdown in the middle of a flush\<close>

lemma cancel_tasks_sel:
  "lock (cancel_tasks enq landed w b) = None"
  "buf (cancel_tasks enq landed w b) c = buf b c"
  by (simp_all add: cancel_tasks_def Let_def batch_simps split: option.splits sum.splits)

definition failing :: "(string \<Rightarrow> exn option) \<Rightarrow> db sink_op" where
  \<comment> \<open>a queue whose INSERT raises for some CDNs\<close>
  "failing f w q c us = (case f c of None \<Rightarrow> enqueue_sink_op w q c us | Some e \<Rightarrow> Inl e)"

interpretation jqf: enqueue_sink "failing f" stored for f
  by unfold_locales (use jq.enq_stored in \<open>auto simp: failing_def split: option.splits\<close>)

lemma failing_none: "\<forall>c. f c = None \<Longrightarrow> failing f = enqueue_sink_op"
  by (simp add: fun_eq_iff failing_def)

definition reached :: "(string \<Rightarrow> exn option) \<Rightarrow> 'q batcher \<Rightarrow> string list \<Rightarrow> string list" where
  \<comment> \<open>the CDNs that come before the first non-empty buffer whose \<open>enqueue\<close> raises\<close>
  "reached f b cs = takeWhile (\<lambda>c. buf b c = {} \<or> f c = None) cs"

lemma reached_cong: "(\<And>c. c \<in> set cs \<Longrightarrow> (buf b' c = {} \<or> f c = None) = (buf b c = {} \<or> f c = None)) \<Longrightarrow>
    reached f b' cs = reached f b cs"
  unfolding reached_def by (rule takeWhile_cong) auto

lemma reached_all: "\<forall>c. f c = None \<Longrightarrow> reached f b cs = cs"
  by (simp add: reached_def)

lemma buffered_key: "(c, u) \<in> buffered b \<Longrightarrow> c \<in> set (dict_keys (buffers b))"
  by (auto simp: buffered_def buf_def dict_keys_def dest: map_of_SomeD split: option.splits intro: rev_image_eqI)

context job_view
begin

lemma failing_view:
  "f c = None \<Longrightarrow> valid q \<Longrightarrow>
     \<exists>q'. failing f w q c us = Inr q' \<and> valid q' \<and> st q' = st q \<union> {c} \<times> set us"
  by (simp add: failing_def enqueue_sink_op_def enq_view)

lemma cancel_tasks_view:
  assumes "valid (sink b)"
  shows "valid (sink (cancel_tasks (failing f) landed w b)) \<and> st (sink (cancel_tasks (failing f) landed w b)) =
     st (sink b) \<union> {(c, u). (c, u) \<in> pending b \<and> landed \<and> f c = None}"
proof (cases "lock b")
  case (Some hcu)
  obtain h c us where l: "lock b = Some (h, c, us)" using Some by (cases hcu) auto
  show ?thesis
  proof (cases "f c")
    case None
    then obtain q' where q: "failing f w (sink b) c us = Inr q'" "valid q'" "st q' = st (sink b) \<union> {c} \<times> set us"
      using failing_view [where f = f and c = c and w = w and q = "sink b" and us = us] assms by blast
    have p: "pending b = {c} \<times> set us" by (simp add: pending_def l)
    show ?thesis
    proof (cases landed)
      case True
      with l q(1) have "sink (cancel_tasks (failing f) landed w b) = q'" by (simp add: cancel_tasks_def Let_def)
      with True None q(2) show ?thesis by (auto simp: q(3) p)
    qed (simp add: cancel_tasks_def Let_def l q(1) assms)
  qed (auto simp: l cancel_tasks_def Let_def pending_def failing_def assms)
qed (simp add: cancel_tasks_def pending_def assms)

lemma flush_each_view:
  assumes "iteration_order ord" "\<And>c. finite (buf b c)" "valid (sink b)"
  shows "valid (sink (fst (flush_each ord (failing f) w cs b))) \<and>
    st (sink (fst (flush_each ord (failing f) w cs b))) =
      st (sink b) \<union> {(c, u). c \<in> set (reached f b cs) \<and> u \<in> buf b c}"
  using assms(2,3)
proof (induction cs arbitrary: b)
  case (Cons c cs)
  show ?case
  proof (cases "buf b c = {}")
    case True
    with Cons.IH [OF Cons.prems] show ?thesis by (auto simp: reached_def)
  next
    case False
    show ?thesis
    proof (cases "f c")
      case None
      have u: "set (ord (buf b c)) = buf b c" using assms(1) Cons.prems by (simp add: iteration_order_def)
      obtain q where q: "failing f w (sink b) c (ord (buf b c)) = Inr q" "valid q" "st q = st (sink b) \<union> {c} \<times> buf b c"
        using failing_view [of f c "sink b" w "ord (buf b c)"] None Cons.prems(2) u by auto
      define b1 where "b1 = (begin_flush ord BySubmit c b)\<lparr>sink := q, lock := None\<rparr>"
      have buf1: "buf b1 d = (if d = c then {} else buf b d)" for d by (simp add: b1_def batch_simps)
      have fin: "\<And>d. finite (buf b1 d)" using Cons.prems by (simp add: buf1)
      have "reached f b1 cs = reached f b cs" by (rule reached_cong) (simp add: buf1 None)
      moreover have "flush_each ord (failing f) w (c # cs) b = flush_each ord (failing f) w cs b1"
        using False q(1) by (simp add: b1_def Let_def)
      moreover have s1: "sink b1 = q" by (simp add: b1_def)
      ultimately show ?thesis
        using Cons.IH [OF fin] q(2,3) None by (auto simp: reached_def buf1 split: if_splits)
    qed (use False Cons.prems in \<open>simp add: failing_def reached_def begin_flush_def Let_def\<close>)
  qed
qed (simp add: reached_def)

lemma shutdown_view:
  assumes "iteration_order ord" "\<And>c. finite (buf b c)" "valid (sink b)"
  shows "valid (sink (shutdown ord (failing f) landed w b)) \<and>
    st (sink (shutdown ord (failing f) landed w b)) = st (sink b) \<union>
    {(c, u). (c, u) \<in> buffered b \<and> c \<in> set (reached f b (dict_keys (buffers b)))} \<union>
    {(c, u). (c, u) \<in> pending b \<and> landed \<and> f c = None}"
proof -
  let ?b1 = "cancel_tasks (failing f) landed w b"
  have b1: "buf ?b1 = buf b" by (simp add: fun_eq_iff cancel_tasks_sel)
  have k: "buffers ?b1 = buffers b"
    by (simp add: cancel_tasks_def Let_def split: option.splits sum.splits)
  have "reached f ?b1 cs = reached f b cs" for cs by (simp add: reached_def b1)
  note flush = flush_each_view [OF assms(1), of ?b1 f w "dict_keys (buffers b)", unfolded b1 this]
  have e: "{(c, u). c \<in> set (reached f b ks) \<and> u \<in> buf b c} = {(c, u). (c, u) \<in> buffered b \<and> c \<in> set (reached f b ks)}" for ks
    by (auto simp: buffered_def)
  note c = cancel_tasks_view [OF assms(3), of f landed w]
  note flushed = flush [OF assms(2) conjunct1 [OF c]]
  show ?thesis
    using conjunct1 [OF flushed] conjunct2 [OF flushed, unfolded e conjunct2 [OF c]]
    unfolding shutdown_def flush_all_def k by (simp only: Un_ac simp_thms)
qed

end

text \<open>
  C36. A shutdown at any moment: the queue afterwards holds what it held, of the batch whose \<open>enqueue\<close>
  was interrupted everything if its statement took effect and nothing otherwise, and the buffers of the
  CDNs before the first one whose \<open>enqueue\<close> raises. The interrupted batch had already left its buffer,
  so the final flush cannot see it; and a flush that raises is logged and given up, so that the buffers
  of that CDN and of all after it are lost, also of those whose \<open>enqueue\<close> would succeed.
\<close>

theorem shutdown_during_flush:
  assumes "iteration_order ord" "run cfg ord enqueue_sink_op (init_batcher d t) ls b"
  shows "stored (sink (shutdown ord (failing f) landed w b)) = stored (sink b) \<union>
    {(c, u). (c, u) \<in> buffered b \<and> c \<in> set (reached f b (dict_keys (buffers b)))} \<union>
    {(c, u). (c, u) \<in> pending b \<and> landed \<and> f c = None}"
proof -
  have "\<And>c. finite (buf b c)" using run_init_inv [OF assms] by (simp add: batch_inv_def cdn_inv_def)
  from all_jobs.shutdown_view [OF assms(1) this TrueI] show ?thesis by (rule conjunct2)
qed

theorem shutdown_during_flush_witness:
  "\<exists>b. fire_all default_daemon sorted_list_of_set enqueue_sink_op sample_schedule
      (init_batcher sample_db 0) = Some b \<and> pending b = {(''fastly'', ''u'')} \<and>
    (''fastly'', ''u'') \<notin> stored (sink (shutdown sorted_list_of_set (failing Map.empty) False 10 b))"
proof -
  obtain b where b: "fire_all default_daemon sorted_list_of_set enqueue_sink_op sample_schedule
      (init_batcher sample_db 0) = Some b" "pending b = {(''fastly'', ''u'')}" "buffered b = {}"
      "sink b = sample_db"
    by (simp add: fire_simps pending_def buffered_def)
  have "(''fastly'', ''u'') \<notin> stored sample_db"
    by (simp add: stored_def sample_rows json_roundtrip)
  with shutdown_during_flush [OF sorted_order fire_all_run [OF b(1)], of Map.empty False 10] b show ?thesis
    by simp
qed

section \<open>An enqueue that raises\<close>

definition urls_for :: "string \<Rightarrow> label list \<Rightarrow> string set" where
  "urls_for c ls = {u. (c, u) \<in> submitted ls}"

lemma urls_for_snoc:
  "urls_for c (ls @ [Submit t]) = (if cdn_name t = c then insert (url t) (urls_for c ls) else urls_for c ls)"
  "urls_for c (ls @ [Loop d]) = urls_for c ls"
  "urls_for c (ls @ [Finish w]) = urls_for c ls"
  "urls_for c (ls @ [Tick dt]) = urls_for c ls"
  by (auto simp: urls_for_def submitted_def)

lemma finite_urls_for: "finite (urls_for c ls)"
proof -
  have "urls_for c ls \<subseteq> (\<lambda>l. case l of Submit t \<Rightarrow> url t | _ \<Rightarrow> []) ` set ls"
    by (force simp: urls_for_def submitted_def)
  then show ?thesis by (rule finite_subset) simp
qed

definition stalled :: "string \<Rightarrow> string set \<Rightarrow> 'q batcher \<Rightarrow> bool" where
  "stalled c U b \<longleftrightarrow> tasks b c = Some Dead \<and> buf b c = U \<and> map_of (buffers b) c \<noteq> None \<and>
     (\<forall>h us. lock b \<noteq> Some (h, c, us))"

lemma submit_stalled:
  assumes "stalled c U b" "lock b = None"
    and "cdn_name t = c \<Longrightarrow> finite U \<and> card (insert (url t) U) < limit cfg"
  shows "stalled c (if cdn_name t = c then insert (url t) U else U) (submit cfg ord t b)"
proof (cases "cdn_name t = c")
  case True
  with assms obtain s where s: "map_of (buffers b) c = Some s" by (auto simp: stalled_def)
  have "0 < card (insert (url t) U)" using assms(3) True by (simp add: card_gt_0_iff)
  then have "int (card (insert (url t) U)) < batch_max_size cfg"
    using assms(3) True by (auto simp: limit_def max_def split: if_splits)
  with True s assms show ?thesis
    by (simp add: submit_def Let_def batch_simps stalled_def map_of_add_url ensure_task_def)
next
  case False
  have "stalled c U (add_url t (ensure_task (cdn_name t) b))"
    using False assms(1,2)
    by (auto simp: stalled_def batch_simps map_of_add_url ensure_task_def update_conv' split: option.splits)
  then have "stalled c U (begin_flush ord BySubmit (cdn_name t) (add_url t (ensure_task (cdn_name t) b)))"
    using False by (auto simp: stalled_def batch_simps map_of_begin_flush begin_flush_def update_conv' split: if_splits)
  with False \<open>stalled c U (add_url t (ensure_task (cdn_name t) b))\<close> show ?thesis
    by (simp add: submit_def Let_def)
qed

lemma loop_stalled:
  assumes "step cfg ord enq b (Loop d) b'" "stalled c U b"
  shows "stalled c U b'"
proof -
  have "d \<noteq> c" using assms by (auto simp: stalled_def elim: step_LoopE)
  with assms show ?thesis
    by (elim step_LoopE)
      (auto simp: stalled_def wake_up_def assess_def Let_def loop_flush_def batch_simps
        map_of_begin_flush begin_flush_def update_conv' split: option.splits if_splits)
qed

lemma finish_stalled:
  assumes "stalled c U b"
  shows "stalled c U (finish_flush enq w b)"
  using assms by (auto simp: finish_flush_def stalled_def batch_simps split: option.splits sum.splits)

lemma run_stalled:
  assumes "run cfg ord enq b0 ls b" "stalled c {} b0" "card (urls_for c ls) < limit cfg"
  shows "stalled c (urls_for c ls) b"
  using assms(1,3)
proof induction
  case run_nil
  then show ?case using assms(2) by (simp add: urls_for_def submitted_def)
next
  case (run_snoc ls b l b')
  have "card (urls_for c ls) \<le> card (urls_for c (ls @ [l]))"
    by (rule card_mono [OF finite_urls_for]) (auto simp: urls_for_def submitted_def)
  with run_snoc have st: "stalled c (urls_for c ls) b" by simp
  show ?case
  proof (cases l)
    case (Submit t)
    with run_snoc.hyps(2) have "b' = submit cfg ord t b" "lock b = None" by (auto elim: step_SubmitE)
    with submit_stalled [OF st, of t cfg ord] run_snoc.prems Submit show ?thesis
      by (auto simp: urls_for_snoc finite_urls_for split: if_splits)
  next
    case (Loop d)
    with run_snoc.hyps(2) loop_stalled st show ?thesis by (simp add: urls_for_snoc)
  next
    case (Finish w)
    with run_snoc.hyps(2) st show ?thesis
      by (auto simp: urls_for_snoc finish_stalled elim!: step_FinishE)
  next
    case (Tick dt)
    with run_snoc.hyps(2) st show ?thesis
      by (auto simp: urls_for_snoc stalled_def batch_simps elim!: step_TickE)
  qed
qed

text \<open>
  When the \<open>enqueue\<close> of a debounce task raises, its batch is gone (the queue is unchanged and the
  buffer empty) and the task has ended for good: in every continuation, the URLs submitted for that
  CDN stay in the buffer with nobody to flush them, until they reach the size cap.
\<close>

lemma failed_enqueue_stalls:
  assumes "iteration_order ord" "run cfg ord enq (init_batcher q t) ls0 b"
    and "lock b = Some (ByLoop, c, us)" "enq w (sink b) c us = Inl e"
    and "run cfg ord enq (finish_flush enq w b) ls b'" "card (urls_for c ls) < limit cfg"
  shows "sink (finish_flush enq w b) = sink b \<and> buf (finish_flush enq w b) c = {} \<and>
    tasks b' c = Some Dead \<and> buf b' c = urls_for c ls \<and> (\<forall>h us'. lock b' \<noteq> Some (h, c, us'))"
proof -
  have inv: "batch_inv cfg b" by (rule run_init_inv [OF assms(1,2)])
  then have "buf b c = {}" "tasks b c = Some Flushing" "cdn_inv cfg b c"
    using assms(3) by (auto simp: batch_inv_def lock_inv_def)
  then have f: "stalled c {} (finish_flush enq w b)" "sink (finish_flush enq w b) = sink b"
    using assms(3,4) by (auto simp: finish_flush_def stalled_def batch_simps cdn_inv_def)
  with run_stalled [OF assms(5) f(1) assms(6)] show ?thesis by (simp add: stalled_def)
qed

definition full_disk :: "db sink_op" where
  \<comment> \<open>a queue whose INSERT always fails\<close>
  "full_disk w q c us = Inl (OSError ''database or disk is full'')"

lemma failed_enqueue_stalls_witness:
  "\<exists>b b'. fire_all default_daemon sorted_list_of_set full_disk sample_schedule
      (init_batcher sample_db 0) = Some b \<and>
    fire_all default_daemon sorted_list_of_set full_disk [Submit (sample_target ''v''), Tick 1000]
      (finish_flush full_disk 10 b) = Some b' \<and>
    tasks b' ''fastly'' = Some Dead \<and> buf b' ''fastly'' = {''v''}"
proof -
  obtain b b' where b: "fire_all default_daemon sorted_list_of_set full_disk sample_schedule
      (init_batcher sample_db 0) = Some b" "lock b = Some (ByLoop, ''fastly'', [''u''])"
    and b': "fire_all default_daemon sorted_list_of_set full_disk
      [Submit (sample_target ''v''), Tick 1000] (finish_flush full_disk 10 b) = Some b'"
    by (simp add: fire_simps full_disk_def)
  have u: "urls_for ''fastly'' [Submit (sample_target ''v''), Tick 1000] = {''v''}"
    by (auto simp: urls_for_def submitted_def sample_target_def)
  have e: "full_disk 10 (sink b) ''fastly'' [''u''] = Inl (OSError ''database or disk is full'')"
    by (simp add: full_disk_def)
  from failed_enqueue_stalls [OF sorted_order fire_all_run [OF b(1)] b(2) e fire_all_run [OF b']]
    b(1) b' show ?thesis by (simp add: u limit_def default_daemon_def)
qed

end
