(* ===== verification/Watcher.thy ===== *)
theory Watcher
  imports Event_Filter
begin

text \<open>
  \<open>watcher.py\<close>: \<open>InotifyWatcher\<close>, its start-up walk with the pre-flight check, the scan of new
  directories, and the generator that turns kernel events into \<open>(mask_name, path, root)\<close> tuples.

  The file system is data: an \<open>fsnode\<close> is what a path denotes when it is looked at. The kernel is a
  parameter: \<open>add_watch k p\<close> is \<open>Inotify.add_watch\<close> on the instance \<open>k\<close>, and \<open>read_limit\<close> is the
  content of \<open>max_user_watches\<close> where it can be read. That the kernel hands out an inotify instance at
  all is assumed.
\<close>

section \<open>The file system and the kernel\<close>

datatype fsnode =
    NonDir \<comment> \<open>a file, or a link to one\<close>
  | DirLink \<comment> \<open>a symbolic link to a directory\<close>
  | BadEntry \<comment> \<open>an entry whose \<open>is_dir\<close> raises OSError\<close>
  | Dir bool "(string \<times> fsnode) list" \<comment> \<open>whether \<open>scandir\<close> succeeds, and its entries\<close>

datatype add_result =
    Added
  | NoSpace \<comment> \<open>OSError with errno ENOSPC\<close>
  | AddFailed \<comment> \<open>any other OSError\<close>

type_synonym 'k add_watch = "'k \<Rightarrow> path \<Rightarrow> 'k \<times> add_result"

fun is_dir :: "fsnode \<Rightarrow> bool" where
  "is_dir (Dir r es) = True"
| "is_dir _ = False"

section \<open>Counting before the start\<close>

fun count_watchable_dirs :: "string list \<Rightarrow> string list \<Rightarrow> fsnode \<Rightarrow> nat"
and count_entries :: "string list \<Rightarrow> string list \<Rightarrow> (string \<times> fsnode) list \<Rightarrow> nat" where
  \<comment> \<open>the walk below the directory with parts \<open>ns\<close> relative to the root\<close>
  "count_watchable_dirs ignores ns (Dir True es) = Suc (count_entries ignores ns es)"
| "count_watchable_dirs ignores ns (Dir False es) = 0"
| "count_watchable_dirs ignores ns NonDir = 0"
| "count_watchable_dirs ignores ns DirLink = 0"
| "count_watchable_dirs ignores ns BadEntry = 0"
| "count_entries ignores ns [] = 0"
| "count_entries ignores ns ((n, x) # es) =
     (if is_dir x \<and> matches_any_glob (ns @ [n]) ignores then 0
      else count_watchable_dirs ignores (ns @ [n]) x) + count_entries ignores ns es"

definition suggested_watches :: "int \<Rightarrow> int" where
  "suggested_watches needed = max (needed * 2) 524288"

section \<open>State\<close>

record 'k watcher =
  inotify :: "'k option"
  dir_to_root :: "(path, path) pydict"
  dir_to_config :: "(path, watch_config) pydict"
  synthetic :: "(string \<times> path \<times> path) list"

definition init_watcher :: "'k watcher" where
  "init_watcher = \<lparr>inotify = None, dir_to_root = [], dir_to_config = [], synthetic = []\<rparr>"

definition is_watched :: "'k watcher \<Rightarrow> path \<Rightarrow> bool" where
  "is_watched st p \<longleftrightarrow> map_of (dir_to_root st) p \<noteq> None"

definition register :: "path \<Rightarrow> watch_config \<Rightarrow> 'k watcher \<Rightarrow> 'k watcher" where
  "register p wc st =
     st\<lparr>dir_to_root := AList.update p (watch_path wc) (dir_to_root st),
        dir_to_config := AList.update p wc (dir_to_config st)\<rparr>"

definition is_ignored :: "path \<Rightarrow> path \<Rightarrow> string list \<Rightarrow> bool" where
  "is_ignored p wroot ignores =
     (case relative_to p wroot of None \<Rightarrow> False | Some rel \<Rightarrow> matches_any_glob (parts rel) ignores)"

section \<open>Adding watches\<close>

fun add_recursive :: "'k add_watch \<Rightarrow> watch_config \<Rightarrow> path \<Rightarrow> fsnode \<Rightarrow> 'k watcher \<Rightarrow> 'k watcher \<times> unit res"
and add_entries :: "'k add_watch \<Rightarrow> watch_config \<Rightarrow> path \<Rightarrow> (string \<times> fsnode) list \<Rightarrow> 'k watcher \<Rightarrow> 'k watcher \<times> unit res" where
  "add_recursive add_watch wc p (Dir r es) st =
     (case inotify st of
        None \<Rightarrow> (st, Inl AssertionError)
      | Some k \<Rightarrow>
          if p \<noteq> watch_path wc \<and> is_ignored p (watch_path wc) (ignore wc) then (st, Inr ())
          else if is_watched st p then (st, Inr ())
          else (case add_watch k p of
              (k', NoSpace) \<Rightarrow>
                (st\<lparr>inotify := Some k'\<rparr>, Inl (InotifyLimitError (int (length (dir_to_root st)) + 1)
                                             (int (length (dir_to_root st)))))
            | (k', AddFailed) \<Rightarrow> (st\<lparr>inotify := Some k'\<rparr>, Inr ())
            | (k', Added) \<Rightarrow>
                (if r then add_entries add_watch wc p es (register p wc (st\<lparr>inotify := Some k'\<rparr>))
                 else (register p wc (st\<lparr>inotify := Some k'\<rparr>), Inr ()))))"
| "add_recursive add_watch wc p _ st =
     (case inotify st of None \<Rightarrow> (st, Inl AssertionError) | Some k \<Rightarrow> (st, Inr ()))"
| "add_entries add_watch wc p [] st = (st, Inr ())"
| "add_entries add_watch wc p ((n, x) # es) st =
     (if is_dir x
      then (case add_recursive add_watch wc (child p n) x st of
              (st', Inl e) \<Rightarrow> (st', Inl e)
            | (st', Inr _) \<Rightarrow> add_entries add_watch wc p es st')
      else add_entries add_watch wc p es st)"

fun add_dir_and_scan :: "'k add_watch \<Rightarrow> watch_config \<Rightarrow> path \<Rightarrow> fsnode \<Rightarrow> 'k watcher \<Rightarrow> 'k watcher \<times> unit res"
and scan_entries :: "'k add_watch \<Rightarrow> watch_config \<Rightarrow> path \<Rightarrow> (string \<times> fsnode) list \<Rightarrow> 'k watcher \<Rightarrow> 'k watcher \<times> unit res" where
  "add_dir_and_scan add_watch wc p x st =
     (case inotify st of
        None \<Rightarrow> (st, Inl AssertionError)
      | Some k \<Rightarrow>
          if is_ignored p (watch_path wc) (ignore wc) then (st, Inr ())
          else if is_watched st p then (st, Inr ())
          else (case add_watch k p of
              (k', Added) \<Rightarrow>
                (case x of
                   Dir True es \<Rightarrow> scan_entries add_watch wc p es (register p wc (st\<lparr>inotify := Some k'\<rparr>))
                 | _ \<Rightarrow> (register p wc (st\<lparr>inotify := Some k'\<rparr>), Inr ()))
            | (k', _) \<Rightarrow> (st\<lparr>inotify := Some k'\<rparr>, Inr ())))"
| "scan_entries add_watch wc p [] st = (st, Inr ())"
| "scan_entries add_watch wc p ((n, x) # es) st =
     (if is_dir x
      then (case add_dir_and_scan add_watch wc (child p n) x st of
              (st', Inl e) \<Rightarrow> (st', Inl e)
            | (st', Inr _) \<Rightarrow> scan_entries add_watch wc p es st')
      else if x = BadEntry \<or> is_ignored (child p n) (watch_path wc) (ignore wc)
      then scan_entries add_watch wc p es st
      else scan_entries add_watch wc p es
             (st\<lparr>synthetic := synthetic st @ [(''IN_MOVED_TO'', child p n, watch_path wc)]\<rparr>))"

section \<open>Starting and stopping\<close>

fun add_roots :: "'k add_watch \<Rightarrow> (path \<Rightarrow> fsnode) \<Rightarrow> watch_config list \<Rightarrow> 'k watcher \<Rightarrow> 'k watcher \<times> unit res" where
  "add_roots add_watch fs [] st = (st, Inr ())"
| "add_roots add_watch fs (wc # wcs) st =
     (case add_recursive add_watch wc (watch_path wc) (fs (watch_path wc)) st of
        (st', Inl e) \<Rightarrow> (st', Inl e)
      | (st', Inr _) \<Rightarrow> add_roots add_watch fs wcs st')"

definition needed_watches :: "(path \<Rightarrow> fsnode) \<Rightarrow> watch_config list \<Rightarrow> nat" where
  "needed_watches fs ws = (\<Sum>wc \<leftarrow> ws. count_watchable_dirs (ignore wc) [] (fs (watch_path wc)))"

definition open_roots ::
  "'k add_watch \<Rightarrow> 'k \<Rightarrow> (path \<Rightarrow> fsnode) \<Rightarrow> watch_config list \<Rightarrow> 'k watcher \<Rightarrow> 'k watcher \<times> unit res" where
  \<comment> \<open>an InotifyLimitError closes the instance again\<close>
  "open_roots add_watch k0 fs ws st =
     (case add_roots add_watch fs ws (st\<lparr>inotify := Some k0\<rparr>) of
        (st', Inl (InotifyLimitError n a)) \<Rightarrow> (st'\<lparr>inotify := None\<rparr>, Inl (InotifyLimitError n a))
      | r \<Rightarrow> r)"

definition aenter ::
  "'k add_watch \<Rightarrow> 'k \<Rightarrow> (path \<Rightarrow> fsnode) \<Rightarrow> int option \<Rightarrow> watch_config list \<Rightarrow> 'k watcher \<Rightarrow> 'k watcher \<times> unit res" where
  \<comment> \<open>\<open>k0\<close> is the new \<open>Inotify()\<close>; the count comes first, and \<open>is_dir\<close> of a root can raise in it\<close>
  "aenter add_watch k0 fs read_limit ws st =
     (if List.find (\<lambda>wc. fs (watch_path wc) = BadEntry) ws \<noteq> None then (st, Inl (OSError ''is_dir''))
      else case read_limit of
        Some available \<Rightarrow>
          if int (needed_watches fs ws) > available
          then (st, Inl (InotifyLimitError (int (needed_watches fs ws)) available))
          else open_roots add_watch k0 fs ws st
      | None \<Rightarrow> open_roots add_watch k0 fs ws st)"

definition aexit :: "'k watcher \<Rightarrow> 'k watcher" where
  "aexit st = st\<lparr>inotify := None, dir_to_root := [], dir_to_config := [], synthetic := []\<rparr>"

section \<open>Kernel events\<close>

datatype mask_bit =
    IN_MOVED_TO | IN_CLOSE_WRITE | IN_DELETE | IN_MOVED_FROM | IN_CREATE | IN_MOVE_SELF
  | IN_DELETE_SELF | IN_IGNORED | IN_ISDIR | IN_Q_OVERFLOW | IN_UNMOUNT

record raw_event =
  ev_mask :: "mask_bit set"
  ev_watch :: "path option" \<comment> \<open>\<open>event.watch.path\<close>\<close>
  ev_path :: "path option" \<comment> \<open>\<open>event.path\<close>, with the name of the entry\<close>

definition watch_mask :: "mask_bit set" where
  "watch_mask = {IN_MOVED_TO, IN_CLOSE_WRITE, IN_DELETE, IN_MOVED_FROM, IN_CREATE, IN_MOVE_SELF,
     IN_DELETE_SELF}"

definition mask_to_name :: "mask_bit set \<Rightarrow> string option" where
  "mask_to_name m =
     (if IN_MOVED_TO \<in> m then Some ''IN_MOVED_TO''
      else if IN_CLOSE_WRITE \<in> m then Some ''IN_CLOSE_WRITE''
      else if IN_DELETE \<in> m then Some ''IN_DELETE''
      else if IN_MOVED_FROM \<in> m then Some ''IN_MOVED_FROM''
      else None)"

definition drop_watch :: "path \<Rightarrow> 'k watcher \<Rightarrow> 'k watcher" where
  "drop_watch p st = st\<lparr>dir_to_root := AList.delete p (dir_to_root st),
                       dir_to_config := AList.delete p (dir_to_config st)\<rparr>"

definition handle_event ::
  "'k add_watch \<Rightarrow> (path \<Rightarrow> fsnode) \<Rightarrow> raw_event \<Rightarrow> 'k watcher \<Rightarrow>
     'k watcher \<times> (string \<times> path \<times> path) option res" where
  \<comment> \<open>one turn of the loop of \<open>_iter\<close>: what it yields, if anything\<close>
  "handle_event add_watch fs ev st =
     (if IN_Q_OVERFLOW \<in> ev_mask ev then (st, Inr None)
      else (case ev_watch ev of
        None \<Rightarrow> (st, Inr None)
      | Some watch_dir \<Rightarrow>
          if IN_IGNORED \<in> ev_mask ev \<or> IN_DELETE_SELF \<in> ev_mask ev \<or> IN_MOVE_SELF \<in> ev_mask ev
          then (drop_watch watch_dir st, Inr None)
          else if IN_ISDIR \<in> ev_mask ev then
            (case (ev_path ev, map_of (dir_to_config st) watch_dir) of
               (Some p, Some wc) \<Rightarrow>
                 if IN_CREATE \<in> ev_mask ev
                 then (case add_dir_and_scan add_watch wc p (fs p) st of
                         (st', Inl e) \<Rightarrow> (st', Inl e)
                       | (st', Inr _) \<Rightarrow> (st', Inr None))
                 else (st, Inr None)
             | _ \<Rightarrow> (st, Inr None))
          else (case (ev_path ev, map_of (dir_to_root st) watch_dir, mask_to_name (ev_mask ev)) of
               (Some p, Some wroot, Some name) \<Rightarrow> (st, Inr (Some (name, p, wroot)))
             | _ \<Rightarrow> (st, Inr None))))"

definition take_synthetic :: "'k watcher \<Rightarrow> (string \<times> path \<times> path) list \<times> 'k watcher" where
  "take_synthetic st = (synthetic st, st\<lparr>synthetic := []\<rparr>)"

fun iter_events ::
  "'k add_watch \<Rightarrow> ((path \<Rightarrow> fsnode) \<times> raw_event) list \<Rightarrow> 'k watcher \<Rightarrow>
     'k watcher \<times> (string \<times> path \<times> path) list res" where
  \<comment> \<open>\<open>_iter\<close> over the events the kernel delivers, each with the file system it is handled in\<close>
  "iter_events add_watch [] st = (case take_synthetic st of (ys, st') \<Rightarrow> (st', Inr ys))"
| "iter_events add_watch ((fs, ev) # evs) st =
     (case take_synthetic st of (ys, st1) \<Rightarrow>
        (case handle_event add_watch fs ev st1 of
           (st2, Inl e) \<Rightarrow> (st2, Inl e)
         | (st2, Inr y) \<Rightarrow>
             (case iter_events add_watch evs st2 of
                (st3, Inl e) \<Rightarrow> (st3, Inl e)
              | (st3, Inr zs) \<Rightarrow> (st3, Inr (ys @ (case y of None \<Rightarrow> [] | Some t \<Rightarrow> [t]) @ zs)))))"

end
