(* ===== verification/Watcher_Walk.thy ===== *)
theory Watcher_Walk
  imports Watcher
begin

text \<open>
  The recursive walks of the watcher. \<open>covered\<close> says which directories below a root the walk should
  reach; \<open>documented\<close> is the behaviour of \<open>inotify_add_watch\<close> the code relies on: a watch on a
  readable directory is granted while the budget lasts and refused with ENOSPC after, and a watch on
  an unreadable one is refused with another error.
\<close>

section \<open>What a path below a directory denotes\<close>

fun node_at :: "fsnode \<Rightarrow> string list \<Rightarrow> fsnode option" where
  "node_at x [] = Some x"
| "node_at (Dir True es) (n # ns) = (case map_of es n of None \<Rightarrow> None | Some y \<Rightarrow> node_at y ns)"
| "node_at _ (n # ns) = None"

fun wf_node :: "fsnode \<Rightarrow> bool" and wf_entries :: "(string \<times> fsnode) list \<Rightarrow> bool" where
  \<comment> \<open>the names in a directory are distinct\<close>
  "wf_node (Dir r es) = wf_entries es"
| "wf_node _ = True"
| "wf_entries [] = True"
| "wf_entries ((n, x) # es) = (n \<notin> fst ` set es \<and> wf_node x \<and> wf_entries es)"

definition visible :: "string list \<Rightarrow> string list \<Rightarrow> string list \<Rightarrow> bool" where
  \<comment> \<open>neither \<open>ns0 @ ns\<close> nor a directory between it and \<open>ns0\<close> matches an ignore glob\<close>
  "visible ignores ns0 ns \<longleftrightarrow> (\<forall>k < length ns. \<not> matches_any_glob (ns0 @ take (Suc k) ns) ignores)"

definition covered :: "string list \<Rightarrow> string list \<Rightarrow> fsnode \<Rightarrow> string list \<Rightarrow> bool" where
  "covered ignores ns0 x ns \<longleftrightarrow> visible ignores ns0 ns \<and> (\<exists>es. node_at x ns = Some (Dir True es))"

lemma visible_simps [simp]:
  "visible ignores ns0 []"
  "visible ignores ns0 (n # ns) \<longleftrightarrow>
     \<not> matches_any_glob (ns0 @ [n]) ignores \<and> visible ignores (ns0 @ [n]) ns"
  by (auto simp: visible_def All_less_Suc2)

lemma node_at_Cons:
  "node_at x (n # ns) = Some y \<longleftrightarrow>
     (\<exists>es z. x = Dir True es \<and> map_of es n = Some z \<and> node_at z ns = Some y)"
  by (cases "(x, n # ns)" rule: node_at.cases) (auto split: option.splits)

lemma node_at_leaf: "\<not> is_dir x \<Longrightarrow> node_at x ns = Some y \<longleftrightarrow> ns = [] \<and> x = y"
  by (cases "(x, ns)" rule: node_at.cases) auto

lemma covered_Nil [simp]: "covered ignores ns0 x [] \<longleftrightarrow> (\<exists>es. x = Dir True es)"
  by (simp add: covered_def)

lemma covered_Cons [simp]:
  "covered ignores ns0 x (n # ns) \<longleftrightarrow>
     (\<exists>es y. x = Dir True es \<and> map_of es n = Some y \<and> \<not> matches_any_glob (ns0 @ [n]) ignores \<and>
        covered ignores (ns0 @ [n]) y ns)"
  by (auto simp: covered_def node_at_Cons)

lemma covered_is_dir: "covered ignores ns0 x ns \<Longrightarrow> is_dir x"
  by (cases ns) auto

lemma is_ignored_descendant [simp]:
  "is_ignored (descendant p ns) p ignores = matches_any_glob ns ignores"
  by (simp add: is_ignored_def)

lemma wf_entries_map_of: "wf_entries es \<Longrightarrow> (n, x) \<in> set es \<Longrightarrow> map_of es n = Some x"
  by (induction es) (force split: if_splits)+

section \<open>The kernel\<close>

definition documented :: "'k add_watch \<Rightarrow> (path \<Rightarrow> bool) \<Rightarrow> ('k \<Rightarrow> nat) \<Rightarrow> nat \<Rightarrow> bool" where
  "documented add_watch reads used cap \<longleftrightarrow>
     (\<forall>k p. case add_watch k p of (k', r) \<Rightarrow>
        r = (if \<not> reads p then AddFailed else if used k < cap then Added else NoSpace) \<and>
        used k' \<le> used k + (if r = Added then 1 else 0))"

lemma documentedD:
  assumes "documented add_watch reads used cap"
  shows "\<not> reads p \<Longrightarrow> \<exists>k'. add_watch k p = (k', AddFailed) \<and> used k' \<le> used k"
    and "reads p \<Longrightarrow> used k < cap \<Longrightarrow> \<exists>k'. add_watch k p = (k', Added) \<and> used k' \<le> Suc (used k)"
    and "reads p \<Longrightarrow> \<not> used k < cap \<Longrightarrow> \<exists>k'. add_watch k p = (k', NoSpace) \<and> used k' \<le> used k"
proof -
  have *: "case add_watch k p of (k', r) \<Rightarrow>
      r = (if \<not> reads p then AddFailed else if used k < cap then Added else NoSpace) \<and>
      used k' \<le> used k + (if r = Added then 1 else 0)"
    using assms [unfolded documented_def, THEN spec, THEN spec, of p k] .
  show "\<not> reads p \<Longrightarrow> \<exists>k'. add_watch k p = (k', AddFailed) \<and> used k' \<le> used k"
    and "reads p \<Longrightarrow> used k < cap \<Longrightarrow> \<exists>k'. add_watch k p = (k', Added) \<and> used k' \<le> Suc (used k)"
    and "reads p \<Longrightarrow> \<not> used k < cap \<Longrightarrow> \<exists>k'. add_watch k p = (k', NoSpace) \<and> used k' \<le> used k"
    using * by (cases "add_watch k p"; simp)+
qed

definition agrees :: "(path \<Rightarrow> bool) \<Rightarrow> path \<Rightarrow> fsnode \<Rightarrow> bool" where
  \<comment> \<open>the kernel lets the process read exactly the directories that \<open>scandir\<close> can list\<close>
  "agrees reads p x \<longleftrightarrow> (\<forall>ns r es. node_at x ns = Some (Dir r es) \<longrightarrow> reads (descendant p ns) = r)"

definition agrees_entries :: "(path \<Rightarrow> bool) \<Rightarrow> path \<Rightarrow> (string \<times> fsnode) list \<Rightarrow> bool" where
  "agrees_entries reads p es \<longleftrightarrow> (\<forall>(n, x) \<in> set es. agrees reads (child p n) x)"

lemma agrees_Dir:
  assumes "agrees reads p (Dir r es)" "wf_entries es"
  shows "reads p = r" "r \<Longrightarrow> agrees_entries reads p es"
proof -
  show "reads p = r" using assms(1) by (auto simp: agrees_def dest!: spec [of _ "[]"])
  show "agrees_entries reads p es" if r
    unfolding agrees_entries_def agrees_def
  proof (clarify, goal_cases)
    case (1 n x ns r' es')
    have "map_of es n = Some x" by (rule wf_entries_map_of [OF assms(2) 1(1)])
    with 1(2) that have "node_at (Dir r es) (n # ns) = Some (Dir r' es')" by (simp add: node_at_Cons)
    with assms(1) have "reads (descendant p (n # ns)) = r'" by (auto simp: agrees_def)
    then show ?case by (simp add: child_as_descendant)
  qed
qed

lemma agrees_entries_Cons [simp]:
  "agrees_entries reads p ((n, x) # es) \<longleftrightarrow> agrees reads (child p n) x \<and> agrees_entries reads p es"
  by (simp add: agrees_entries_def)

section \<open>The budget\<close>

lemma register_sel [simp]:
  "inotify (register p wc st) = inotify st" "synthetic (register p wc st) = synthetic st"
  "map_of (dir_to_root (register p wc st)) = (map_of (dir_to_root st))(p \<mapsto> watch_path wc)"
  "map_of (dir_to_config (register p wc st)) = (map_of (dir_to_config st))(p \<mapsto> wc)"
  by (simp_all add: register_def update_conv')

text \<open>The walk needs no more watches than the pre-flight counted.\<close>

definition stays_within ::
  "('k \<Rightarrow> nat) \<Rightarrow> nat \<Rightarrow> 'k \<Rightarrow> 'k watcher \<times> unit res \<Rightarrow> bool" where
  "stays_within used n k r \<longleftrightarrow>
     (\<exists>st k'. r = (st, Inr ()) \<and> inotify st = Some k' \<and> used k' \<le> used k + n)"

lemma stays_withinE:
  assumes "stays_within used n k r"
  obtains st k' where "r = (st, Inr ())" "inotify st = Some k'" "used k' \<le> used k + n"
  using assms by (auto simp: stays_within_def)

lemma stays_within_skip [simp]:
  "inotify st = Some k \<Longrightarrow> stays_within used n k (st, Inr ())"
  by (simp add: stays_within_def)

lemma unreadable_within:
  assumes "documented add_watch reads used cap" "agrees reads p (Dir False es)" "inotify st = Some k"
  shows "stays_within used n k (add_recursive add_watch wc p (Dir False es) st)"
proof -
  have "\<not> reads p" using assms(2) by (auto simp: agrees_def dest!: spec [of _ "[]"])
  from documentedD(1) [OF assms(1) this, of k] obtain k'
    where "add_watch k p = (k', AddFailed)" "used k' \<le> used k" by blast
  with assms(3) show ?thesis by (auto simp: stays_within_def)
qed

lemma add_recursive_within:
  assumes doc: "documented add_watch reads used cap"
  shows "\<lbrakk>inotify st = Some k; used k + count_watchable_dirs (ignore wc) ns x \<le> cap;
      agrees reads (descendant (watch_path wc) ns) x; wf_node x\<rbrakk> \<Longrightarrow>
    stays_within used (count_watchable_dirs (ignore wc) ns x) k
      (add_recursive add_watch wc (descendant (watch_path wc) ns) x st)"
    and "\<lbrakk>inotify st = Some k; used k + count_entries (ignore wc) ns es \<le> cap;
      agrees_entries reads (descendant (watch_path wc) ns) es; wf_entries es\<rbrakk> \<Longrightarrow>
    stays_within used (count_entries (ignore wc) ns es) k
      (add_entries add_watch wc (descendant (watch_path wc) ns) es st)"
proof (induction "ignore wc" ns x and "ignore wc" ns es arbitrary: st k and st k
    rule: count_watchable_dirs_count_entries.induct)
  case (1 ns es)
  let ?p = "descendant (watch_path wc) ns"
  have wf: "wf_entries es" using 1(5) by simp
  have r: "reads ?p" "agrees_entries reads ?p es" using agrees_Dir [OF 1(4) wf] by simp_all
  have "used k < cap" using 1(3) by simp
  from documentedD(2) [OF doc r(1) this] obtain k1
    where k1: "add_watch k ?p = (k1, Added)" "used k1 \<le> Suc (used k)" by blast
  let ?st = "register ?p wc (st\<lparr>inotify := Some k1\<rparr>)"
  have "stays_within used (count_entries (ignore wc) ns es) k1 (add_entries add_watch wc ?p es ?st)"
    using 1(1) [of ?st k1] 1(3) k1(2) r(2) wf by simp
  with k1 1(2) show ?case by (auto simp: stays_within_def)
next
  case (7 ns n x es)
  let ?p = "descendant (watch_path wc) ns"
  let ?n = "if is_dir x \<and> matches_any_glob (ns @ [n]) (ignore wc) then 0
    else count_watchable_dirs (ignore wc) (ns @ [n]) x"
  show ?case
  proof (cases "is_dir x")
    case False
    then have "count_watchable_dirs (ignore wc) (ns @ [n]) x = 0" by (cases x) auto
    with False 7 show ?thesis by simp
  next
    case True
    have "stays_within used ?n k (add_recursive add_watch wc (child ?p n) x st)"
    proof (cases "matches_any_glob (ns @ [n]) (ignore wc)")
      case True
      with \<open>is_dir x\<close> 7(3) show ?thesis
        by (cases x) (auto simp: stays_within_def)
    next
      case False
      with 7(1) [of st k] 7(3-6) show ?thesis by simp
    qed
    then obtain st1 k1 where st1: "add_recursive add_watch wc (child ?p n) x st = (st1, Inr ())"
      "inotify st1 = Some k1" "used k1 \<le> used k + ?n" by (rule stays_withinE)
    have "stays_within used (count_entries (ignore wc) ns es) k1
        (add_entries add_watch wc ?p es st1)"
      using 7(2) [OF st1(2)] st1(3) 7(4-6) by simp
    with st1 True show ?thesis by (auto simp: stays_within_def)
  qed
next
  case (2 ns es)
  then show ?case by (simp add: unreadable_within [OF doc] del: add_recursive.simps)
qed (auto simp: stays_within_def)

section \<open>What the walk registers\<close>

definition marks :: "watch_config \<Rightarrow> path set \<Rightarrow> 'k watcher \<Rightarrow> 'k watcher \<Rightarrow> bool" where
  \<comment> \<open>the directories \<open>Q\<close>, and no others, are registered for \<open>wc\<close>\<close>
  "marks wc Q st st' \<longleftrightarrow>
     (\<forall>q. map_of (dir_to_config st') q = (if q \<in> Q then Some wc else map_of (dir_to_config st) q)) \<and>
     (\<forall>q. map_of (dir_to_root st') q = (if q \<in> Q then Some (watch_path wc) else map_of (dir_to_root st) q))"

lemma marks_empty [simp]: "marks wc {} st st"
  by (simp add: marks_def)

lemma marks_trans: "marks wc Q st st1 \<Longrightarrow> marks wc Q' st1 st2 \<Longrightarrow> marks wc (Q \<union> Q') st st2"
  by (simp add: marks_def)

lemma marks_register [simp]: "marks wc {p} st (register p wc (st\<lparr>inotify := k\<rparr>))"
  by (simp add: marks_def)

lemma marks_inotify [simp]: "marks wc Q (st\<lparr>inotify := k\<rparr>) st' = marks wc Q st st'"
  "marks wc Q st (st'\<lparr>inotify := k\<rparr>) = marks wc Q st st'"
  by (simp_all add: marks_def)

lemma marks_watched: "marks wc Q st st' \<Longrightarrow> is_watched st' q \<longleftrightarrow> q \<in> Q \<or> is_watched st q"
  by (auto simp: marks_def is_watched_def)

definition synced :: "'k watcher \<Rightarrow> bool" where
  "synced st \<longleftrightarrow> (\<forall>q. map_of (dir_to_root st) q = map_option watch_path (map_of (dir_to_config st) q))"

lemma marks_synced: "marks wc Q st st' \<Longrightarrow> synced st \<Longrightarrow> synced st'"
  by (simp add: marks_def synced_def)

lemma synced_watched: "synced st \<Longrightarrow> is_watched st q \<longleftrightarrow> map_of (dir_to_config st) q \<noteq> None"
  by (simp add: synced_def is_watched_def)

definition dirs_below :: "watch_config \<Rightarrow> string list \<Rightarrow> fsnode \<Rightarrow> path set" where
  "dirs_below wc ns x = {descendant (watch_path wc) (ns @ ms) | ms. covered (ignore wc) ns x ms}"

definition entry_dirs :: "watch_config \<Rightarrow> string list \<Rightarrow> (string \<times> fsnode) list \<Rightarrow> path set" where
  "entry_dirs wc ns es =
     (\<Union>(n, x) \<in> set es. if matches_any_glob (ns @ [n]) (ignore wc) then {} else dirs_below wc (ns @ [n]) x)"

lemma dirs_below_other: "\<not> is_dir x \<Longrightarrow> dirs_below wc ns x = {}"
  by (auto simp: dirs_below_def dest: covered_is_dir)

lemma dirs_below_unreadable: "dirs_below wc ns (Dir False es) = {}"
proof -
  have "\<not> covered (ignore wc) ns (Dir False es) ms" for ms by (cases ms) simp_all
  then show ?thesis by (simp add: dirs_below_def)
qed

lemma dirs_below_Dir:
  assumes "wf_entries es"
  shows "dirs_below wc ns (Dir True es) =
    {descendant (watch_path wc) ns} \<union> entry_dirs wc ns es" (is "?L = ?R")
proof (rule set_eqI)
  fix q
  have c: "covered (ignore wc) ns (Dir True es) ms \<longleftrightarrow>
    ms = [] \<or> (\<exists>n x ms'. ms = n # ms' \<and> (n, x) \<in> set es \<and>
      \<not> matches_any_glob (ns @ [n]) (ignore wc) \<and> covered (ignore wc) (ns @ [n]) x ms')" for ms
    using wf_entries_map_of [OF assms] by (cases ms) (fastforce dest: map_of_SomeD)+
  show "q \<in> ?L \<longleftrightarrow> q \<in> ?R"
    unfolding dirs_below_def entry_dirs_def c by (fastforce split: if_splits)
qed

definition fresh :: "'k watcher \<Rightarrow> path \<Rightarrow> bool" where
  "fresh st p \<longleftrightarrow> (\<forall>ms. \<not> is_watched st (descendant p ms))"

lemma fresh_self: "fresh st p \<Longrightarrow> \<not> is_watched st p"
  by (metis fresh_def descendant_Nil)

lemma fresh_child: "fresh st (descendant p ns) \<Longrightarrow> fresh st (descendant p (ns @ [n]))"
  unfolding fresh_def by (metis descendant_descendant)

lemma fresh_after:
  assumes "marks wc (dirs_below wc (ns @ [n]) x) st st'" "m \<noteq> n"
    and "fresh st (descendant (watch_path wc) (ns @ [m]))"
  shows "fresh st' (descendant (watch_path wc) (ns @ [m]))"
  using assms by (auto simp: fresh_def marks_watched [OF assms(1)] dirs_below_def)

lemma fresh_register:
  assumes "fresh st (descendant p ns)"
  shows "fresh (register (descendant p ns) wc (st\<lparr>inotify := k\<rparr>)) (descendant p (ns @ [n]))"
  using fresh_child [OF assms] by (simp add: fresh_def is_watched_def)

lemma fresh_siblings:
  assumes "marks wc (if matches_any_glob (ns @ [n]) (ignore wc) then {} else dirs_below wc (ns @ [n]) x) st st1"
    and "m \<noteq> n" "fresh st (descendant (watch_path wc) (ns @ [m]))"
  shows "fresh st1 (descendant (watch_path wc) (ns @ [m]))"
  using assms fresh_after [of wc ns n x st st1 m]
  by (cases "matches_any_glob (ns @ [n]) (ignore wc)") (simp_all add: fresh_def marks_watched [of wc "{}" st st1])

lemma add_recursive_marks:
  assumes doc: "documented add_watch reads used cap"
  shows "\<lbrakk>add_recursive add_watch wc (descendant (watch_path wc) ns) x st = (st', Inr ());
      agrees reads (descendant (watch_path wc) ns) x; wf_node x;
      fresh st (descendant (watch_path wc) ns); ns = [] \<or> \<not> matches_any_glob ns (ignore wc)\<rbrakk> \<Longrightarrow>
    marks wc (dirs_below wc ns x) st st' \<and> synthetic st' = synthetic st"
    and "\<lbrakk>add_entries add_watch wc (descendant (watch_path wc) ns) es st = (st', Inr ());
      agrees_entries reads (descendant (watch_path wc) ns) es; wf_entries es;
      \<And>n. n \<in> fst ` set es \<Longrightarrow> fresh st (descendant (watch_path wc) (ns @ [n]))\<rbrakk> \<Longrightarrow>
    marks wc (entry_dirs wc ns es) st st' \<and> synthetic st' = synthetic st"
proof (induction "ignore wc" ns x and "ignore wc" ns es arbitrary: st st' and st st'
    rule: count_watchable_dirs_count_entries.induct)
  case (1 ns es)
  let ?p = "descendant (watch_path wc) ns"
  have wf: "wf_entries es" using 1(4) by simp
  have r: "reads ?p" "agrees_entries reads ?p es" using agrees_Dir [OF 1(3) wf] by simp_all
  from 1(2) obtain k where k: "inotify st = Some k" by (auto split: option.splits)
  have free: "\<not> is_watched st ?p" by (rule fresh_self [OF 1(5)])
  obtain k1 where k1: "add_watch k ?p = (k1, Added) \<or> add_watch k ?p = (k1, NoSpace)"
    using documentedD(2,3) [OF doc r(1), of k] by blast
  let ?st = "register ?p wc (st\<lparr>inotify := Some k1\<rparr>)"
  have "add_entries add_watch wc ?p es ?st = (st', Inr ())"
    using 1(2,6) k k1 free by (auto split: if_splits)
  from 1(1) [OF this r(2) wf fresh_register [OF 1(5)]]
  have "marks wc (entry_dirs wc ns es) ?st st'" "synthetic st' = synthetic st" by simp_all
  with marks_trans [OF marks_register] show ?case by (simp add: dirs_below_Dir [OF wf])
next
  case (2 ns es st st')
  let ?p = "descendant (watch_path wc) ns"
  have "\<not> reads ?p" using 2(2) by (auto simp: agrees_def dest!: spec [of _ "[]"])
  moreover from 2(1) obtain k where k: "inotify st = Some k" by (auto split: option.splits)
  ultimately obtain k1 where "add_watch k ?p = (k1, AddFailed)"
    using documentedD(1) [OF doc] by blast
  with 2(1) k show ?case by (auto simp: dirs_below_unreadable split: if_splits)
next
  case (7 ns n x es)
  let ?p = "descendant (watch_path wc) ns"
  let ?Q = "if matches_any_glob (ns @ [n]) (ignore wc) then {} else dirs_below wc (ns @ [n]) x"
  have Q: "entry_dirs wc ns ((n, x) # es) = ?Q \<union> entry_dirs wc ns es"
    by (simp add: entry_dirs_def)
  show ?case
  proof (cases "is_dir x")
    case False
    with 7 show ?thesis by (simp add: Q dirs_below_other)
  next
    case True
    with 7(3) obtain st1 where st1: "add_recursive add_watch wc (child ?p n) x st = (st1, Inr ())"
      "add_entries add_watch wc ?p es st1 = (st', Inr ())"
      by (auto split: prod.splits sum.splits)
    have m: "marks wc ?Q st st1 \<and> synthetic st1 = synthetic st"
    proof (cases "matches_any_glob (ns @ [n]) (ignore wc)")
      case True
      with \<open>is_dir x\<close> st1(1) show ?thesis
        by (cases x) (auto split: option.splits)
    next
      case False
      with 7(1) [of st st1] 7(4-6) st1(1) show ?thesis by simp
    qed
    have "fresh st1 (descendant (watch_path wc) (ns @ [m']))" if "m' \<in> fst ` set es" for m'
      using fresh_siblings [of wc ns n x st st1 m'] m 7(5,6) that by auto
    with 7(2) [OF st1(2)] 7(4,5) have "marks wc (entry_dirs wc ns es) st1 st'"
      "synthetic st' = synthetic st1" by auto
    with m marks_trans show ?thesis unfolding Q by metis
  qed
qed (auto simp: dirs_below_other entry_dirs_def split: option.splits)

end
