(* ===== verification/Watcher_Scan.thy ===== *)
theory Watcher_Scan
  imports Watcher_Walk
begin

text \<open>
  The scan of a new directory: it registers every directory below it that is not ignored and queues
  one synthetic event for every file there, no matter how much of the tree was created before the
  watch was in place.
\<close>

definition found :: "string list \<Rightarrow> string list \<Rightarrow> fsnode \<Rightarrow> string list \<Rightarrow> bool" where
  \<comment> \<open>a file below \<open>x\<close> that no ignore glob hides\<close>
  "found ignores ns x ms \<longleftrightarrow> visible ignores ns ms \<and>
     (\<exists>y. node_at x ms = Some y \<and> \<not> is_dir y \<and> y \<noteq> BadEntry)"

lemma found_Nil [simp]: "found ignores ns x [] \<longleftrightarrow> \<not> is_dir x \<and> x \<noteq> BadEntry"
  by (simp add: found_def)

lemma found_Cons [simp]:
  "found ignores ns x (n # ms) \<longleftrightarrow>
     (\<exists>es y. x = Dir True es \<and> map_of es n = Some y \<and> \<not> matches_any_glob (ns @ [n]) ignores \<and>
        found ignores (ns @ [n]) y ms)"
  by (auto simp: found_def node_at_Cons)

definition files_below :: "watch_config \<Rightarrow> string list \<Rightarrow> fsnode \<Rightarrow> (string \<times> path \<times> path) set" where
  "files_below wc ns x =
     {(''IN_MOVED_TO'', descendant (watch_path wc) (ns @ ms), watch_path wc) | ms. found (ignore wc) ns x ms}"

definition entry_files :: "watch_config \<Rightarrow> string list \<Rightarrow> (string \<times> fsnode) list \<Rightarrow> (string \<times> path \<times> path) set" where
  "entry_files wc ns es =
     (\<Union>(n, x) \<in> set es. if matches_any_glob (ns @ [n]) (ignore wc) then {} else files_below wc (ns @ [n]) x)"

lemma files_below_file:
  "\<not> is_dir x \<Longrightarrow> files_below wc ns x =
     (if x = BadEntry then {} else {(''IN_MOVED_TO'', descendant (watch_path wc) ns, watch_path wc)})"
proof -
  assume "\<not> is_dir x"
  then have "found (ignore wc) ns x ms \<longleftrightarrow> ms = [] \<and> x \<noteq> BadEntry" for ms
    by (cases ms) auto
  then show ?thesis by (simp add: files_below_def)
qed

lemma files_below_unreadable: "files_below wc ns (Dir False es) = {}"
proof -
  have "\<not> found (ignore wc) ns (Dir False es) ms" for ms by (cases ms) simp_all
  then show ?thesis by (simp add: files_below_def)
qed

lemma files_below_Dir:
  assumes "wf_entries es"
  shows "files_below wc ns (Dir True es) = entry_files wc ns es" (is "?L = ?R")
proof (rule set_eqI)
  fix q
  have c: "found (ignore wc) ns (Dir True es) ms \<longleftrightarrow>
    (\<exists>n x ms'. ms = n # ms' \<and> (n, x) \<in> set es \<and>
      \<not> matches_any_glob (ns @ [n]) (ignore wc) \<and> found (ignore wc) (ns @ [n]) x ms')" for ms
    using wf_entries_map_of [OF assms] by (cases ms) (fastforce dest: map_of_SomeD)+
  show "q \<in> ?L \<longleftrightarrow> q \<in> ?R"
    unfolding files_below_def entry_files_def c by (fastforce split: if_splits)
qed

lemma entry_files_disjoint:
  assumes "n \<notin> fst ` set es"
  shows "files_below wc (ns @ [n]) x \<inter> entry_files wc ns es = {}"
  using assms by (force simp: files_below_def entry_files_def split: if_splits)

definition scanned ::
  "('k \<Rightarrow> nat) \<Rightarrow> nat \<Rightarrow> 'k \<Rightarrow> watch_config \<Rightarrow> path set \<Rightarrow> (string \<times> path \<times> path) set \<Rightarrow>
     'k watcher \<Rightarrow> 'k watcher \<times> unit res \<Rightarrow> bool" where
  \<comment> \<open>the scan registered \<open>Q\<close>, queued one event for each of \<open>F\<close>, and stayed within \<open>n\<close> watches\<close>
  "scanned used n k wc Q F st r \<longleftrightarrow>
     (\<exists>st' k' es. r = (st', Inr ()) \<and> inotify st' = Some k' \<and> used k' \<le> used k + n \<and>
        marks wc Q st st' \<and> synthetic st' = synthetic st @ es \<and> set es = F \<and> distinct es)"

lemma scannedE:
  assumes "scanned used n k wc Q F st r"
  obtains st' k' es where "r = (st', Inr ())" "inotify st' = Some k'" "used k' \<le> used k + n"
    "marks wc Q st st'" "synthetic st' = synthetic st @ es" "set es = F" "distinct es"
  using assms unfolding scanned_def by blast

lemma scanned_skip: "inotify st = Some k \<Longrightarrow> scanned used n k wc {} {} st (st, Inr ())"
  by (auto simp: scanned_def)

lemma scanned_seq:
  assumes "used k1 \<le> used k + n" "marks wc Q st st1" "synthetic st1 = synthetic st @ es"
    "set es = F" "distinct es" "scanned used m k1 wc Q' F' st1 r" "F \<inter> F' = {}"
  shows "scanned used (n + m) k wc (Q \<union> Q') (F \<union> F') st r"
proof -
  from assms(6) obtain st' k' es' where r: "r = (st', Inr ())" "inotify st' = Some k'"
    "used k' \<le> used k1 + m" "marks wc Q' st1 st'" "synthetic st' = synthetic st1 @ es'"
    "set es' = F'" "distinct es'" by (rule scannedE)
  have "used k' \<le> used k + (n + m)" using r(3) assms(1) by simp
  moreover have "set (es @ es') = F \<union> F'" "distinct (es @ es')" using r(6,7) assms(4,5,7) by auto
  moreover have "synthetic st' = synthetic st @ (es @ es')" using r(5) assms(3) by simp
  ultimately show ?thesis
    using r(1,2) marks_trans [OF assms(2) r(4)] unfolding scanned_def by blast
qed

lemma add_dir_and_scan_ok:
  assumes doc: "documented add_watch reads used cap"
  shows "\<lbrakk>inotify st = Some k; used k + count_watchable_dirs (ignore wc) ns x \<le> cap; is_dir x;
      agrees reads (descendant (watch_path wc) ns) x; wf_node x;
      fresh st (descendant (watch_path wc) ns); \<not> matches_any_glob ns (ignore wc)\<rbrakk> \<Longrightarrow>
    scanned used (count_watchable_dirs (ignore wc) ns x) k wc (dirs_below wc ns x) (files_below wc ns x) st
      (add_dir_and_scan add_watch wc (descendant (watch_path wc) ns) x st)"
    and "\<lbrakk>inotify st = Some k; used k + count_entries (ignore wc) ns es \<le> cap;
      agrees_entries reads (descendant (watch_path wc) ns) es; wf_entries es;
      \<And>n. n \<in> fst ` set es \<Longrightarrow> fresh st (descendant (watch_path wc) (ns @ [n]))\<rbrakk> \<Longrightarrow>
    scanned used (count_entries (ignore wc) ns es) k wc (entry_dirs wc ns es) (entry_files wc ns es) st
      (scan_entries add_watch wc (descendant (watch_path wc) ns) es st)"
proof (induction "ignore wc" ns x and "ignore wc" ns es arbitrary: st k and st k
    rule: count_watchable_dirs_count_entries.induct)
  case (1 ns es)
  let ?p = "descendant (watch_path wc) ns"
  have wf: "wf_entries es" using 1(6) by simp
  have r: "reads ?p" "agrees_entries reads ?p es" using agrees_Dir [OF 1(5) wf] by simp_all
  have "used k < cap" using 1(3) by simp
  from documentedD(2) [OF doc r(1) this] obtain k1
    where k1: "add_watch k ?p = (k1, Added)" "used k1 \<le> Suc (used k)" by blast
  let ?st = "register ?p wc (st\<lparr>inotify := Some k1\<rparr>)"
  have "scanned used (count_entries (ignore wc) ns es) k1 wc (entry_dirs wc ns es)
      (entry_files wc ns es) ?st (scan_entries add_watch wc ?p es ?st)"
  proof (rule 1(1))
    show "used k1 + count_entries (ignore wc) ns es \<le> cap" using 1(3) k1(2) by simp
    show "fresh ?st (descendant (watch_path wc) (ns @ [n]))" for n
      by (rule fresh_register [OF 1(7)])
  qed (simp_all add: r wf)
  from scanned_seq [OF _ marks_register _ _ _ this, where n = 1 and k = k and es = "[]" and F = "{}"]
  have "scanned used (1 + count_entries (ignore wc) ns es) k wc (dirs_below wc ns (Dir True es))
      (files_below wc ns (Dir True es)) st (scan_entries add_watch wc ?p es ?st)"
    using k1(2) by (simp add: dirs_below_Dir [OF wf] files_below_Dir [OF wf])
  with k1(1) 1(2,8) fresh_self [OF 1(7)] show ?case by simp
next
  case (2 ns es)
  let ?p = "descendant (watch_path wc) ns"
  have "\<not> reads ?p" using 2(4) by (auto simp: agrees_def dest!: spec [of _ "[]"])
  from documentedD(1) [OF doc this, of k] obtain k1
    where "add_watch k ?p = (k1, AddFailed)" "used k1 \<le> used k" by blast
  with 2 fresh_self [OF 2(6)] show ?case
    by (simp add: dirs_below_unreadable files_below_unreadable scanned_def)
next
  case (7 ns n x es)
  let ?p = "descendant (watch_path wc) ns"
  let ?m = "matches_any_glob (ns @ [n]) (ignore wc)"
  let ?c = "if is_dir x \<and> ?m then 0 else count_watchable_dirs (ignore wc) (ns @ [n]) x"
  let ?Q = "if ?m then {} else dirs_below wc (ns @ [n]) x"
  let ?F = "if ?m then {} else files_below wc (ns @ [n]) x"
  have disj: "?F \<inter> entry_files wc ns es = {}" using entry_files_disjoint [of n es wc ns x] 7(6) by simp
  have rest: "scanned used (?c + count_entries (ignore wc) ns es) k wc (?Q \<union> entry_dirs wc ns es)
      (?F \<union> entry_files wc ns es) st (scan_entries add_watch wc ?p es st1)"
    if st1: "inotify st1 = Some k1" "used k1 \<le> used k + ?c" "marks wc ?Q st st1"
      "synthetic st1 = synthetic st @ evs" "set evs = ?F" "distinct evs" for st1 k1 evs
  proof (rule scanned_seq [OF st1(2-6) _ disj], rule 7(2))
    show "used k1 + count_entries (ignore wc) ns es \<le> cap" using 7(4) st1(2) by simp
    fix m assume "m \<in> fst ` set es"
    then have "m \<noteq> n" "fresh st (descendant (watch_path wc) (ns @ [m]))" using 7(6,7) by auto
    then show "fresh st1 (descendant (watch_path wc) (ns @ [m]))" by (rule fresh_siblings [OF st1(3)])
  qed (use st1(1) 7(5,6) in simp_all)
  have "scanned used (?c + count_entries (ignore wc) ns es) k wc (?Q \<union> entry_dirs wc ns es)
      (?F \<union> entry_files wc ns es) st (scan_entries add_watch wc ?p ((n, x) # es) st)"
  proof (cases "is_dir x")
    case False
    with rest [of st k "[]"] rest [of "st\<lparr>synthetic := synthetic st @
        [(''IN_MOVED_TO'', child ?p n, watch_path wc)]\<rparr>" k "[(''IN_MOVED_TO'', child ?p n, watch_path wc)]"] 7(3)
    show ?thesis
      by (cases ?m; cases "x = BadEntry") (simp_all add: files_below_file dirs_below_other marks_def)
  next
    case True
    have "scanned used ?c k wc ?Q ?F st (add_dir_and_scan add_watch wc (child ?p n) x st)"
    proof (cases ?m)
      case True
      with \<open>is_dir x\<close> 7(3) show ?thesis by (simp add: scanned_skip)
    next
      case False
      with 7(1) [of st k] 7(3-7) True show ?thesis by simp
    qed
    then obtain st1 k1 evs where "add_dir_and_scan add_watch wc (child ?p n) x st = (st1, Inr ())"
      and "inotify st1 = Some k1" "used k1 \<le> used k + ?c" "marks wc ?Q st st1"
      "synthetic st1 = synthetic st @ evs" "set evs = ?F" "distinct evs" by (rule scannedE)
    with rest [of st1 k1 evs] True show ?thesis by simp
  qed
  moreover have "entry_dirs wc ns ((n, x) # es) = ?Q \<union> entry_dirs wc ns es"
    "entry_files wc ns ((n, x) # es) = ?F \<union> entry_files wc ns es"
    by (simp_all add: entry_dirs_def entry_files_def)
  ultimately show ?case by simp
qed (auto simp: entry_dirs_def entry_files_def scanned_def)

section \<open>The scan never raises\<close>

lemma scan_open:
  "inotify st \<noteq> None \<Longrightarrow>
     \<exists>st'. add_dir_and_scan add_watch wc p x st = (st', Inr ()) \<and> inotify st' \<noteq> None"
  "inotify st \<noteq> None \<Longrightarrow>
     \<exists>st'. scan_entries add_watch wc p es st = (st', Inr ()) \<and> inotify st' \<noteq> None"
proof (induction add_watch wc p x st and add_watch wc p es st rule: add_dir_and_scan_scan_entries.induct)
  case (1 add_watch wc p x st)
  then obtain k where k: "inotify st = Some k" by auto
  obtain k1 a where ka: "add_watch k p = (k1, a)" by fastforce
  show ?case
    using 1 k ka by (auto split: add_result.split fsnode.split bool.split)
next
  case (3 add_watch wc p n x es st)
  then show ?case by (cases "is_dir x") fastforce+
qed simp

end
