(* ===== verification/Watcher_Events.thy ===== *)
theory Watcher_Events
  imports Watcher_Scan
begin

text \<open>
  The bookkeeping invariant of the watcher and what its generator yields: it holds whatever the
  kernel answers and whatever the file system looks like.
\<close>

definition good_event :: "watch_config list \<Rightarrow> string \<times> path \<times> path \<Rightarrow> bool" where
  "good_event ws e \<longleftrightarrow> (case e of (m, p, r) \<Rightarrow>
     (m \<in> {''IN_MOVED_TO'', ''IN_CLOSE_WRITE'', ''IN_DELETE'', ''IN_MOVED_FROM''}) \<and>
     (\<exists>wc \<in> set ws. r = watch_path wc \<and> (\<exists>ns. p = descendant r ns)))"

definition watcher_inv :: "watch_config list \<Rightarrow> 'k watcher \<Rightarrow> bool" where
  "watcher_inv ws st \<longleftrightarrow> synced st \<and>
     (\<forall>q wc. map_of (dir_to_config st) q = Some wc \<longrightarrow>
        wc \<in> set ws \<and> (\<exists>ns. q = descendant (watch_path wc) ns)) \<and>
     (\<forall>e \<in> set (synthetic st). good_event ws e)"

lemma init_inv [simp]: "watcher_inv ws init_watcher"
  by (simp add: watcher_inv_def init_watcher_def synced_def)

lemma inv_inotify [simp]: "watcher_inv ws (st\<lparr>inotify := k\<rparr>) = watcher_inv ws st"
  by (simp add: watcher_inv_def synced_def)

lemma register_inv:
  "watcher_inv ws st \<Longrightarrow> wc \<in> set ws \<Longrightarrow> watcher_inv ws (register (descendant (watch_path wc) ns) wc st)"
  by (auto simp: watcher_inv_def synced_def)

lemma register_root_inv:
  "watcher_inv ws st \<Longrightarrow> wc \<in> set ws \<Longrightarrow> watcher_inv ws (register (watch_path wc) wc st)"
  using register_inv [of ws st wc "[]"] by simp

lemma synthetic_inv:
  "watcher_inv ws st \<Longrightarrow> wc \<in> set ws \<Longrightarrow>
     watcher_inv ws (st\<lparr>synthetic := synthetic st @
       [(''IN_MOVED_TO'', descendant (watch_path wc) ns, watch_path wc)]\<rparr>)"
  by (auto simp: watcher_inv_def synced_def good_event_def)

lemma drop_watch_inv: "watcher_inv ws st \<Longrightarrow> watcher_inv ws (drop_watch p st)"
  by (auto simp: watcher_inv_def synced_def drop_watch_def delete_conv')

lemma take_synthetic_inv:
  "watcher_inv ws st \<Longrightarrow> watcher_inv ws (snd (take_synthetic st)) \<and>
     (\<forall>e \<in> set (fst (take_synthetic st)). good_event ws e)"
  by (simp add: watcher_inv_def take_synthetic_def synced_def)

lemma add_recursive_inv:
  "watcher_inv ws st \<Longrightarrow> wc \<in> set ws \<Longrightarrow> p = descendant (watch_path wc) ns \<Longrightarrow>
     watcher_inv ws (fst (add_recursive add_watch wc p x st))"
  "watcher_inv ws st \<Longrightarrow> wc \<in> set ws \<Longrightarrow> p = descendant (watch_path wc) ns \<Longrightarrow>
     watcher_inv ws (fst (add_entries add_watch wc p es st))"
proof (induction add_watch wc p x st and add_watch wc p es st arbitrary: ns and ns
    rule: add_recursive_add_entries.induct)
  case (1 add_watch wc p r es st)
  then show ?case
    by (auto simp: register_inv register_root_inv split: option.split prod.split add_result.split bool.split)
next
  case (4 add_watch wc p n x es st)
  then show ?case
    by (cases "is_dir x") (auto split: prod.split sum.split dest!: spec [of _ "ns @ [n]"])
qed (auto split: option.split)

lemma add_dir_and_scan_inv:
  "watcher_inv ws st \<Longrightarrow> wc \<in> set ws \<Longrightarrow> p = descendant (watch_path wc) ns \<Longrightarrow>
     watcher_inv ws (fst (add_dir_and_scan add_watch wc p x st))"
  "watcher_inv ws st \<Longrightarrow> wc \<in> set ws \<Longrightarrow> p = descendant (watch_path wc) ns \<Longrightarrow>
     watcher_inv ws (fst (scan_entries add_watch wc p es st))"
proof (induction add_watch wc p x st and add_watch wc p es st arbitrary: ns and ns
    rule: add_dir_and_scan_scan_entries.induct)
  case (1 add_watch wc p x st)
  then show ?case
    by (auto simp: register_inv register_root_inv
        split: option.split prod.split add_result.split fsnode.split bool.split)
next
  case (3 add_watch wc p n x es st)
  then show ?case
    by (cases "is_dir x")
      (auto simp: synthetic_inv split: prod.split sum.split dest!: spec [of _ "ns @ [n]"])
qed simp

section \<open>Start-up\<close>

definition opened :: "'k watcher \<times> unit res \<Rightarrow> bool" where
  \<comment> \<open>returned with an open instance, or raised with a count one above the watches obtained\<close>
  "opened r \<longleftrightarrow> (case snd r of Inr _ \<Rightarrow> inotify (fst r) \<noteq> None
     | Inl e \<Rightarrow> \<exists>n. e = InotifyLimitError (n + 1) n)"

lemma opened_simps [simp]:
  "opened (st, Inr u) \<longleftrightarrow> inotify st \<noteq> None"
  "opened (st, Inl e) \<longleftrightarrow> (\<exists>n. e = InotifyLimitError (n + 1) n)"
  by (simp_all add: opened_def)

lemma add_recursive_open:
  "inotify st \<noteq> None \<Longrightarrow> opened (add_recursive add_watch wc p x st)"
  "inotify st \<noteq> None \<Longrightarrow> opened (add_entries add_watch wc p es st)"
proof (induction add_watch wc p x st and add_watch wc p es st rule: add_recursive_add_entries.induct)
  case (1 add_watch wc p r es st)
  then obtain k where k: "inotify st = Some k" by auto
  obtain k1 a where ka: "add_watch k p = (k1, a)" by fastforce
  show ?case
    using 1 k ka by (cases a) auto
next
  case (4 add_watch wc p n x es st)
  obtain st1 r where a: "add_recursive add_watch wc (child p n) x st = (st1, r)" by fastforce
  with 4 show ?case by (cases "is_dir x"; cases r) auto
qed (auto split: option.split)

lemma add_roots_open:
  "inotify st \<noteq> None \<Longrightarrow> watcher_inv ws st \<Longrightarrow> set vs \<subseteq> set ws \<Longrightarrow>
     opened (add_roots add_watch fs vs st) \<and> watcher_inv ws (fst (add_roots add_watch fs vs st))"
proof (induction vs arbitrary: st)
  case (Cons wc vs)
  obtain st1 r where a: "add_recursive add_watch wc (watch_path wc) (fs (watch_path wc)) st = (st1, r)"
    by fastforce
  have inv: "watcher_inv ws st1"
    using add_recursive_inv(1) [OF Cons.prems(2), of wc "watch_path wc" "[]" add_watch "fs (watch_path wc)"]
      Cons.prems(3) a by simp
  have "opened (st1, r)"
    using add_recursive_open(1) [OF Cons.prems(1), of add_watch wc "watch_path wc" "fs (watch_path wc)"] a
    by simp
  with inv Cons.IH [of st1] Cons.prems(3) a show ?case by (cases r) auto
qed simp

text \<open>
  \<open>__aenter__\<close> either opens the watcher or raises InotifyLimitError, or the OSError of a root that
  cannot be looked at, and leaves it closed; no other exception escapes, whatever the kernel answers. An error of the pre-flight carries the count
  and the limit; one of the walk asks for one watch more than it obtained.
\<close>

lemma startup_outcome:
  "case aenter add_watch k0 fs read_limit ws init_watcher of
     (st, Inr _) \<Rightarrow> inotify st \<noteq> None \<and> watcher_inv ws st
   | (st, Inl e) \<Rightarrow> inotify st = None \<and>
       ((\<exists>n a. e = InotifyLimitError n a \<and> a < n \<and>
          ((n = int (needed_watches fs ws) \<and> read_limit = Some a) \<or> n = a + 1)) \<or>
        e = OSError ''is_dir'' \<and> (\<exists>wc \<in> set ws. fs (watch_path wc) = BadEntry))"
proof -
  define st0 :: "'a watcher" where "st0 = init_watcher\<lparr>inotify := Some k0\<rparr>"
  obtain st r where a: "add_roots add_watch fs ws st0 = (st, r)" by fastforce
  have "opened (st, r) \<and> watcher_inv ws st"
    using add_roots_open [of st0 ws ws add_watch fs] a by (simp add: st0_def)
  then have "case open_roots add_watch k0 fs ws init_watcher of
      (st', Inr u) \<Rightarrow> inotify st' \<noteq> None \<and> watcher_inv ws st'
    | (st', Inl e) \<Rightarrow> inotify st' = None \<and> (\<exists>n. e = InotifyLimitError (n + 1) n)"
    using a by (cases r) (auto simp: open_roots_def st0_def)
  then show ?thesis
    by (auto simp: aenter_def init_watcher_def find_None_iff split: option.split prod.splits sum.splits)
qed

section \<open>The generator\<close>

definition kernel_event :: "raw_event \<Rightarrow> bool" where
  \<comment> \<open>only the bits that were asked for and the ones the kernel adds; the path of an event is that of
    its watch, with the name of an entry when it has one\<close>
  "kernel_event ev \<longleftrightarrow> ev_mask ev \<subseteq> watch_mask \<union> {IN_IGNORED, IN_ISDIR, IN_Q_OVERFLOW, IN_UNMOUNT} \<and> (case (ev_watch ev, ev_path ev) of
     (Some w, Some p) \<Rightarrow> p = w \<or> (\<exists>n. p = child w n) | _ \<Rightarrow> True)"

lemma handle_event_inv:
  assumes "watcher_inv ws st" "inotify st \<noteq> None" "kernel_event ev"
  shows "\<exists>st' y. handle_event add_watch fs ev st = (st', Inr y) \<and> watcher_inv ws st' \<and>
    inotify st' \<noteq> None \<and> (case y of None \<Rightarrow> True | Some e \<Rightarrow> good_event ws e)"
proof -
  have below: "wc \<in> set ws \<and> (\<exists>ns. p = descendant (watch_path wc) ns)"
    if "map_of (dir_to_config st) w = Some wc" "ev_watch ev = Some w" "ev_path ev = Some p" for w wc p
  proof -
    from that(1) assms(1) obtain ns where "wc \<in> set ws" "w = descendant (watch_path wc) ns"
      by (auto simp: watcher_inv_def)
    moreover have "p = w \<or> (\<exists>n. p = child w n)" using assms(3) that(2,3) by (simp add: kernel_event_def)
    ultimately show ?thesis by (metis child_descendant)
  qed
  have scan: "\<exists>st'. add_dir_and_scan add_watch wc p (fs p) st = (st', Inr ()) \<and> watcher_inv ws st' \<and> inotify st' \<noteq> None"
    if "map_of (dir_to_config st) w = Some wc" "ev_watch ev = Some w" "ev_path ev = Some p" for w wc p
  proof -
    from below [OF that] obtain ns where "wc \<in> set ws" "p = descendant (watch_path wc) ns" by blast
    from add_dir_and_scan_inv(1) [OF assms(1) this, of add_watch "fs p"]
      scan_open(1) [OF assms(2), of add_watch wc p "fs p"] show ?thesis by auto
  qed
  have emit: "good_event ws (m, p, r)"
    if "map_of (dir_to_root st) w = Some r" "ev_watch ev = Some w" "ev_path ev = Some p"
      "mask_to_name (ev_mask ev) = Some m" for w m p r
  proof -
    from that(1) assms(1) obtain wc where "map_of (dir_to_config st) w = Some wc" "r = watch_path wc"
      by (auto simp: watcher_inv_def synced_def)
    with below [OF this(1) that(2,3)] that(4) show ?thesis
      by (auto simp: good_event_def mask_to_name_def split: if_splits)
  qed
  have "inotify (drop_watch w st) \<noteq> None" for w using assms(2) by (simp add: drop_watch_def)
  then show ?thesis
    using assms(1,2) drop_watch_inv [OF assms(1)] scan emit
    unfolding handle_event_def
    by (fastforce split: option.splits)
qed

lemma iter_events_inv:
  "watcher_inv ws st \<Longrightarrow> inotify st \<noteq> None \<Longrightarrow> \<forall>(fs, ev) \<in> set evs. kernel_event ev \<Longrightarrow>
     \<exists>st' ys. iter_events add_watch evs st = (st', Inr ys) \<and> watcher_inv ws st' \<and> inotify st' \<noteq> None \<and>
       (\<forall>y \<in> set ys. good_event ws y)"
proof (induction evs arbitrary: st)
  case Nil
  then show ?case using take_synthetic_inv [OF Nil(1)] by (simp add: take_synthetic_def)
next
  case (Cons fe evs)
  obtain fs ev where fe: "fe = (fs, ev)" by (cases fe)
  obtain ys st1 where ts: "take_synthetic st = (ys, st1)" by fastforce
  have st1: "watcher_inv ws st1" "inotify st1 \<noteq> None" "\<forall>e \<in> set ys. good_event ws e"
    using take_synthetic_inv [OF Cons.prems(1)] Cons.prems(2) ts by (auto simp: take_synthetic_def)
  from handle_event_inv [OF st1(1,2), where ev = ev and add_watch = add_watch and fs = fs] Cons.prems(3) obtain st2 y where
    st2: "handle_event add_watch fs ev st1 = (st2, Inr y)" "watcher_inv ws st2" "inotify st2 \<noteq> None"
    "case y of None \<Rightarrow> True | Some e \<Rightarrow> good_event ws e" by (auto simp: fe)
  from Cons.IH [OF st2(2,3)] Cons.prems(3) obtain st3 zs where
    "iter_events add_watch evs st2 = (st3, Inr zs)" "watcher_inv ws st3" "inotify st3 \<noteq> None"
    "\<forall>y \<in> set zs. good_event ws y" by auto
  with st1(3) st2 ts fe show ?case by (auto split: option.splits)
qed

text \<open>
  C21. From a successful start, over any sequence of kernel events and any changes of the file system,
  the generator never raises, and everything it yields carries one of the four mask names the filter
  knows, a configured watch root, and a path at or below that root.
\<close>

theorem emitted_events_rooted:
  assumes "aenter add_watch k0 fs read_limit ws init_watcher = (st, Inr ())"
    and "\<forall>(fs, ev) \<in> set evs. kernel_event ev"
  shows "\<exists>st' ys. iter_events add_watch evs st = (st', Inr ys) \<and> watcher_inv ws st' \<and>
    (\<forall>(m, p, r) \<in> set ys.
       m \<in> {''IN_MOVED_TO'', ''IN_CLOSE_WRITE'', ''IN_DELETE'', ''IN_MOVED_FROM''} \<and>
       (\<exists>wc \<in> set ws. r = watch_path wc \<and> relative_to p (watch_path wc) \<noteq> None))"
proof -
  have "watcher_inv ws st" "inotify st \<noteq> None"
    using startup_outcome [where add_watch = add_watch and ?k0.0 = k0 and fs = fs and read_limit = read_limit
        and ws = ws] assms(1) by simp_all
  from iter_events_inv [OF this assms(2)] show ?thesis
    by (fastforce simp: good_event_def relative_to_None_iff)
qed

end
