(* ===== verification/Watcher_Contract.thy ===== *)
theory Watcher_Contract
  imports Watcher_Events Url_Mapper
begin

text \<open>
  What the watcher promises: the pre-flight decides the start-up, the start-up covers exactly the
  directories no glob hides, a new directory is scanned without a gap, the generator only yields
  events below configured roots; and where its bookkeeping goes stale.
\<close>

section \<open>Start-up\<close>

definition apart :: "path \<Rightarrow> path \<Rightarrow> bool" where
  \<comment> \<open>neither path is at or below the other\<close>
  "apart p q \<longleftrightarrow> relative_to p q = None \<and> relative_to q p = None"

lemma apart_descendant: "apart p q \<Longrightarrow> descendant p ms \<noteq> descendant q ns"
proof
  assume a: "apart p q" and d: "descendant p ms = descendant q ns"
  have "anchor p = anchor q" using d by (metis descendant_sel(1))
  moreover have "comps p @ ms = comps q @ ns" using d by (metis descendant_sel(2))
  then obtain us where "comps p = comps q @ us \<or> comps q = comps p @ us"
    by (metis append_eq_append_conv2)
  ultimately have "p = descendant q us \<or> q = descendant p us"
    by (auto simp: descendant_def path.equality)
  with a show False by (auto simp: apart_def relative_to_None_iff)
qed

definition tree_ok :: "(path \<Rightarrow> bool) \<Rightarrow> (path \<Rightarrow> fsnode) \<Rightarrow> watch_config \<Rightarrow> bool" where
  "tree_ok reads fs wc \<longleftrightarrow>
     agrees reads (watch_path wc) (fs (watch_path wc)) \<and> wf_node (fs (watch_path wc))"

lemma add_roots_within:
  assumes doc: "documented add_watch reads used cap"
  shows "\<lbrakk>inotify st = Some k; used k + needed_watches fs ws \<le> cap; \<forall>wc \<in> set ws. tree_ok reads fs wc\<rbrakk> \<Longrightarrow>
    \<exists>st' k'. add_roots add_watch fs ws st = (st', Inr ()) \<and> inotify st' = Some k'"
proof (induction ws arbitrary: st k)
  case (Cons wc ws)
  have "stays_within used (count_watchable_dirs (ignore wc) [] (fs (watch_path wc))) k
      (add_recursive add_watch wc (watch_path wc) (fs (watch_path wc)) st)"
    using add_recursive_within(1) [OF doc, of st k wc "[]" "fs (watch_path wc)"] Cons.prems
    by (simp add: tree_ok_def needed_watches_def)
  then obtain st1 k1 where "add_recursive add_watch wc (watch_path wc) (fs (watch_path wc)) st = (st1, Inr ())"
    "inotify st1 = Some k1" "used k1 \<le> used k + count_watchable_dirs (ignore wc) [] (fs (watch_path wc))"
    by (rule stays_withinE)
  with Cons.IH [of st1 k1] Cons.prems show ?case by (simp add: needed_watches_def)
qed simp

text \<open>
  C20. The pre-flight is exact. When the kernel behaves as documented and no other process holds
  watches, the start-up succeeds if and only if every root can be looked at and the directories counted
  fit the limit that was read; otherwise it raises the OSError of the root, or InotifyLimitError with
  both numbers, before it opens the inotify instance.
\<close>

theorem preflight_exact:
  assumes "documented add_watch reads used cap" "used k0 = 0" "\<forall>wc \<in> set ws. tree_ok reads fs wc"
  shows "if \<exists>wc \<in> set ws. fs (watch_path wc) = BadEntry
    then aenter add_watch k0 fs (Some (int cap)) ws init_watcher = (init_watcher, Inl (OSError ''is_dir''))
    else if needed_watches fs ws \<le> cap
    then \<exists>st. aenter add_watch k0 fs (Some (int cap)) ws init_watcher = (st, Inr ()) \<and> inotify st \<noteq> None
    else aenter add_watch k0 fs (Some (int cap)) ws init_watcher =
      (init_watcher, Inl (InotifyLimitError (int (needed_watches fs ws)) (int cap)))"
proof (cases "needed_watches fs ws \<le> cap")
  case True
  with add_roots_within [OF assms(1), of "init_watcher\<lparr>inotify := Some k0\<rparr>" k0 fs ws] assms(2,3)
  obtain st k where "add_roots add_watch fs ws (init_watcher\<lparr>inotify := Some k0\<rparr>) = (st, Inr ())"
    "inotify st = Some k" by auto
  with True show ?thesis by (auto simp: aenter_def open_roots_def find_None_iff)
qed (auto simp: aenter_def find_None_iff)

text \<open>
  The advice of the error message works: with the limit raised to the number it suggests, and a
  kernel that grants it, the start-up that had been refused succeeds.
\<close>

lemma suggestion_suffices:
  assumes "aenter add_watch0 j0 fs (Some available) ws init_watcher =
      (init_watcher, Inl (InotifyLimitError needed available))"
    and "documented add_watch reads used (nat (suggested_watches needed))" "used k0 = 0"
    and "\<forall>wc \<in> set ws. tree_ok reads fs wc" "needed = int (needed_watches fs ws)"
  shows "\<exists>st. aenter add_watch k0 fs (Some (suggested_watches needed)) ws init_watcher = (st, Inr ())"
proof -
  have "needed_watches fs ws \<le> nat (suggested_watches needed)"
    "int (needed_watches fs ws) \<le> suggested_watches needed"
    by (simp_all add: suggested_watches_def assms(5))
  with add_roots_within [OF assms(2), of "init_watcher\<lparr>inotify := Some k0\<rparr>" k0 fs ws] assms(3,4)
  obtain st k where "add_roots add_watch fs ws (init_watcher\<lparr>inotify := Some k0\<rparr>) = (st, Inr ())" by auto
  with \<open>int (needed_watches fs ws) \<le> _\<close> assms(1) show ?thesis
    by (auto simp: aenter_def open_roots_def split: if_splits)
qed

lemma add_roots_marks:
  assumes doc: "documented add_watch reads used cap"
  shows "\<lbrakk>add_roots add_watch fs ws st = (st', Inr ()); \<forall>wc \<in> set ws. tree_ok reads fs wc;
      sorted_wrt (\<lambda>v w. apart (watch_path v) (watch_path w)) ws;
      \<forall>wc \<in> set ws. fresh st (watch_path wc); synced st\<rbrakk> \<Longrightarrow>
    synced st' \<and> (\<forall>q wc. map_of (dir_to_config st') q = Some wc \<longleftrightarrow> map_of (dir_to_config st) q = Some wc \<or>
       (wc \<in> set ws \<and> q \<in> dirs_below wc [] (fs (watch_path wc)))) \<and> synthetic st' = synthetic st"
proof (induction ws arbitrary: st)
  case (Cons wc ws)
  from Cons.prems(1) obtain st1 where st1:
    "add_recursive add_watch wc (watch_path wc) (fs (watch_path wc)) st = (st1, Inr ())"
    "add_roots add_watch fs ws st1 = (st', Inr ())"
    by (auto split: prod.splits sum.splits)
  have m: "marks wc (dirs_below wc [] (fs (watch_path wc))) st st1" "synthetic st1 = synthetic st"
    using add_recursive_marks(1) [OF doc, of wc "[]" "fs (watch_path wc)" st st1] st1(1) Cons.prems
    by (simp_all add: tree_ok_def)
  have "fresh st1 (watch_path v)" if "v \<in> set ws" for v
    unfolding fresh_def
  proof
    fix ms
    have "apart (watch_path wc) (watch_path v)" using Cons.prems(3) that by simp
    from apart_descendant [OF this] have "descendant (watch_path v) ms \<notin> dirs_below wc [] (fs (watch_path wc))"
      unfolding dirs_below_def by (auto dest: sym)
    moreover have "\<not> is_watched st (descendant (watch_path v) ms)"
      using Cons.prems(4) that by (simp add: fresh_def)
    ultimately show "\<not> is_watched st1 (descendant (watch_path v) ms)"
      by (simp add: marks_watched [OF m(1)])
  qed
  moreover have s1: "synced st1" by (rule marks_synced [OF m(1) Cons.prems(5)])
  ultimately have IH: "synced st'" "synthetic st' = synthetic st1"
    "map_of (dir_to_config st') q = Some w \<longleftrightarrow> map_of (dir_to_config st1) q = Some w \<or>
       (w \<in> set ws \<and> q \<in> dirs_below w [] (fs (watch_path w)))" for q w
    using Cons.IH [OF st1(2)] Cons.prems by simp_all
  have "map_of (dir_to_config st) q = None" if "q \<in> dirs_below wc [] (fs (watch_path wc))" for q
    using Cons.prems(4,5) that by (auto simp: dirs_below_def fresh_def synced_watched)
  then have "map_of (dir_to_config st1) q = Some w \<longleftrightarrow> map_of (dir_to_config st) q = Some w \<or>
      w = wc \<and> q \<in> dirs_below wc [] (fs (watch_path wc))" for q w
    using m(1) by (auto simp: marks_def)
  then have "\<forall>q w. map_of (dir_to_config st') q = Some w \<longleftrightarrow> map_of (dir_to_config st) q = Some w \<or>
      w \<in> set (wc # ws) \<and> q \<in> dirs_below w [] (fs (watch_path w))"
    unfolding IH(3) by auto
  with IH(1,2) m(2) show ?case by simp
qed simp

text \<open>
  C19. What a successful start covers: with roots none of which contains another, a directory is
  watched after the start if and only if it is a readable directory at or below a root such that no
  ignore glob of that root matches it or a directory between them; it is then watched on behalf of
  that root's configuration, and no synthetic event is pending.
\<close>

theorem startup_coverage:
  assumes "documented add_watch reads used cap" "\<forall>wc \<in> set ws. tree_ok reads fs wc"
    and "sorted_wrt (\<lambda>v w. apart (watch_path v) (watch_path w)) ws"
    and "aenter add_watch k0 fs read_limit ws init_watcher = (st, Inr ())"
  shows "(map_of (dir_to_config st) q = Some wc \<longleftrightarrow>
      wc \<in> set ws \<and> (\<exists>ns es. q = descendant (watch_path wc) ns \<and> visible (ignore wc) [] ns \<and>
        node_at (fs (watch_path wc)) ns = Some (Dir True es))) \<and>
    synced st \<and> synthetic st = []"
proof -
  have "add_roots add_watch fs ws (init_watcher\<lparr>inotify := Some k0\<rparr>) = (st, Inr ())"
    using assms(4) by (auto simp: aenter_def open_roots_def
        split: option.splits if_splits prod.splits sum.splits exn.splits)
  from add_roots_marks [OF assms(1) this assms(2,3)]
  show ?thesis
    by (auto simp: init_watcher_def fresh_def is_watched_def synced_def dirs_below_def covered_def)
qed

section \<open>New directories\<close>

definition dir_created :: "path \<Rightarrow> path \<Rightarrow> raw_event" where
  "dir_created w p = \<lparr>ev_mask = {IN_CREATE, IN_ISDIR}, ev_watch = Some w, ev_path = Some p\<rparr>"

text \<open>
  C8. The window between \<open>mkdir\<close> and the new watch is closed for a directory that is new to the
  watcher. When the kernel reports a directory that no glob hides, and neither it nor anything below it
  is in the books yet (\<open>fresh\<close>), then, whatever tree has grown below it by then, every visible directory
  of it becomes watched and every visible file of it, and nothing else, is queued as exactly one
  synthetic \<open>IN_MOVED_TO\<close> event, as long as the watch budget lasts. Without \<open>fresh\<close> the claim is
  false of the code: \<open>moved_tree_goes_stale\<close> shows a directory whose name was used before, and whose
  subdirectories are skipped.
\<close>

theorem new_directory_scanned:
  assumes "documented add_watch reads used cap" "inotify st = Some k"
    and "map_of (dir_to_config st) w = Some wc" "p = descendant (watch_path wc) ns"
    and "is_dir (fs p)" "agrees reads p (fs p)" "wf_node (fs p)"
    and "used k + count_watchable_dirs (ignore wc) ns (fs p) \<le> cap"
    and "fresh st p" "\<not> matches_any_glob ns (ignore wc)"
  shows "\<exists>st' evs. handle_event add_watch fs (dir_created w p) st = (st', Inr None) \<and>
    synthetic st' = synthetic st @ evs \<and> distinct evs \<and>
    (\<forall>m q r. (m, q, r) \<in> set evs \<longleftrightarrow> m = ''IN_MOVED_TO'' \<and> r = watch_path wc \<and>
       (\<exists>ms y. q = descendant p ms \<and> node_at (fs p) ms = Some y \<and> \<not> is_dir y \<and> y \<noteq> BadEntry \<and>
          visible (ignore wc) ns ms)) \<and>
    (\<forall>q. is_watched st' q \<longleftrightarrow> is_watched st q \<or>
       (\<exists>ms es. q = descendant p ms \<and> node_at (fs p) ms = Some (Dir True es) \<and> visible (ignore wc) ns ms))"
proof -
  have "scanned used (count_watchable_dirs (ignore wc) ns (fs p)) k wc (dirs_below wc ns (fs p))
      (files_below wc ns (fs p)) st (add_dir_and_scan add_watch wc p (fs p) st)"
    using add_dir_and_scan_ok(1) [OF assms(1,2), of wc ns "fs p"] assms(4-10) by simp
  then obtain st' k' evs where s: "add_dir_and_scan add_watch wc p (fs p) st = (st', Inr ())"
    "marks wc (dirs_below wc ns (fs p)) st st'" "synthetic st' = synthetic st @ evs"
    "set evs = files_below wc ns (fs p)" "distinct evs" by (rule scannedE)
  have "handle_event add_watch fs (dir_created w p) st = (st', Inr None)"
    using assms(3) s(1) by (simp add: handle_event_def dir_created_def)
  moreover have "(m, q, r) \<in> set evs \<longleftrightarrow> m = ''IN_MOVED_TO'' \<and> r = watch_path wc \<and>
       (\<exists>ms y. q = descendant p ms \<and> node_at (fs p) ms = Some y \<and> \<not> is_dir y \<and> y \<noteq> BadEntry \<and>
          visible (ignore wc) ns ms)" for m q r
    by (auto simp: s(4) files_below_def found_def assms(4))
  moreover have "is_watched st' q \<longleftrightarrow> is_watched st q \<or>
       (\<exists>ms es. q = descendant p ms \<and> node_at (fs p) ms = Some (Dir True es) \<and> visible (ignore wc) ns ms)" for q
    by (auto simp: marks_watched [OF s(2)] dirs_below_def covered_def assms(4))
  ultimately show ?thesis using s(3,5) by blast
qed

lemma handle_created_open:
  assumes "inotify st = Some k"
  shows "\<exists>st'. handle_event add_watch fs (dir_created w p) st = (st', Inr None)"
proof (cases "map_of (dir_to_config st) w")
  case None
  then show ?thesis by (simp add: handle_event_def dir_created_def)
next
  case (Some wc)
  obtain st' where "add_dir_and_scan add_watch wc p (fs p) st = (st', Inr ())"
    using scan_open(1) [of st add_watch wc p "fs p"] assms by auto
  with Some show ?thesis by (simp add: handle_event_def dir_created_def)
qed

section \<open>Stale bookkeeping\<close>

definition dir_moved_away :: "path \<Rightarrow> raw_event" where
  "dir_moved_away p = \<lparr>ev_mask = {IN_MOVE_SELF}, ev_watch = Some p, ev_path = Some p\<rparr>"

text \<open>
  A directory that is moved away only drops its own entry: the entries of its subdirectories
  stay. When a new directory then takes its place, a subdirectory whose path is still in the books
  is neither watched again nor scanned, so that no file that was created in it before is reported.
\<close>

lemma moved_tree_goes_stale:
  assumes "inotify st = Some k" "w \<noteq> d"
    and "map_of (dir_to_config st) w = Some wc" "is_watched st (child d n)"
    and "handle_event add_watch fs0 (dir_moved_away d) st = (st1, Inr None)"
    and "fs d = Dir True [(n, Dir r es)]"
    and "handle_event add_watch fs (dir_created w d) st1 = (st2, Inr None)"
  shows "synthetic st2 = synthetic st \<and> (\<forall>m. is_watched st2 (child (child d n) m) \<longleftrightarrow> is_watched st (child (child d n) m))"
proof -
  have st1: "st1 = drop_watch d st" using assms(5) by (simp add: handle_event_def dir_moved_away_def)
  have "child d n \<noteq> d" by (simp add: child_as_descendant)
  then have n: "is_watched st1 (child d n)" "map_of (dir_to_config st1) w = Some wc"
    using assms(2-4) by (auto simp: st1 drop_watch_def is_watched_def delete_conv')
  have k: "inotify st1 = Some k" by (simp add: st1 drop_watch_def assms(1))
  obtain k1 a where ka: "add_watch k d = (k1, a)" by fastforce
  have reg: "is_watched (register d wc s) q \<longleftrightarrow> q = d \<or> is_watched s q" for s :: "'a watcher" and q
    by (simp add: is_watched_def)
  have "synthetic st2 = synthetic st1 \<and>
      (\<forall>m. is_watched st2 (child (child d n) m) \<longleftrightarrow> is_watched st1 (child (child d n) m))"
    using assms(6,7) n k ka
    by (cases a) (auto simp: handle_event_def dir_created_def reg child_as_descendant is_watched_def
        split: if_splits)
  moreover have "child (child d n) m \<noteq> d" for m by (simp add: child_as_descendant)
  ultimately show ?thesis
    by (auto simp: st1 drop_watch_def is_watched_def delete_conv')
qed

section \<open>Concrete instances\<close>

definition budget_kernel :: "(path \<Rightarrow> bool) \<Rightarrow> nat \<Rightarrow> nat add_watch" where
  \<comment> \<open>a kernel that counts the watches it has granted\<close>
  "budget_kernel reads cap k p =
     (if \<not> reads p then (k, AddFailed) else if k < cap then (Suc k, Added) else (k, NoSpace))"

lemma budget_documented: "documented (budget_kernel reads cap) reads id cap"
  by (simp add: documented_def budget_kernel_def)

definition sample_tree :: fsnode where
  \<comment> \<open>a release directory with its metadata, a staging directory and a link\<close>
  "sample_tree = Dir True
     [(''repomd.xml'', NonDir), (''.~tmp~'', Dir True [(''part'', NonDir)]), (''latest'', DirLink),
      (''os'', Dir True [(''a.rpm'', NonDir)])]"

definition sample_root :: path where
  "sample_root = watch_path sample_watch"

lemma all_readable: "node_at sample_tree ns = Some (Dir r es) \<Longrightarrow> r"
  by (cases ns; cases "tl ns") (auto simp: sample_tree_def node_at_Cons node_at_leaf split: if_splits)

lemma sample_agrees: "agrees (\<lambda>p. True) p sample_tree"
  by (auto simp: agrees_def dest: all_readable)

lemma sample_tree_ok: "tree_ok (\<lambda>p. True) (\<lambda>p. sample_tree) sample_watch"
  by (simp add: tree_ok_def sample_agrees) (simp add: sample_tree_def)

lemma sample_looked_at: "sample_tree \<noteq> BadEntry"
  by (simp add: sample_tree_def)

lemma sample_globs:
  "matches_any_glob [''.~tmp~''] (ignore sample_watch)"
  "\<not> matches_any_glob [''os''] (ignore sample_watch)"
  "\<not> matches_any_glob [''9''] (ignore sample_watch)"
  "\<not> matches_any_glob [''9'', ''os''] (ignore sample_watch)"
  "matches_any_glob [''9'', ''.~tmp~''] (ignore sample_watch)"
  by code_simp+

lemma sample_needed: "needed_watches (\<lambda>p. sample_tree) [sample_watch] = 2"
  using sample_globs by (simp add: needed_watches_def sample_tree_def)

theorem preflight_exact_witness:
  "(\<exists>st. aenter (budget_kernel (\<lambda>p. True) 2) 0 (\<lambda>p. sample_tree) (Some 2) [sample_watch] init_watcher =
      (st, Inr ()) \<and> inotify st \<noteq> None) \<and>
   aenter (budget_kernel (\<lambda>p. True) 1) 0 (\<lambda>p. sample_tree) (Some 1) [sample_watch] init_watcher =
      (init_watcher, Inl (InotifyLimitError 2 1))"
  using preflight_exact [OF budget_documented, of 0 "[sample_watch]" "\<lambda>p. True" "\<lambda>p. sample_tree" 2]
    preflight_exact [OF budget_documented, of 0 "[sample_watch]" "\<lambda>p. True" "\<lambda>p. sample_tree" 1]
  by (simp add: sample_tree_ok sample_needed sample_looked_at)

lemma sample_start:
  "\<exists>st. aenter (budget_kernel (\<lambda>p. True) 9) 0 (\<lambda>p. sample_tree) None [sample_watch] init_watcher = (st, Inr ())"
  using add_roots_within [OF budget_documented, of "init_watcher\<lparr>inotify := Some 0\<rparr>" 0
      "\<lambda>p. sample_tree" "[sample_watch]" 9 "\<lambda>p. True"]
  by (auto simp: aenter_def open_roots_def sample_tree_ok sample_needed sample_looked_at)

theorem startup_coverage_witness:
  "\<exists>st. aenter (budget_kernel (\<lambda>p. True) 9) 0 (\<lambda>p. sample_tree) None [sample_watch] init_watcher = (st, Inr ()) \<and>
    map_of (dir_to_config st) (descendant sample_root [''os'']) = Some sample_watch \<and>
    map_of (dir_to_config st) (descendant sample_root [''.~tmp~'']) = None"
proof -
  obtain st where st: "aenter (budget_kernel (\<lambda>p. True) 9) 0 (\<lambda>p. sample_tree) None [sample_watch]
      init_watcher = (st, Inr ())"
    using sample_start by blast
  have cov: "map_of (dir_to_config st) q = Some wc \<longleftrightarrow>
      wc \<in> set [sample_watch] \<and> (\<exists>ns es. q = descendant (watch_path wc) ns \<and> visible (ignore wc) [] ns \<and>
        node_at sample_tree ns = Some (Dir True es))" for q wc
    using startup_coverage [OF budget_documented _ _ st, of q wc] by (simp add: sample_tree_ok)
  have "\<exists>es. node_at sample_tree [''os''] = Some (Dir True es)" by (simp add: sample_tree_def)
  with cov [of "descendant sample_root [''os'']" sample_watch] sample_globs
  have a: "map_of (dir_to_config st) (descendant sample_root [''os'']) = Some sample_watch"
    by (auto simp: sample_root_def)
  have "map_of (dir_to_config st) (descendant sample_root [''.~tmp~'']) \<noteq> Some wc" for wc
    using cov [of "descendant sample_root [''.~tmp~'']" wc] sample_globs by (auto simp: sample_root_def)
  then have "map_of (dir_to_config st) (descendant sample_root [''.~tmp~'']) = None"
    by (metis not_Some_eq)
  with st a show ?thesis by blast
qed

definition sample_state :: "nat watcher" where
  "sample_state = register sample_root sample_watch (init_watcher\<lparr>inotify := Some 1\<rparr>)"

lemma sample_state_sel:
  "inotify sample_state = Some 1" "map_of (dir_to_config sample_state) sample_root = Some sample_watch"
  "is_watched sample_state q \<longleftrightarrow> q = sample_root" "synthetic sample_state = []"
  by (simp_all add: sample_state_def is_watched_def init_watcher_def)

theorem new_directory_scanned_witness:
  "\<exists>st. handle_event (budget_kernel (\<lambda>p. True) 9) (\<lambda>p. sample_tree)
      (dir_created sample_root (descendant sample_root [''9''])) sample_state = (st, Inr None) \<and>
    (''IN_MOVED_TO'', descendant sample_root [''9'', ''os'', ''a.rpm''], sample_root) \<in> set (synthetic st) \<and>
    (''IN_MOVED_TO'', descendant sample_root [''9'', ''.~tmp~'', ''part''], sample_root) \<notin> set (synthetic st)"
proof -
  let ?p = "descendant sample_root [''9'']"
  have tree: "is_dir sample_tree" "wf_node sample_tree"
    by (simp_all add: sample_tree_def)
  have room: "id 1 + count_watchable_dirs (ignore sample_watch) [''9''] sample_tree \<le> 9"
    using sample_globs by (simp add: sample_tree_def)
  have fresh: "fresh sample_state ?p"
    by (simp add: fresh_def sample_state_sel sample_root_def)
  have p: "?p = descendant (watch_path sample_watch) [''9'']" by (simp add: sample_root_def)
  have leaf: "node_at sample_tree [''os'', ''a.rpm''] = Some NonDir" by (simp add: sample_tree_def)
  have glob: "\<not> matches_any_glob [''9'', ''os'', ''a.rpm''] (ignore sample_watch)" by code_simp
  from new_directory_scanned [OF budget_documented sample_state_sel(1,2) p, of "\<lambda>p. sample_tree",
      OF tree(1) sample_agrees tree(2) room fresh sample_globs(3)]
  show ?thesis
  proof (elim exE conjE)
    fix st evs
    assume st: "handle_event (budget_kernel (\<lambda>p. True) 9) (\<lambda>p. sample_tree)
        (dir_created sample_root ?p) sample_state = (st, Inr None)"
      and syn: "synthetic st = synthetic sample_state @ evs"
      and ev: "\<forall>m q r. (m, q, r) \<in> set evs \<longleftrightarrow> m = ''IN_MOVED_TO'' \<and> r = watch_path sample_watch \<and>
       (\<exists>ms y. q = descendant ?p ms \<and> node_at sample_tree ms = Some y \<and> \<not> is_dir y \<and> y \<noteq> BadEntry \<and>
          visible (ignore sample_watch) [''9''] ms)"
    have "(''IN_MOVED_TO'', descendant sample_root [''9'', ''os'', ''a.rpm''], sample_root) \<in> set evs"
      unfolding ev [rule_format] using leaf glob sample_globs(4) by (auto simp: sample_root_def)
    moreover have "(''IN_MOVED_TO'', descendant sample_root [''9'', ''.~tmp~'', ''part''], sample_root) \<notin> set evs"
      unfolding ev [rule_format] using sample_globs(5) by (auto simp: sample_root_def)
    ultimately show ?thesis using st syn by (auto simp: sample_state_sel)
  qed
qed

definition moved_state :: "nat watcher" where
  "moved_state = register (descendant sample_root [''9'', ''os'']) sample_watch
     (register (descendant sample_root [''9'']) sample_watch sample_state)"

lemma moved_tree_goes_stale_witness:
  "\<exists>st1 st2. handle_event (budget_kernel (\<lambda>p. True) 9) (\<lambda>p. NonDir)
      (dir_moved_away (descendant sample_root [''9''])) moved_state = (st1, Inr None) \<and>
    handle_event (budget_kernel (\<lambda>p. True) 9) (\<lambda>p. Dir True [(''os'', Dir True [(''a.rpm'', NonDir)])])
      (dir_created sample_root (descendant sample_root [''9''])) st1 = (st2, Inr None) \<and>
    synthetic st2 = [] \<and> \<not> is_watched st2 (descendant sample_root [''9'', ''os'', ''a.rpm''])"
proof -
  let ?d = "descendant sample_root [''9'']"
  let ?K = "budget_kernel (\<lambda>p. True) 9"
  let ?fs = "\<lambda>p. Dir True [(''os'', Dir True [(''a.rpm'', NonDir)])]"
  define st1 where "st1 = drop_watch ?d moved_state"
  have s1: "handle_event ?K (\<lambda>p. NonDir) (dir_moved_away ?d) moved_state = (st1, Inr None)"
    by (simp add: handle_event_def dir_moved_away_def st1_def)
  have k: "inotify moved_state = Some 1" "map_of (dir_to_config moved_state) sample_root = Some sample_watch"
    by (simp_all add: moved_state_def sample_state_sel)
  have w: "is_watched moved_state (child ?d ''os'')"
    by (simp add: moved_state_def is_watched_def)
  have open1: "inotify st1 = Some 1" "map_of (dir_to_config st1) sample_root = Some sample_watch"
    by (simp_all add: st1_def drop_watch_def k delete_conv')
  obtain st2 where s2: "handle_event ?K ?fs (dir_created sample_root ?d) st1 = (st2, Inr None)"
    using handle_created_open [OF open1(1)] by blast
  from moved_tree_goes_stale [OF k(1) _ k(2) w s1 _ s2, of True "[(''a.rpm'', NonDir)]"]
  have "synthetic st2 = synthetic moved_state"
    "is_watched st2 (child (child ?d ''os'') ''a.rpm'') \<longleftrightarrow> is_watched moved_state (child (child ?d ''os'') ''a.rpm'')"
    by auto
  then have "synthetic st2 = [] \<and> \<not> is_watched st2 (descendant sample_root [''9'', ''os'', ''a.rpm''])"
    by (simp add: moved_state_def sample_state_sel)
      (simp add: is_watched_def moved_state_def sample_state_def init_watcher_def sample_root_def)
  with s1 s2 show ?thesis by blast
qed

definition close_write :: "path \<Rightarrow> string \<Rightarrow> raw_event" where
  "close_write w n = \<lparr>ev_mask = {IN_CLOSE_WRITE}, ev_watch = Some w, ev_path = Some (child w n)\<rparr>"

theorem emitted_events_rooted_witness:
  "\<exists>st st' ys. aenter (budget_kernel (\<lambda>p. True) 9) 0 (\<lambda>p. sample_tree) None [sample_watch] init_watcher = (st, Inr ()) \<and>
    iter_events (budget_kernel (\<lambda>p. True) 9) [(\<lambda>p. sample_tree, close_write sample_root ''repomd.xml'')] st =
      (st', Inr ys) \<and> watcher_inv [sample_watch] st'"
proof -
  obtain st where st: "aenter (budget_kernel (\<lambda>p. True) 9) 0 (\<lambda>p. sample_tree) None [sample_watch]
      init_watcher = (st, Inr ())"
    using sample_start by blast
  have "\<forall>(fs, ev) \<in> set [(\<lambda>p. sample_tree, close_write sample_root ''repomd.xml'')]. kernel_event ev"
    unfolding kernel_event_def close_write_def watch_mask_def by auto
  from emitted_events_rooted [OF st this] st show ?thesis by blast
qed

end
