(* ===== verification/Daemon.thy ===== *)
theory Daemon
  imports Worker_Progress Batcher_Failure Watcher_Contract
begin

text \<open>
  \<open>daemon.py\<close> as a whole: \<open>_pipeline\<close> carries what the watcher yields through the filter and the
  mapper to the batcher, \<open>run\<close> starts the parts and lets the batcher and the workers share one queue.
  A step of the daemon is a step of a worker, a step of the batcher, an \<open>enqueue\<close> that raises, a stop
  (the batcher's shutdown, whatever the workers are doing) followed by the next start, or a kill
  (SIGKILL, a power failure), which runs no shutdown: only the queue survives it. An exception of
  \<open>enqueue\<close> ends a debounce task silently; in \<open>submit\<close> it leaves the pipeline and cancels the task group.
\<close>

section \<open>The pipeline\<close>

definition pipeline_event :: "watch_config list \<Rightarrow> string \<times> path \<times> path \<Rightarrow> purge_target list res" where
  \<comment> \<open>one turn of the loop: the targets that are submitted, in order\<close>
  "pipeline_event ws = (\<lambda>(m, p, r).
     case normalize (init_filter ws) m p of
       None \<Rightarrow> Inr []
     | Some ev \<Rightarrow> map_event (init_mapper ws) ev)"

definition pipeline :: "watch_config list \<Rightarrow> (string \<times> path \<times> path) list \<Rightarrow> purge_target list res" where
  "pipeline ws ys = bind_res (map_res (pipeline_event ws) ys) (\<lambda>tss. Inr (concat tss))"

lemma pipeline_event_total: "\<exists>ts. pipeline_event ws y = Inr ts"
proof -
  obtain m p r where y: "y = (m, p, r)" by (cases y)
  show ?thesis
    using filtered.map_event_total [of ws m p]
    by (cases "normalize (init_filter ws) m p") (auto simp: y pipeline_event_def)
qed

lemma pipeline_total: "\<exists>ts. pipeline ws ys = Inr ts"
proof -
  define g where "g = (\<lambda>y. projr (pipeline_event ws y))"
  have "map_res (pipeline_event ws) ys = Inr (map g ys)"
    by (rule map_res_Inr) (use pipeline_event_total [of ws] in \<open>metis g_def sum.sel(2)\<close>)
  then show ?thesis by (simp add: pipeline_def)
qed

lemma pipeline_target:
  assumes "pipeline ws ys = Inr ts" "(m, p, r) \<in> set ys"
    and "normalize (init_filter ws) m p = Some ev" "bd \<in> set (root_bindings ws (watch_root ev))"
    and "relative_to p (watch_root ev) = Some rel"
  shows "target_of rel bd \<in> set ts"
proof -
  from assms(1) obtain tss where tss: "map_res (pipeline_event ws) ys = Inr tss" "ts = concat tss"
    by (auto simp: pipeline_def bind_res_eq_Inr)
  from assms(2) obtain i where i: "i < length ys" "ys ! i = (m, p, r)" by (auto simp: in_set_conv_nth)
  with map_res_InrD [OF tss(1)] have e: "pipeline_event ws (m, p, r) = Inr (tss ! i)" "i < length tss" by auto
  from filtered.map_event_total [OF assms(3)] assms(3,5) e(1) have "tss ! i = map (target_of rel) (root_bindings ws (watch_root ev))"
    by (auto simp: pipeline_event_def)
  with assms(4) have "target_of rel bd \<in> set (tss ! i)" by simp
  with e(2) tss(2) show ?thesis by (auto intro: nth_mem)
qed

section \<open>Starting\<close>

record daemon_state =
  d_sys :: "provider system"
  d_bat :: "db batcher" \<comment> \<open>its sink is the store of \<open>d_sys\<close>\<close>

definition ready_daemon :: "(string \<Rightarrow> provider option) \<Rightarrow> db \<Rightarrow> log_line list \<Rightarrow> real \<Rightarrow> daemon_state" where
  "ready_daemon built d ls t =
     (let s = boot built d ls in \<lparr>d_sys = s, d_bat = init_batcher (store s) t\<rparr>)"

datatype queue_opening =
    Opened
  | OpenRaises exn \<comment> \<open>from \<open>mkdir\<close>, the connection, the pragmas or the schema\<close>
  | ResetRaises bool exn \<comment> \<open>whether the UPDATE took effect all the same\<close>

definition recover_queue :: "queue_opening \<Rightarrow> db option \<Rightarrow> db \<times> unit res" where
  \<comment> \<open>\<open>open\<close> and \<open>reset_in_flight\<close>, which the \<open>finally\<close> clause of \<open>run\<close> leaves as they are; a table that
    does not exist holds no job\<close>
  "recover_queue q d =
     (case q of
        OpenRaises e \<Rightarrow> (open_db d, Inl e)
      | ResetRaises landed e \<Rightarrow> (if landed then fst (reset_in_flight (open_db d)) else open_db d, Inl e)
      | Opened \<Rightarrow> (fst (reset_in_flight (open_db d)), Inr ()))"

definition daemon_start ::
  "config \<Rightarrow> bool \<Rightarrow> 'k add_watch \<Rightarrow> 'k \<Rightarrow> (path \<Rightarrow> fsnode) \<Rightarrow> int option \<Rightarrow> real \<Rightarrow> queue_opening \<Rightarrow> db option \<Rightarrow>
   db \<times> (daemon_state \<times> 'k watcher) res" where
  \<comment> \<open>\<open>run\<close> up to the task group\<close>
  "daemon_start cfg dry add_watch k0 fs read_limit t q d =
     (case recover_queue q d of
        (d', Inl e) \<Rightarrow> (d', Inl e)
      | (d', Inr _) \<Rightarrow>
          (case build_providers cfg dry of
             Inl e \<Rightarrow> (d', Inl e)
           | Inr ps \<Rightarrow>
               (case aenter add_watch k0 fs read_limit (watches cfg) init_watcher of
                  (wt, Inl e) \<Rightarrow> (d', Inl e)
                | (wt, Inr _) \<Rightarrow> (d', Inr (ready_daemon (map_of ps) (open_db d) [] t, wt)))))"

section \<open>Running\<close>

datatype daemon_label =
    Work "provider_world action"
  | EnqueueRaises real bool exn \<comment> \<open>whether the INSERT takes effect with a later commit\<close>
  | Batch label
  | Cycle bool "string \<Rightarrow> exn option" real real
    \<comment> \<open>a stop, whether an interrupted \<open>enqueue\<close> landed, the CDNs whose last \<open>enqueue\<close> raises, and the next start\<close>
  | Kill real \<comment> \<open>the time of the next start\<close>

fun of_worker :: "'w action \<Rightarrow> bool" where
  "of_worker (Put c us now) = False"
| "of_worker Restart = False"
| "of_worker (Abort e) = False"
| "of_worker a = True"

inductive daemon_step ::
  "config \<Rightarrow> (exn \<Rightarrow> string) \<Rightarrow> set_order \<Rightarrow> (string \<Rightarrow> provider option) \<Rightarrow>
   daemon_state \<Rightarrow> daemon_label \<Rightarrow> daemon_state \<Rightarrow> bool" for cfg str ord built where
  work_step: "of_worker a \<Longrightarrow>
     y = sys_step provider_purge str (retry (daemon cfg)) built a (d_sys s) \<Longrightarrow>
     daemon_step cfg str ord built s (Work a) \<lparr>d_sys = y, d_bat = (d_bat s)\<lparr>sink := store y\<rparr>\<rparr>"
| batch_step: "crashed (d_sys s) = None \<Longrightarrow> step (daemon cfg) ord enqueue_sink_op (d_bat s) l b \<Longrightarrow>
     daemon_step cfg str ord built s (Batch l) \<lparr>d_sys = (d_sys s)\<lparr>store := sink b\<rparr>, d_bat = b\<rparr>"
| enqueue_step: "crashed (d_sys s) = None \<Longrightarrow> step (daemon cfg) ord (failing (\<lambda>c. Some e)) (d_bat s) (Finish w) b \<Longrightarrow>
     q = (if landed then sink (finish_flush enqueue_sink_op w (d_bat s)) else sink (d_bat s)) \<Longrightarrow>
     daemon_step cfg str ord built s (EnqueueRaises w landed e)
       \<lparr>d_sys = (d_sys s)\<lparr>store := q, crashed := raised b\<rparr>, d_bat = b\<lparr>sink := q\<rparr>\<rparr>"
| cycle_step: "b = shutdown ord (failing f) landed now (d_bat s) \<Longrightarrow>
     daemon_step cfg str ord built s (Cycle landed f now t) (ready_daemon built (sink b) (lines (d_sys s)) t)"
| kill_step: "daemon_step cfg str ord built s (Kill t) (ready_daemon built (store (d_sys s)) (lines (d_sys s)) t)"

inductive daemon_run ::
  "config \<Rightarrow> (exn \<Rightarrow> string) \<Rightarrow> set_order \<Rightarrow> (string \<Rightarrow> provider option) \<Rightarrow>
   daemon_state \<Rightarrow> daemon_label list \<Rightarrow> daemon_state \<Rightarrow> bool" for cfg str ord built s0 where
  daemon_nil: "daemon_run cfg str ord built s0 [] s0"
| daemon_snoc: "daemon_run cfg str ord built s0 ls s \<Longrightarrow> daemon_step cfg str ord built s l s' \<Longrightarrow>
     daemon_run cfg str ord built s0 (ls @ [l]) s'"

section \<open>The shared queue\<close>

lemma finish_flush_sink:
  "sink (finish_flush enqueue_sink_op w b) = sink b \<or>
   (\<exists>c us. sink (finish_flush enqueue_sink_op w b) = fst (enqueue w c us (sink b)))"
  by (auto simp: finish_flush_def enqueue_sink_op_def batch_simps split: option.splits)

lemma begin_flush_sink: "sink (begin_flush ord h c b) = sink b"
  by (simp add: begin_flush_def)

lemma step_sink:
  assumes "step cfg ord enqueue_sink_op b l b'"
  shows "sink b' = sink b \<or> (\<exists>w c us. sink b' = fst (enqueue w c us (sink b)))"
  using assms
proof cases
  case (step_finish w)
  then show ?thesis using finish_flush_sink [of w b] by blast
qed (auto simp: submit_def loop_flush_def assess_def wake_up_def Let_def batch_simps begin_flush_sink
      split: option.splits)

definition puts :: "real \<Rightarrow> (string \<times> string list) list \<Rightarrow> 'w action list" where
  "puts w ps = map (\<lambda>(c, us). Put c us w) ps"

definition put_all :: "real \<Rightarrow> (string \<times> string list) list \<Rightarrow> db \<Rightarrow> db" where
  "put_all w ps = fold (\<lambda>(c, us) d. fst (enqueue w c us d)) ps"

lemma put_all_simps [simp]:
  "put_all w [] d = d" "put_all w ((c, us) # ps) d = put_all w ps (fst (enqueue w c us d))"
  "put_all w (ps @ qs) d = put_all w qs (put_all w ps d)"
  by (simp_all add: put_all_def)

lemma run_puts:
  "sys_run purge str cfg built (puts w ps) s =
     s\<lparr>store := put_all w ps (store s)\<rparr>"
  by (induction ps arbitrary: s) (auto simp: puts_def)

lemma failing_puts: "failing f w q c us = Inr q' \<Longrightarrow> q' = put_all w [(c, us)] q"
  by (simp add: failing_def enqueue_sink_op_def split: option.splits)

lemma flush_each_puts: "\<exists>ps. sink (fst (flush_each ord (failing f) w cs b)) = put_all w ps (sink b)"
proof (induction cs arbitrary: b)
  case Nil
  show ?case by (intro exI [of _ "[]"]) simp
next
  case (Cons c cs)
  show ?case
  proof (cases "buf b c = {}")
    case True
    with Cons show ?thesis by simp
  next
    case False
    show ?thesis
    proof (cases "failing f w (sink b) c (ord (buf b c))")
      case (Inl e)
      with False show ?thesis by (intro exI [of _ "[]"]) (simp add: Let_def begin_flush_sink)
    next
      case (Inr q)
      let ?b = "(begin_flush ord BySubmit c b)\<lparr>sink := q, lock := None\<rparr>"
      from Cons [of ?b] obtain ps where "sink (fst (flush_each ord (failing f) w cs ?b)) = put_all w ps q"
        by auto
      then have "sink (fst (flush_each ord (failing f) w (c # cs) b)) = put_all w ((c, ord (buf b c)) # ps) (sink b)"
        using False Inr failing_puts [OF Inr] by (simp add: Let_def)
      then show ?thesis by blast
    qed
  qed
qed

lemma shutdown_puts: "\<exists>ps. sink (shutdown ord (failing f) landed w b) = put_all w ps (sink b)"
proof -
  define b1 where "b1 = cancel_tasks (failing f) landed w b"
  have "\<exists>qs. sink b1 = put_all w qs (sink b)"
  proof (cases "lock b")
    case None
    then show ?thesis by (intro exI [of _ "[]"]) (simp add: b1_def cancel_tasks_def)
  next
    case (Some hcu)
    obtain h c us where l: "lock b = Some (h, c, us)" using Some by (cases hcu) auto
    show ?thesis
    proof (cases "failing f w (sink b) c us")
      case (Inr q)
      with l failing_puts [OF Inr] show ?thesis
        by (intro exI [of _ "if landed then [(c, us)] else []"]) (simp add: b1_def cancel_tasks_def Let_def)
    qed (use l in \<open>intro exI [of _ "[]"], simp add: b1_def cancel_tasks_def Let_def\<close>)
  qed
  then obtain qs where qs: "sink b1 = put_all w qs (sink b)" by blast
  from flush_each_puts [of ord f w "dict_keys (buffers b1)" b1] obtain ps where
    "sink (fst (flush_all ord (failing f) w b1)) = put_all w ps (sink b1)"
    unfolding flush_all_def by blast
  then show ?thesis
    unfolding shutdown_def b1_def [symmetric] by (intro exI [of _ "qs @ ps"]) (simp add: qs)
qed

fun accepted_in :: "daemon_label \<Rightarrow> daemon_state \<Rightarrow> (string \<times> string) set" where
  \<comment> \<open>what the CDN of a worker accepts in this step\<close>
  "accepted_in (Work a) s = taken provider_accepted a (d_sys s)"
| "accepted_in l s = {}"

lemma taken_append:
  "taken_run purge str cfg built acc (as @ bs) s =
     taken_run purge str cfg built acc as s \<union> taken_run purge str cfg built acc bs (sys_run purge str cfg built as s)"
  by (induction as arbitrary: s) auto

lemma taken_puts [simp]: "taken_run purge str cfg built acc (puts w ps) s = {}"
  by (induction ps arbitrary: s) (auto simp: puts_def)

lemma failed_enqueue_refines:
  assumes "crashed y = None" "sink b = store y"
    and "q = (if landed then sink (finish_flush enqueue_sink_op w b) else sink b)"
  shows "\<exists>as. y\<lparr>store := q, crashed := x\<rparr> = sys_run purge str cfg built as y \<and> taken_run purge str cfg built acc as y = {}"
proof -
  obtain ps where ps: "q = put_all w ps (store y)"
  proof (cases "q = sink b")
    case True
    then show ?thesis using assms(2) by (intro that [of "[]"]) simp
  next
    case False
    then obtain c us where "q = fst (enqueue w c us (sink b))"
      using finish_flush_sink [of w b] assms(3) by (auto split: if_splits)
    then show ?thesis using assms(2) by (intro that [of "[(c, us)]"]) simp
  qed
  have "y\<lparr>store := q, crashed := x\<rparr> =
      sys_run purge str cfg built (puts w ps @ (case x of None \<Rightarrow> [] | Some e \<Rightarrow> [Abort e])) y"
    using assms(1) by (simp add: sys_run_append run_puts ps split: option.split)
  moreover have "taken_run purge str cfg built acc (puts w ps @ (case x of None \<Rightarrow> [] | Some e \<Rightarrow> [Abort e])) y = {}"
    by (simp add: taken_append split: option.split)
  ultimately show ?thesis by blast
qed

text \<open>The daemon refines the system of workers: what its batcher writes are \<open>Put\<close> actions.\<close>

lemma daemon_step_refines:
  assumes "daemon_step cfg str ord built s l s'" "sink (d_bat s) = store (d_sys s)"
  shows "sink (d_bat s') = store (d_sys s') \<and>
    (\<exists>as. d_sys s' = sys_run provider_purge str (retry (daemon cfg)) built as (d_sys s) \<and>
       taken_run provider_purge str (retry (daemon cfg)) built provider_accepted as (d_sys s) = accepted_in l s)"
  using assms
proof induction
  case (work_step a y s)
  then show ?case by (auto intro!: exI [of _ "[a]"])
next
  case (batch_step s l b)
  from step_sink [OF batch_step(2)] batch_step(3) consider "sink b = store (d_sys s)"
    | w c us where "sink b = fst (enqueue w c us (store (d_sys s)))" by auto
  then show ?case
  proof cases
    case 1
    then show ?thesis by (auto intro!: exI [of _ "[]"])
  next
    case (2 w c us)
    then show ?thesis by (auto intro!: exI [of _ "[Put c us w]"])
  qed
next
  case (enqueue_step s e w b q landed)
  have "sink (b\<lparr>sink := q\<rparr>) = store ((d_sys s)\<lparr>store := q, crashed := raised b\<rparr>)" by simp
  with failed_enqueue_refines [OF enqueue_step(1,4,3)] show ?case
    by (simp only: daemon_state.select_convs simp_thms accepted_in.simps)
next
  case (cycle_step b f landed now s t)
  from shutdown_puts [of ord f landed now "d_bat s"] obtain ps where
    "sink b = put_all now ps (store (d_sys s))"
    unfolding cycle_step by auto
  then have "boot built (sink b) (lines (d_sys s)) =
      sys_run provider_purge str (retry (daemon cfg)) built (puts now ps @ [Restart]) (d_sys s)"
    by (simp add: sys_run_append run_puts)
  moreover have "taken_run provider_purge str (retry (daemon cfg)) built provider_accepted (puts now ps @ [Restart]) (d_sys s) = {}"
    by (simp add: taken_append)
  ultimately show ?case unfolding ready_daemon_def Let_def init_batcher_def accepted_in.simps
    by (intro conjI) (simp, simp only: daemon_state.select_convs, blast)
next
  case (kill_step s t)
  have "boot built (store (d_sys s)) (lines (d_sys s)) =
      sys_run provider_purge str (retry (daemon cfg)) built [Restart] (d_sys s)"
    by simp
  then show ?case by (auto simp: ready_daemon_def Let_def init_batcher_def intro!: exI [of _ "[Restart]"])
qed

lemma daemon_run_refines:
  assumes "daemon_run cfg str ord built s0 ls s" "sink (d_bat s0) = store (d_sys s0)"
  shows "sink (d_bat s) = store (d_sys s) \<and>
    (\<exists>as. d_sys s = sys_run provider_purge str (retry (daemon cfg)) built as (d_sys s0))"
  using assms
proof induction
  case daemon_nil
  then show ?case by (auto intro!: exI [of _ "[]"])
next
  case (daemon_snoc ls s l s')
  from daemon_snoc.IH [OF daemon_snoc.prems] obtain as where
    s: "sink (d_bat s) = store (d_sys s)" "d_sys s = sys_run provider_purge str (retry (daemon cfg)) built as (d_sys s0)"
    by blast
  from daemon_step_refines [OF daemon_snoc.hyps(2) s(1)] obtain bs where
    "sink (d_bat s') = store (d_sys s')" "d_sys s' = sys_run provider_purge str (retry (daemon cfg)) built (as @ bs) (d_sys s0)"
    by (auto simp: s(2) sys_run_append)
  then show ?case by blast
qed

end
