(* ===== verification/Cli_Args.thy ===== *)
theory Cli_Args
  imports Url_Parse
begin

text \<open>
  \<open>_parse_args\<close> of \<open>__main__.py\<close>: the options it declares and how \<open>argparse\<close> of Python 3.12 reads an
  argument list for them: which arguments are options, with prefixes of long options and clustered
  short ones, which value an option takes, and when the list is refused.
\<close>

section \<open>The options\<close>

datatype cli_option = OptHelp | OptConfig | OptSecrets | OptCheck | OptDryRun | OptVerbose

definition option_strings :: "(string \<times> cli_option) list" where
  "option_strings =
     [(''-h'', OptHelp), (''--help'', OptHelp), (''--config'', OptConfig), (''--secrets'', OptSecrets),
      (''--check'', OptCheck), (''--dry-run'', OptDryRun), (''-v'', OptVerbose), (''--verbose'', OptVerbose)]"

definition takes_value :: "cli_option \<Rightarrow> bool" where
  "takes_value opt \<longleftrightarrow> opt = OptConfig \<or> opt = OptSecrets"

record cli_args =
  arg_config :: string
  arg_secrets :: "string option"
  arg_check :: bool
  arg_dry_run :: bool
  arg_verbose :: bool

datatype cli_parse = Parsed cli_args | HelpShown | UsageError

section \<open>Reading one argument\<close>

datatype arg_kind =
    Plain
  | Separator \<comment> \<open>the argument \<open>--\<close>\<close>
  | Unknown
  | Ambiguous
  | Known cli_option bool "(bool \<times> string) option"
      \<comment> \<open>single dash?, and what follows the option in the same argument: after an equals sign?, the text\<close>

definition single_dash :: "string \<Rightarrow> bool" where
  "single_dash s \<longleftrightarrow> take 2 s \<noteq> ''--''"

definition negative_number :: "string \<Rightarrow> bool" where
  \<comment> \<open>\<open>^-\d+$|^-\d*\.\d+$\<close>; the dollar also matches before a final newline\<close>
  "negative_number s =
     (let t = (if s \<noteq> [] \<and> last s = CHR 0x0A then butlast s else s); d = dropWhile is_digit (tl t) in
        take 1 t = ''-'' \<and> (d = [] \<and> tl t \<noteq> [] \<or> take 1 d = ''.'' \<and> tl d \<noteq> [] \<and> list_all is_digit (tl d)))"

definition upto_equals :: "string \<Rightarrow> string \<times> (bool \<times> string) option" where
  "upto_equals s =
     (if CHR ''='' \<in> set s
      then (takeWhile (\<lambda>c. c \<noteq> CHR ''='') s, Some (True, tl (dropWhile (\<lambda>c. c \<noteq> CHR ''='') s))) else (s, None))"

definition option_tuples :: "string \<Rightarrow> arg_kind list" where
  "option_tuples s =
     (if single_dash s
      then concat (map (\<lambda>(n, opt).
             if n = take 2 s then [Known opt (single_dash n) (Some (False, drop 2 s))]
             else if prefix s n then [Known opt (single_dash n) None] else []) option_strings)
      else (case upto_equals s of (name, explicit) \<Rightarrow>
             concat (map (\<lambda>(n, opt). if prefix name n then [Known opt (single_dash n) explicit] else []) option_strings)))"

definition parse_optional :: "string \<Rightarrow> arg_kind" where
  "parse_optional s =
     (if take 1 s \<noteq> ''-'' then Plain
      else case map_of option_strings s of
        Some opt \<Rightarrow> Known opt (single_dash s) None
      | None \<Rightarrow>
          if length s = 1 then Plain
          else (case upto_equals s of (name, explicit) \<Rightarrow>
            (case (if explicit = None then None else map_of option_strings name) of
               Some opt \<Rightarrow> Known opt (single_dash name) explicit
             | None \<Rightarrow>
                 (case option_tuples s of
                    [] \<Rightarrow> if negative_number s \<or> CHR '' '' \<in> set s then Plain else Unknown
                  | [k] \<Rightarrow> k
                  | _ \<Rightarrow> Ambiguous))))"

fun classify_args :: "string list \<Rightarrow> (string \<times> arg_kind) list" where
  "classify_args [] = []"
| "classify_args (s # ss) =
     (if s = ''--'' then (s, Separator) # map (\<lambda>t. (t, Plain)) ss else (s, parse_optional s) # classify_args ss)"

section \<open>Taking the options\<close>

record cli_state =
  st_config :: "string option"
  st_secrets :: "string option"
  st_check :: bool
  st_dry_run :: bool
  st_verbose :: bool
  st_extras :: "string list"

definition put_value :: "cli_option \<Rightarrow> string \<Rightarrow> cli_state \<Rightarrow> cli_state" where
  "put_value opt v st = (if opt = OptConfig then st\<lparr>st_config := Some v\<rparr> else st\<lparr>st_secrets := Some v\<rparr>)"

fun set_flags :: "cli_option list \<Rightarrow> cli_state \<Rightarrow> cli_state option" where
  \<comment> \<open>None: the help has been printed and the process exits\<close>
  "set_flags [] st = Some st"
| "set_flags (opt # opts) st =
     (case opt of
        OptHelp \<Rightarrow> None
      | OptCheck \<Rightarrow> set_flags opts (st\<lparr>st_check := True\<rparr>)
      | OptDryRun \<Rightarrow> set_flags opts (st\<lparr>st_dry_run := True\<rparr>)
      | OptVerbose \<Rightarrow> set_flags opts (st\<lparr>st_verbose := True\<rparr>)
      | _ \<Rightarrow> set_flags opts st)"

fun cluster :: "cli_option \<Rightarrow> string \<Rightarrow> (cli_option list \<times> string list) option" where
  \<comment> \<open>short flags in one argument: the flags, and what is left as an unrecognized argument\<close>
  "cluster opt [] = None"
| "cluster opt (c # cs) =
     (if c = CHR ''-'' then None
      else case map_of option_strings [CHR ''-'', c] of
        None \<Rightarrow> Some ([opt], [CHR ''-'' # c # cs])
      | Some opt2 \<Rightarrow>
          if cs = [] then Some ([opt, opt2], [])
          else if hd cs = CHR ''='' then None
          else map_option (\<lambda>(opts, extra). (opt # opts, extra)) (cluster opt2 cs))"

definition end_of_args :: "cli_state \<Rightarrow> cli_parse" where
  "end_of_args st =
     (case st_config st of
        None \<Rightarrow> UsageError
      | Some c \<Rightarrow>
          if st_extras st \<noteq> [] then UsageError
          else Parsed \<lparr>arg_config = c, arg_secrets = st_secrets st, arg_check = st_check st,
            arg_dry_run = st_dry_run st, arg_verbose = st_verbose st\<rparr>)"

fun consume :: "(string \<times> arg_kind) list \<Rightarrow> cli_state \<Rightarrow> cli_parse" where
  "consume [] st = end_of_args st"
| "consume ((s, Known opt short explicit) # xs) st =
     (if takes_value opt then
        (case (explicit, xs) of
           (Some (sep, v), _) \<Rightarrow> consume xs (put_value opt v st)
         | (None, (v, Plain) # ys) \<Rightarrow> consume ys (put_value opt v st)
         | _ \<Rightarrow> UsageError)
      else
        (case (case explicit of
                 None \<Rightarrow> Some ([opt], [])
               | Some (sep, e) \<Rightarrow> if short \<and> e \<noteq> [] \<and> \<not> sep then cluster opt e else None) of
           None \<Rightarrow> UsageError
         | Some (opts, extra) \<Rightarrow>
             (case set_flags opts (st\<lparr>st_extras := st_extras st @ extra\<rparr>) of
                None \<Rightarrow> HelpShown
              | Some st2 \<Rightarrow> consume xs st2)))"
| "consume ((s, k) # xs) st = consume xs (st\<lparr>st_extras := st_extras st @ [s]\<rparr>)"

definition no_args :: cli_state where
  "no_args = \<lparr>st_config = None, st_secrets = None, st_check = False, st_dry_run = False, st_verbose = False, st_extras = []\<rparr>"

definition parse_args :: "string list \<Rightarrow> cli_parse" where
  "parse_args argv =
     (let xs = classify_args argv in if Ambiguous \<in> snd ` set xs then UsageError else consume xs no_args)"

section \<open>Round trip\<close>

definition flag_args :: "cli_args \<Rightarrow> string list" where
  "flag_args a =
     (if arg_check a then [''--check''] else []) @ (if arg_dry_run a then [''--dry-run''] else []) @
     (if arg_verbose a then [''--verbose''] else [])"

definition command_line :: "cli_args \<Rightarrow> string list" where
  "command_line a =
     (''--config='' @ arg_config a) #
     (case arg_secrets a of None \<Rightarrow> [] | Some s \<Rightarrow> [''--secrets='' @ s]) @ flag_args a"

lemma read_options:
  "parse_optional (''--config='' @ v) = Known OptConfig False (Some (True, v))"
  "parse_optional (''--secrets='' @ v) = Known OptSecrets False (Some (True, v))"
  "parse_optional ''--check'' = Known OptCheck False None"
  "parse_optional ''--dry-run'' = Known OptDryRun False None"
  "parse_optional ''--verbose'' = Known OptVerbose False None"
  by (simp_all add: parse_optional_def option_strings_def upto_equals_def single_dash_def numeral_2_eq_2)

lemma classify_flags:
  "classify_args (flag_args a) = map (\<lambda>s. (s, parse_optional s)) (flag_args a)"
  "Ambiguous \<notin> snd ` set (classify_args (flag_args a))"
  by (simp_all add: flag_args_def read_options)

text \<open>
  C38. Every setting of the options can be written on a command line that \<open>_parse_args\<close> reads back as
  that setting, whatever characters the two paths have.
\<close>

theorem cli_roundtrip: "parse_args (command_line a) = Parsed a"
proof -
  have c: "classify_args (command_line a) =
      (''--config='' @ arg_config a, Known OptConfig False (Some (True, arg_config a))) #
      (case arg_secrets a of None \<Rightarrow> [] | Some s \<Rightarrow> [(''--secrets='' @ s, Known OptSecrets False (Some (True, s)))]) @
      map (\<lambda>s. (s, parse_optional s)) (flag_args a)"
    using read_options(1,2) by (cases "arg_secrets a") (simp_all add: command_line_def classify_flags)
  then have n: "Ambiguous \<notin> snd ` set (classify_args (command_line a))"
    using classify_flags by (auto split: option.splits)
  have "consume (classify_args (command_line a)) no_args = Parsed a"
    unfolding c
    by (cases a; cases "arg_secrets a")
       (simp_all add: flag_args_def read_options takes_value_def put_value_def no_args_def end_of_args_def)
  with n show ?thesis by (simp add: parse_args_def)
qed

end
