(* ===== verification/Cli.thy ===== *)
theory Cli
  imports Config_Load Daemon Cli_Args
begin

text \<open>
  \<open>__main__.main\<close>, \<open>logging.configure\<close> and the kernel limit the watcher reads: what the process
  prints and how it ends. \<open>start\<close> is what the start of the daemon gives when no signal comes, \<open>run_end\<close>
  is when the first signal comes and how the task of the daemon ends; \<open>Cli_Args\<close> reads the command
  line. Signals before \<open>asyncio.run\<close> and after the task of the daemon are left out.
\<close>

section \<open>Logging\<close>

record log_state =
  log_level :: int
  log_handlers :: "string list"
  log_propagate :: bool
  log_configured :: bool

definition log_format :: string where
  "log_format = ''%(asctime)s %(levelname)s %(name)s %(message)s''"

definition configure :: "int \<Rightarrow> log_state \<Rightarrow> log_state" where
  "configure level st =
     (let st' = st\<lparr>log_level := level\<rparr> in
        if log_configured st then st'
        else st'\<lparr>log_handlers := log_handlers st @ [log_format], log_propagate := False, log_configured := True\<rparr>)"

definition get_logger :: "string \<Rightarrow> string" where
  \<comment> \<open>the name of the logger, a child of the one that \<open>configure\<close> sets up\<close>
  "get_logger name = ''mirror_mirage.'' @ name"

section \<open>The watch limit\<close>

definition is_space :: "char \<Rightarrow> bool" where
  "is_space c \<longleftrightarrow> code_in 9 13 c \<or> code_in 28 32 c \<or> of_char c = (133 :: nat) \<or> of_char c = (160 :: nat)"

definition strip :: "string \<Rightarrow> string" where
  "strip s = rev (dropWhile is_space (rev (dropWhile is_space s)))"

definition unsigned_int :: "string \<Rightarrow> nat option" where
  \<comment> \<open>digits, with single underscores between them\<close>
  "unsigned_int s =
     (let ds = split_on CHR ''_'' s in
        if list_all (\<lambda>d. d \<noteq> [] \<and> list_all is_digit d) ds
        then Some (foldl (\<lambda>n c. n * 10 + (of_char c - 48)) 0 (concat ds)) else None)"

definition int_of_str :: "string \<Rightarrow> int option" where
  \<comment> \<open>\<open>int(s)\<close>\<close>
  "int_of_str s =
     (let t = strip s in
        if take 1 t = ''-'' then map_option (\<lambda>n. - int n) (unsigned_int (tl t))
        else if take 1 t = ''+'' then map_option int (unsigned_int (tl t))
        else map_option int (unsigned_int t))"

definition read_max_user_watches :: "read_result \<Rightarrow> int option res" where
  "read_max_user_watches r = (case r of
     FileText s \<Rightarrow> Inr (int_of_str (strip s))
   | ReadFails e \<Rightarrow> Inr None
   | ReadRaises (ValueError m) \<Rightarrow> Inr None
   | ReadRaises e \<Rightarrow> Inl e)"

definition limit_error_text :: "int \<Rightarrow> int \<Rightarrow> string" where
  "limit_error_text needed available =
     ''inotify watch budget too small: need at least '' @ show_int needed @
     '' watches but fs.inotify.max_user_watches is '' @ show_int available @
     ''. Raise it (root) with: sysctl -w fs.inotify.max_user_watches='' @ show_int (suggested_watches needed) @
     ''  and persist it in /etc/sysctl.d/99-mirror-mirage.conf''"

section \<open>The entry point\<close>

definition handled_signals :: "int list" where
  \<comment> \<open>SIGTERM and SIGINT, whose handler cancels the task of the daemon\<close>
  "handled_signals = [15, 2]"

datatype task_outcome =
    TReturned
  | TCancelled
  | TRaised exn \<comment> \<open>the exception group of the task group, with this exception\<close>

definition await_daemon :: "task_outcome \<Rightarrow> unit res" where
  \<comment> \<open>\<open>_run\<close> after the handlers are installed: a cancellation is suppressed\<close>
  "await_daemon x = (case x of TRaised e \<Rightarrow> Inl e | _ \<Rightarrow> Inr ())"

datatype run_end =
    KeyboardInterrupt \<comment> \<open>before the handlers are installed: the task of the daemon has not begun\<close>
  | SignalledEarly int "exn option"
    \<comment> \<open>a signal while \<open>daemon.run\<close> starts up, or closes the queue after a start that failed: the task is
      cancelled where it awaits the queue, whatever the rest of the start would give; closing the queue
      may raise\<close>
  | Signalled int \<comment> \<open>a signal to the running daemon, after which the task ended as cancelled\<close>
  | Ended task_outcome

datatype exit_status =
    Exit int
  | Uncaught exn
  | UncaughtGroup exn
  | KilledBy int

definition exit_code :: "exit_status \<Rightarrow> int option" where
  \<comment> \<open>what the parent sees: an exception that nothing catches is printed and makes the interpreter end with 1\<close>
  "exit_code x = (case x of Exit n \<Rightarrow> Some n | Uncaught e \<Rightarrow> Some 1 | UncaughtGroup e \<Rightarrow> Some 1 | KilledBy n \<Rightarrow> None)"

definition exit_of :: "unit res \<Rightarrow> exit_status" where
  "exit_of r = (case r of Inl e \<Rightarrow> UncaughtGroup e | Inr _ \<Rightarrow> Exit 0)"

record cli_result =
  stdout :: "string list"
  stderr :: "string list"
  exit_with :: exit_status

definition secrets_path :: "cli_args \<Rightarrow> path" where
  "secrets_path a =
     (case arg_secrets a of
        Some (c # cs) \<Rightarrow> parse_path (c # cs)
      | _ \<Rightarrow> child (parent (parse_path (arg_config a))) ''secrets.yaml'')"

definition default_action :: "int \<Rightarrow> exit_status" where
  \<comment> \<open>a signal without a handler whose default action is to end the process\<close>
  "default_action n = KilledBy n"

definition raised_in_run :: "exn \<Rightarrow> exit_status \<times> string list" where
  \<comment> \<open>the \<open>except\<close> clause for an exception of \<open>asyncio.run\<close>\<close>
  "raised_in_run x = (case x of
     InotifyLimitError n a \<Rightarrow> (Exit 1, [''mirror-mirage: '' @ limit_error_text n a])
   | e \<Rightarrow> (Uncaught e, []))"

definition on_signal :: "int \<Rightarrow> exit_status \<times> string list \<Rightarrow> exit_status \<times> string list" where
  \<comment> \<open>the handler cancels the task, which then ends as given\<close>
  "on_signal n x = (if List.member handled_signals n then x else (default_action n, []))"

definition run_daemon :: "(config \<Rightarrow> bool \<Rightarrow> 'd res) \<Rightarrow> run_end \<Rightarrow> config \<Rightarrow> bool \<Rightarrow> exit_status \<times> string list" where
  "run_daemon start fin cfg dry =
     (case fin of
        KeyboardInterrupt \<Rightarrow> (Exit 0, [])
      | SignalledEarly n closing \<Rightarrow>
          on_signal n (case closing of
            None \<Rightarrow> (exit_of (await_daemon TCancelled), [])
          | Some e \<Rightarrow> raised_in_run e)
      | Signalled n \<Rightarrow>
          (case start cfg dry of
             Inl e \<Rightarrow> raised_in_run e
           | Inr _ \<Rightarrow> on_signal n (exit_of (await_daemon TCancelled), []))
      | Ended x \<Rightarrow>
          (case start cfg dry of
             Inl e \<Rightarrow> raised_in_run e
           | Inr _ \<Rightarrow> (exit_of (await_daemon x), [])))"

definition main ::
  "load_env \<Rightarrow> (config \<Rightarrow> bool \<Rightarrow> 'd res) \<Rightarrow> run_end \<Rightarrow> cli_args \<Rightarrow> log_state \<Rightarrow> log_state \<times> cli_result" where
  "main w start fin a st =
     (configure (if arg_verbose a then 10 else 20) st,
      case load w (parse_path (arg_config a)) (secrets_path a) of
        Inl (ConfigError m) \<Rightarrow> \<lparr>stdout = [], stderr = [''mirror-mirage: config error: '' @ m], exit_with = Exit 1\<rparr>
      | Inl e \<Rightarrow> \<lparr>stdout = [], stderr = [], exit_with = Uncaught e\<rparr>
      | Inr cfg \<Rightarrow>
          if arg_check a then \<lparr>stdout = [''mirror-mirage: config OK''], stderr = [], exit_with = Exit 0\<rparr>
          else (case run_daemon start fin cfg (arg_dry_run a) of
                  (x, err) \<Rightarrow> \<lparr>stdout = [], stderr = err, exit_with = x\<rparr>))"

definition process :: "load_env \<Rightarrow> (config \<Rightarrow> bool \<Rightarrow> 'd res) \<Rightarrow> run_end \<Rightarrow> string list \<Rightarrow> log_state \<Rightarrow> log_state \<times> exit_status" where
  \<comment> \<open>\<open>main\<close> from the arguments on; what argparse prints is left out\<close>
  "process w start fin argv st =
     (case parse_args argv of
        UsageError \<Rightarrow> (st, Exit 2)
      | HelpShown \<Rightarrow> (st, Exit 0)
      | Parsed a \<Rightarrow> map_prod id exit_with (main w start fin a st))"

lemma configure_once:
  "log_handlers (configure n (fst (main w start fin a st))) = log_handlers (fst (main w start fin a st))"
  by (simp add: main_def configure_def Let_def)

lemma exit_code_simps [simp]:
  "exit_code (Exit n) = Some n" "exit_code (Uncaught e) = Some 1" "exit_code (UncaughtGroup e) = Some 1"
  "exit_code (KilledBy k) = None"
  by (simp_all add: exit_code_def)

lemma raised_in_run_code [simp]: "exit_code (fst (raised_in_run e)) = Some 1"
  by (simp add: raised_in_run_def split: exn.split)

lemma await_code [simp]: "exit_code (exit_of (await_daemon x)) = (if x = TReturned \<or> x = TCancelled then Some 0 else Some 1)"
  by (cases x) (simp_all add: exit_of_def await_daemon_def)

lemma on_signal_code [simp]:
  "exit_code (fst (on_signal n x)) = (if n = 15 \<or> n = 2 then exit_code (fst x) else None)"
  by (simp add: on_signal_def handled_signals_def default_action_def)

lemma run_daemon_code:
  "exit_code (fst (run_daemon start fin cfg dry)) =
     (case fin of
        KeyboardInterrupt \<Rightarrow> Some 0
      | SignalledEarly n closing \<Rightarrow> if n = 15 \<or> n = 2 then Some (if closing = None then 0 else 1) else None
      | Signalled n \<Rightarrow>
          if \<exists>e. start cfg dry = Inl e then Some 1 else if n = 15 \<or> n = 2 then Some 0 else None
      | Ended x \<Rightarrow>
          if \<exists>e. start cfg dry = Inl e then Some 1 else if x = TReturned \<or> x = TCancelled then Some 0 else Some 1)"
  by (simp add: run_daemon_def split: run_end.split sum.split option.split)

lemma main_exit:
  "exit_with (snd (main w start fin a st)) =
     (case load w (parse_path (arg_config a)) (secrets_path a) of
        Inl (ConfigError m) \<Rightarrow> Exit 1
      | Inl e \<Rightarrow> Uncaught e
      | Inr cfg \<Rightarrow> if arg_check a then Exit 0 else fst (run_daemon start fin cfg (arg_dry_run a)))"
  by (auto simp: main_def split: sum.splits exn.splits prod.splits)

lemma run_daemon_message:
  "fst (run_daemon start fin cfg dry) = Exit 1 \<longleftrightarrow> (\<exists>n k.
     start cfg dry = Inl (InotifyLimitError n k) \<and> (\<exists>y. fin = Ended y \<or> (\<exists>i. fin = Signalled i)) \<or>
     fin = SignalledEarly 15 (Some (InotifyLimitError n k)) \<or> fin = SignalledEarly 2 (Some (InotifyLimitError n k)))"
proof -
  have r: "fst (raised_in_run e) = Exit 1 \<longleftrightarrow> (\<exists>n k. e = InotifyLimitError n k)" for e
    by (simp add: raised_in_run_def split: exn.split)
  have a: "exit_of (await_daemon x) \<noteq> Exit 1" for x by (cases x) (simp_all add: exit_of_def await_daemon_def)
  have s: "fst (on_signal n x) = Exit 1 \<longleftrightarrow> (n = 15 \<or> n = 2) \<and> fst x = Exit 1" for n x
    by (simp add: on_signal_def handled_signals_def default_action_def)
  show ?thesis
    by (cases fin; cases "start cfg dry") (auto simp: run_daemon_def r a s split: option.splits)
qed

lemma main_code:
  "exit_code (exit_with (snd (main w start fin a st))) =
     (case load w (parse_path (arg_config a)) (secrets_path a) of
        Inl e \<Rightarrow> Some 1
      | Inr cfg \<Rightarrow> if arg_check a then Some 0 else exit_code (fst (run_daemon start fin cfg (arg_dry_run a))))"
  by (simp add: main_exit split: sum.split exn.split)

text \<open>How a run of the daemon goes wrong, and how it is stopped in good order.\<close>

definition goes_wrong :: "'d res \<Rightarrow> run_end \<Rightarrow> bool" where
  "goes_wrong started fin \<longleftrightarrow>
     (\<exists>e. started = Inl e) \<and> (\<exists>x. fin = Ended x \<or> (\<exists>n. fin = Signalled n)) \<or>
     (\<exists>e. fin = Ended (TRaised e)) \<or> (\<exists>e. fin = SignalledEarly 15 (Some e) \<or> fin = SignalledEarly 2 (Some e))"

definition stops_well :: "'d res \<Rightarrow> run_end \<Rightarrow> bool" where
  "stops_well started fin \<longleftrightarrow>
     fin = KeyboardInterrupt \<or> fin = SignalledEarly 15 None \<or> fin = SignalledEarly 2 None \<or>
     (\<exists>d. started = Inr d) \<and> fin \<in> {Signalled 15, Signalled 2, Ended TReturned, Ended TCancelled}"

lemma run_daemon_iff:
  "exit_code (fst (run_daemon start fin cfg dry)) = Some 1 \<longleftrightarrow> goes_wrong (start cfg dry) fin"
  "exit_code (fst (run_daemon start fin cfg dry)) = Some 0 \<longleftrightarrow> stops_well (start cfg dry) fin"
  "exit_code (fst (run_daemon start fin cfg dry)) \<noteq> Some 2"
proof -
  have x: "x \<noteq> TReturned \<and> x \<noteq> TCancelled \<longleftrightarrow> (\<exists>e. x = TRaised e)" for x by (cases x) auto
  have y: "(\<forall>d. y \<noteq> Inr d) \<longleftrightarrow> (\<exists>e. y = Inl e)" for y :: "'d res" by (cases y) auto
  show "exit_code (fst (run_daemon start fin cfg dry)) = Some 1 \<longleftrightarrow> goes_wrong (start cfg dry) fin"
    by (cases fin; cases "start cfg dry") (auto simp: run_daemon_code goes_wrong_def x)
  show "exit_code (fst (run_daemon start fin cfg dry)) = Some 0 \<longleftrightarrow> stops_well (start cfg dry) fin"
    by (cases fin; cases "start cfg dry") (auto simp: run_daemon_code stops_well_def)
  show "exit_code (fst (run_daemon start fin cfg dry)) \<noteq> Some 2"
    by (simp add: run_daemon_code split: run_end.split)
qed


definition sample_args :: "bool \<Rightarrow> cli_args" where
  "sample_args check = \<lparr>arg_config = ''/etc/config.yaml'', arg_secrets = None, arg_check = check, arg_dry_run = False,
     arg_verbose = False\<rparr>"

text \<open>
  A check that succeeds does not mean that the daemon can start: with a CDN whose secrets have an
  entry, but not the key its provider needs, \<open>--check\<close> prints that the configuration is OK and exits
  with 0, and the daemon started from the same files, and not stopped before, ends with an uncaught
  KeyError.
\<close>

lemma check_accepts_unbuildable:
  "let start = (\<lambda>cfg dry. snd (daemon_start cfg dry (\<lambda>k p. (k, Added)) () (\<lambda>p. Dir True []) None 0 Opened None));
       w = file_env 0x8180 ''token'' in
     snd (main w start (Ended x) (sample_args True) st) =
       \<lparr>stdout = [''mirror-mirage: config OK''], stderr = [], exit_with = Exit 0\<rparr> \<and>
     exit_with (snd (main w start (Ended x) (sample_args False) st)) = Uncaught (KeyError ''api_token'')"
proof -
  have p: "child (parent (parse_path ''/etc/config.yaml'')) ''secrets.yaml'' = parse_path ''/etc/secrets.yaml''"
    by code_simp
  show ?thesis
    by (simp add: main_def sample_args_def secrets_path_def p small_load run_daemon_def raised_in_run_def daemon_start_def recover_queue_def
        build_providers_def build_provider_def small_config_def credentials_of_def required_def Let_def)
qed

end
