(* ===== verification/Daemon_Contract.thy ===== *)
theory Daemon_Contract
  imports Daemon
begin

text \<open>
  What the assembled daemon promises: its parts refine the system of workers, its invariant holds, the
  queue survives everything, and a start that fails leaves the queue recovered.
\<close>

section \<open>Refinement\<close>

lemma ready_sink: "sink (d_bat (ready_daemon built d ls t)) = store (d_sys (ready_daemon built d ls t))"
  by (simp add: ready_daemon_def Let_def init_batcher_def)

text \<open>
  C12. The daemon refines the system of workers: in every run of the assembled daemon, whatever its
  batcher, its shutdowns and its restarts do, the queue and the workers go through a run of the system
  of workers, so that each job lives the life cycle and a CDN has at most one job in flight.
\<close>

theorem daemon_refines_workers:
  assumes "daemon_run cfg str ord built (ready_daemon built (open_db None) [] t) ls s"
  shows "\<exists>as. d_sys s = sys_run provider_purge str (retry (daemon cfg)) built as (first_boot built) \<and>
    (lifecycle (max_attempts (retry (daemon cfg))))\<^sup>*\<^sup>* Map.empty (phases (d_sys s)) \<and>
    sink (d_bat s) = store (d_sys s) \<and> sys_inv (d_sys s)"
proof -
  have s0: "d_sys (ready_daemon built (open_db None) [] t) = first_boot built"
    by (simp add: ready_daemon_def Let_def)
  from daemon_run_refines [OF assms ready_sink] obtain as where
    as: "sink (d_bat s) = store (d_sys s)"
    "d_sys s = sys_run provider_purge str (retry (daemon cfg)) built as (first_boot built)"
    unfolding s0 by blast
  have "(lifecycle (max_attempts (retry (daemon cfg))))\<^sup>*\<^sup>* (phases (first_boot built)) (phases (d_sys s))"
    unfolding as(2) by (rule run_refines [OF first_boot_inv])
  moreover have "sys_inv (d_sys s)" unfolding as(2) by (rule sys_run_inv [OF first_boot_inv])
  ultimately show ?thesis using as by (auto simp: first_boot_phases)
qed

section \<open>The invariant\<close>

lemma batch_inv_sink: "batch_inv cfg (b\<lparr>sink := q\<rparr>) = batch_inv cfg b"
  by (cases "lock b") (simp_all add: batch_inv_def cdn_inv_def lock_inv_def watched_def batch_simps split_def)

definition daemon_inv :: "config \<Rightarrow> daemon_state \<Rightarrow> bool" where
  "daemon_inv cfg s \<longleftrightarrow> sys_inv (d_sys s) \<and> batch_inv (daemon cfg) (d_bat s) \<and> sink (d_bat s) = store (d_sys s)"

lemma ready_inv: "wf_db d \<Longrightarrow> daemon_inv cfg (ready_daemon built d ls t)"
  by (simp add: daemon_inv_def ready_sink) (simp add: ready_daemon_def Let_def boot_inv batch_inv_init)

lemma daemon_step_inv:
  assumes "iteration_order ord" "daemon_step cfg str ord built s l s'" "daemon_inv cfg s"
  shows "daemon_inv cfg s'"
proof -
  note sync = daemon_step_refines [OF assms(2)]
  have "sink (d_bat s') = store (d_sys s')" "sys_inv (d_sys s')"
    using sync assms(3) sys_run_inv by (auto simp: daemon_inv_def)
  moreover have "batch_inv (daemon cfg) (d_bat s')"
    using assms(2,3)
  proof cases
    case (batch_step l b)
    then show ?thesis using assms(3) step_inv [OF assms(1)] by (auto simp: daemon_inv_def)
  next
    case (enqueue_step e w b q landed)
    then show ?thesis using assms(3) step_inv [OF assms(1) enqueue_step(4)]
      by (simp add: daemon_inv_def batch_inv_sink)
  qed (auto simp: daemon_inv_def batch_inv_sink ready_daemon_def Let_def batch_inv_init)
  ultimately show ?thesis by (simp add: daemon_inv_def)
qed

lemma daemon_run_split:
  "daemon_run cfg str ord built s0 (ls @ ms) s \<Longrightarrow>
     \<exists>s1. daemon_run cfg str ord built s0 ls s1 \<and> daemon_run cfg str ord built s1 ms s"
proof (induction ms arbitrary: s rule: rev_induct)
  case Nil
  then show ?case by (auto intro: daemon_nil)
next
  case (snoc m ms)
  from snoc.prems obtain s2 where s2: "daemon_run cfg str ord built s0 (ls @ ms) s2" "daemon_step cfg str ord built s2 m s"
    by (cases rule: daemon_run.cases) auto
  from snoc.IH [OF s2(1)] s2(2) show ?case by (blast intro: daemon_snoc)
qed

section \<open>Kills\<close>

lemma poll_stmt: "sys_inv s \<Longrightarrow> store (poll c now s) = store s \<or> (\<exists>st. store (poll c now s) = exec st (store s))"
  by (erule poll_cases [where c = c and now = now]) (auto intro: exI [of _ "SClaim _"])

lemma settle_stmt:
  assumes "sys_inv s"
  shows "store (settle purge str cfg c w now s) = store s \<or> (\<exists>st. store (settle purge str cfg c w now s) = exec st (store s))"
proof (cases rule: settle_cases [OF assms, of purge str cfg c w now])
  case 3: (3 j p p' r d l x y)
  then show ?thesis
    by (auto simp: settle_job_def Let_def bind_res_eq_Inr split: if_splits
        intro: exI [of _ "SDone _"] exI [of _ "SReschedule _ _ _"] exI [of _ "SFail _ _"])
qed simp_all

lemma work_stmt:
  assumes "sys_inv s"
  shows "store (sys_step purge str cfg built a s) = store s \<or>
    (\<exists>st. store (sys_step purge str cfg built a s) = exec st (store s))"
proof (cases a)
  case (Put c us now)
  then show ?thesis by (auto intro: exI [of _ "SEnqueue now c us"])
next
  case Restart
  then show ?thesis
    by (auto simp: boot_def open_db_def intro: exI [of _ SReset] split: prod.splits)
next
  case (ClaimRaises c now landed e)
  have "store (claim_raises c now landed e s) = store s \<or> (\<exists>st. store (claim_raises c now landed e s) = exec st (store s))"
    using poll_stmt [OF assms] by (cases rule: claim_raises_cases [of c now landed e s]) simp_all
  then show ?thesis by (simp add: ClaimRaises)
next
  case (RecordRaises c w now landed e)
  have "store (record_raises purge str cfg c w now landed e s) = store s \<or>
      (\<exists>st. store (record_raises purge str cfg c w now landed e s) = exec st (store s))"
    using settle_stmt [OF assms, of purge str cfg c w now]
    by (cases rule: record_raises_cases [of purge str cfg c w now landed e s]) simp_all
  then show ?thesis by (simp add: RecordRaises)
next
  case (Settle c w now)
  then show ?thesis using settle_stmt [OF assms, of purge str cfg c w now] by auto
qed (use poll_stmt [OF assms] in auto)

lemma sys_run_row:
  "sys_inv s \<Longrightarrow> row_of (store s) i = Some r \<Longrightarrow>
     \<exists>r'. row_of (store (sys_run purge str cfg built as s)) i = Some r' \<and> same_job r r'"
proof (induction as arbitrary: s r)
  case Nil
  then show ?case by (simp add: same_job_def)
next
  case (Cons a as)
  have "\<exists>r1. row_of (store (sys_step purge str cfg built a s)) i = Some r1 \<and> same_job r r1"
    using work_stmt [OF Cons.prems(1), of purge str cfg built a] Cons.prems(2)
      exec_keeps_job [OF sys_invD(1) [OF Cons.prems(1)] Cons.prems(2)]
    by (auto simp: same_job_def)
  then obtain r1 where r1: "row_of (store (sys_step purge str cfg built a s)) i = Some r1" "same_job r r1" by blast
  from Cons.IH [OF sys_step_inv [OF Cons.prems(1)] r1(1)] r1(2) show ?case by (auto simp: same_job_def)
qed

text \<open>
  C14. The queue survives everything: a job that is in the queue at some moment of a run is in the queue
  at every later one, with its CDN, its URLs and its creation time, over any work, failures, stops, starts
  and kills in between, and once it is done or failed it stays so.
\<close>

theorem queue_survives:
  assumes "wf_db d" "daemon_run cfg str ord built (ready_daemon built d [] t) ls1 s1"
    and "daemon_run cfg str ord built s1 ls2 s2"
    and "row_of (store (d_sys s1)) i = Some r"
  shows "\<exists>r'. row_of (store (d_sys s2)) i = Some r' \<and> row_cdn r' = row_cdn r \<and> urls_json r' = urls_json r \<and>
    created_at r' = created_at r \<and> (status r = Done \<or> status r = Failed \<longrightarrow> status r' = status r)"
proof -
  have i0: "sys_inv (d_sys (ready_daemon built d [] t))"
    by (simp add: ready_daemon_def Let_def boot_inv assms(1))
  from daemon_run_refines [OF assms(2) ready_sink] obtain as where
    s1: "sink (d_bat s1) = store (d_sys s1)"
    "d_sys s1 = sys_run provider_purge str (retry (daemon cfg)) built as (d_sys (ready_daemon built d [] t))"
    by blast
  have inv: "sys_inv (d_sys s1)" unfolding s1(2) by (rule sys_run_inv [OF i0])
  from daemon_run_refines [OF assms(3) s1(1)] obtain bs where
    s2: "d_sys s2 = sys_run provider_purge str (retry (daemon cfg)) built bs (d_sys s1)" by blast
  from sys_run_row [OF inv assms(4)] obtain r' where r': "row_of (store (d_sys s2)) i = Some r'" "same_job r r'"
    unfolding s2 by blast
  have "status r' = status r" if "status r = Done \<or> status r = Failed"
  proof -
    have "phases (d_sys s1) i \<in> {Some Delivered, Some Abandoned}" using that assms(4) by (auto simp: phases_def)
    from final_steps [OF run_refines [OF inv] this] have "phases (d_sys s2) i = phases (d_sys s1) i" unfolding s2 .
    with that r'(1) assms(4) show ?thesis by (cases "status r'") (auto simp: phases_def)
  qed
  with r' show ?thesis by (auto simp: same_job_def)
qed

section \<open>Starting\<close>

lemma reset_again: "fst (reset_in_flight (fst (reset_in_flight d))) = fst (reset_in_flight d)"
  by (simp add: reset_in_flight_def update_rows_def o_def)

lemma recover_queue_row:
  "recover_queue q (Some d) = (d', x) \<Longrightarrow>
     fst (reset_in_flight d') = fst (reset_in_flight d) \<and>
     row_of d' i = map_option (\<lambda>r. if status r = InFlight \<and> (x = Inr () \<or> (\<exists>e. q = ResetRaises True e))
       then r\<lparr>status := Pending\<rparr> else r) (row_of d i)"
  by (cases q; cases "row_of d i") (auto simp: recover_queue_def open_db_def reset_again row_of_ops(5))

text \<open>
  C31. A start recovers the queue before anything else: when the queue can be opened and recovered, then
  whether the providers cannot be built, the watcher cannot start, or the daemon comes up, a job that
  was in flight is pending again; when SQLite raises, the start ends with that exception. In no case is
  a job lost or changed otherwise, and the next start that recovers the queue finds it as this one
  would have left it. The daemon comes up only when all parts succeed, with its invariant.
\<close>

theorem start_recovers:
  assumes "wf_db d" "daemon_start cfg dry add_watch k0 fs read_limit t q (Some d) = (d', res)"
  shows "row_of d' i = map_option (\<lambda>r. if status r = InFlight \<and> (q = Opened \<or> (\<exists>e. q = ResetRaises True e))
       then r\<lparr>status := Pending\<rparr> else r) (row_of d i) \<and>
    fst (reset_in_flight d') = fst (reset_in_flight d) \<and>
    (case res of
       Inl e \<Rightarrow> q = OpenRaises e \<or> (\<exists>landed. q = ResetRaises landed e) \<or>
         q = Opened \<and> (build_providers cfg dry = Inl e \<or>
           snd (aenter add_watch k0 fs read_limit (watches cfg) init_watcher) = Inl e)
     | Inr (s, wt) \<Rightarrow> q = Opened \<and> daemon_inv cfg s \<and> store (d_sys s) = d' \<and>
         aenter add_watch k0 fs read_limit (watches cfg) init_watcher = (wt, Inr ()) \<and>
         (\<exists>ps. build_providers cfg dry = Inr ps \<and> providers (d_sys s) = map_of ps))"
proof -
  obtain x where x: "recover_queue q (Some d) = (d', x)" "x = Inr () \<longleftrightarrow> q = Opened"
    using assms(2)
    by (cases q) (auto simp: daemon_start_def recover_queue_def split: sum.splits prod.splits)
  have b: "store (d_sys (ready_daemon built d [] t)) = fst (reset_in_flight d)" for built
    by (simp add: ready_daemon_def boot_def open_db_def Let_def split: prod.splits)
  have p: "providers (d_sys (ready_daemon built d [] t)) = built" for built
    by (simp add: ready_daemon_def Let_def boot_sel)
  have "case res of
       Inl e \<Rightarrow> q = OpenRaises e \<or> (\<exists>landed. q = ResetRaises landed e) \<or>
         q = Opened \<and> (build_providers cfg dry = Inl e \<or>
           snd (aenter add_watch k0 fs read_limit (watches cfg) init_watcher) = Inl e)
     | Inr (s, wt) \<Rightarrow> q = Opened \<and> daemon_inv cfg s \<and> store (d_sys s) = d' \<and>
         aenter add_watch k0 fs read_limit (watches cfg) init_watcher = (wt, Inr ()) \<and>
         (\<exists>ps. build_providers cfg dry = Inr ps \<and> providers (d_sys s) = map_of ps)"
    using assms(2) ready_inv [OF assms(1)]
    by (cases q) (auto simp: daemon_start_def recover_queue_def open_db_def b p split: sum.splits prod.splits)
  with recover_queue_row [OF x(1), of i] show ?thesis by (simp only: x(2))
qed

section \<open>A run of the daemon\<close>

definition sample_config :: config where
  "sample_config = \<lparr>cdns = [(''f'', FastlyCdn ''svc'' False)],
     watches = [sample_watch\<lparr>bindings := [\<lparr>cdn = ''f'', url_prefix = ''https://repo.x/alma/''\<rparr>]\<rparr>],
     daemon = default_daemon, credentials = [(''f'', [(''api_token'', ''tok'')])]\<rparr>"

definition sample_yield :: "string \<times> path \<times> path" where
  "sample_yield = (''IN_MOVED_TO'', sample_path, watch_path sample_watch)"

definition sample_purge :: purge_target where
  "sample_purge = \<lparr>cdn_name = ''f'', url = ''https://repo.x/alma/9/repomd.xml''\<rparr>"

lemma sample_normalized:
  "normalize (init_filter (watches sample_config)) ''IN_MOVED_TO'' sample_path =
     Some \<lparr>kind = INVALIDATE, abs_path = sample_path, watch_root = watch_path sample_watch\<rparr>"
  by code_simp

lemma sample_pipeline: "pipeline (watches sample_config) [sample_yield] = Inr [sample_purge]"
  by code_simp

abbreviation sample_ready :: daemon_state where
  "sample_ready \<equiv> ready_daemon sample_providers (open_db None) [] 0"

lemma sample_daemon_run:
  "\<exists>s. daemon_run sample_config (\<lambda>e. []) sorted_list_of_set sample_providers sample_ready
     [Work (Poll ''f'' 1), Batch (Submit sample_purge), Cycle True Map.empty 2 0] s"
proof -
  let ?step = "daemon_step sample_config (\<lambda>e. []) sorted_list_of_set sample_providers"
  obtain s1 where s1: "?step sample_ready (Work (Poll ''f'' 1)) s1"
    "s1 = \<lparr>d_sys = sys_step provider_purge (\<lambda>e. []) (retry (daemon sample_config)) sample_providers (Poll ''f'' 1) (d_sys sample_ready),
      d_bat = (d_bat sample_ready)\<lparr>sink := store (sys_step provider_purge (\<lambda>e. []) (retry (daemon sample_config))
        sample_providers (Poll ''f'' 1) (d_sys sample_ready))\<rparr>\<rparr>"
    using work_step [of "Poll ''f'' 1"] by simp
  have "crashed (d_sys s1) = None" "lock (d_bat s1) = None" "raised (d_bat s1) = None"
    by (simp_all add: s1(2) ready_daemon_def init_batcher_def run_eval Let_def)
  then obtain s2 where s2: "?step s1 (Batch (Submit sample_purge)) s2"
    using batch_step step_submit by blast
  obtain s3 where s3: "?step s2 (Cycle True Map.empty 2 0) s3" using cycle_step by blast
  from daemon_snoc [OF daemon_snoc [OF daemon_snoc [OF daemon_nil s1(1)] s2] s3] show ?thesis by auto
qed

theorem daemon_refines_workers_witness:
  "\<exists>s. daemon_run sample_config (\<lambda>e. []) sorted_list_of_set sample_providers sample_ready
      [Work (Poll ''f'' 1), Batch (Submit sample_purge), Cycle True Map.empty 2 0] s \<and> sys_inv (d_sys s)"
proof -
  from sample_daemon_run obtain s where s: "daemon_run sample_config (\<lambda>e. []) sorted_list_of_set sample_providers
      sample_ready [Work (Poll ''f'' 1), Batch (Submit sample_purge), Cycle True Map.empty 2 0] s" by blast
  with daemon_refines_workers [OF s] show ?thesis by blast
qed

theorem start_recovers_witness:
  "\<exists>d' res. daemon_start sample_config False (\<lambda>k p. (k, Added)) () (\<lambda>p. Dir True []) (Some 0) 0 Opened (Some sample_db) = (d', res) \<and>
    row_of d' 1 = row_of sample_db 1"
proof -
  obtain d' res where
    s: "daemon_start sample_config False (\<lambda>k p. (k, Added)) () (\<lambda>p. Dir True []) (Some 0) 0 Opened (Some sample_db) = (d', res)"
    by fastforce
  have "row_of sample_db 1 = Some (hd (rows sample_db))" by (simp add: row_of_def sample_rows)
  with start_recovers [OF wf_sample s, of 1] s show ?thesis by (simp add: sample_rows)
qed

theorem queue_survives_witness:
  "\<exists>s r'. daemon_run sample_config (\<lambda>e. []) sorted_list_of_set sample_providers
      (ready_daemon sample_providers sample_db [] 0) [Kill 5] s \<and>
    row_of (store (d_sys s)) 1 = Some r' \<and> row_cdn r' = ''fastly'' \<and> created_at r' = 5"
proof -
  let ?s0 = "ready_daemon sample_providers sample_db [] 0"
  let ?run = "daemon_run sample_config (\<lambda>e. []) sorted_list_of_set sample_providers"
  have k: "?run ?s0 [Kill 5] (ready_daemon sample_providers (store (d_sys ?s0)) (lines (d_sys ?s0)) 5)"
    using daemon_snoc [OF daemon_nil kill_step] by simp
  have "row_of sample_db 1 = Some (hd (rows sample_db))" by (simp add: row_of_def sample_rows)
  moreover have "store (d_sys ?s0) = fst (reset_in_flight sample_db)"
    by (simp add: ready_daemon_def boot_def open_db_def Let_def split: prod.splits)
  ultimately have "\<exists>r. row_of (store (d_sys ?s0)) 1 = Some r \<and> row_cdn r = ''fastly'' \<and> created_at r = 5"
    by (simp add: row_of_ops sample_rows)
  with queue_survives [OF wf_sample daemon_nil k] k show ?thesis by metis
qed

end
