(* ===== verification/Change_Delivery.thy ===== *)
theory Change_Delivery
  imports Daemon_Contract
begin

text \<open>
  From a change on disk to the cache of a CDN: what becomes of the targets that the pipeline submits,
  over every run of the assembled daemon. The pairs of a \<open>job_view\<close> that the batcher and the queue hold
  together (\<open>held\<close>) grow by exactly what is submitted; read over the jobs created since the change and
  joined with what the CDNs have accepted since, this accounts for every change.
\<close>

section \<open>Runs\<close>

definition submits :: "daemon_label list \<Rightarrow> purge_target list" where
  \<comment> \<open>what the pipeline submits in this run, in order\<close>
  "submits ls = List.map_filter (\<lambda>l. case l of Batch (Submit t) \<Rightarrow> Some t | _ \<Rightarrow> None) ls"

definition orderly :: "daemon_label list \<Rightarrow> bool" where
  \<comment> \<open>no kill, no shutdown whose flush raises, and every \<open>enqueue\<close> that a stop cuts off or that raises
    takes effect all the same\<close>
  "orderly ls \<longleftrightarrow> list_all (\<lambda>l. case l of
     Cycle landed f now t \<Rightarrow> landed \<and> (\<forall>c. f c = None) | EnqueueRaises w landed e \<Rightarrow> landed | Kill t \<Rightarrow> False | _ \<Rightarrow> True) ls"

abbreviation pairs :: "purge_target list \<Rightarrow> (string \<times> string) set" where
  "pairs ts \<equiv> (\<lambda>t. (cdn_name t, url t)) ` set ts"

lemma submits_simps [simp]: "submits [] = []" "submits (ls @ ls') = submits ls @ submits ls'"
  "submits [Work a] = []" "submits [EnqueueRaises w landed e] = []" "submits [Cycle landed f now t] = []"
  "submits [Kill t] = []"
  by (simp_all add: submits_def map_filter_def)

lemma submits_batch: "pairs (submits [Batch l]) = submitted [l]"
  by (cases l) (auto simp: submits_def map_filter_def submitted_def)

lemma orderly_append: "orderly (ls @ ls') \<longleftrightarrow> orderly ls \<and> orderly ls'"
  by (simp add: orderly_def)

text \<open>A run together with what the CDNs accept in the course of it, which no step reads.\<close>

inductive daemon_trace ::
  "config \<Rightarrow> (exn \<Rightarrow> string) \<Rightarrow> set_order \<Rightarrow> (string \<Rightarrow> provider option) \<Rightarrow>
   daemon_state \<Rightarrow> daemon_label list \<Rightarrow> daemon_state \<Rightarrow> (string \<times> string) set \<Rightarrow> bool" for cfg str ord built s0 where
  trace_nil: "daemon_trace cfg str ord built s0 [] s0 {}"
| trace_snoc: "daemon_trace cfg str ord built s0 ls s T \<Longrightarrow> daemon_step cfg str ord built s l s' \<Longrightarrow>
     daemon_trace cfg str ord built s0 (ls @ [l]) s' (T \<union> accepted_in l s)"

lemma trace_run: "daemon_trace cfg str ord built s0 ls s T \<Longrightarrow> daemon_run cfg str ord built s0 ls s"
  by (induction rule: daemon_trace.induct) (auto intro: daemon_run.intros)

lemma run_trace: "daemon_run cfg str ord built s0 ls s \<Longrightarrow> \<exists>T. daemon_trace cfg str ord built s0 ls s T"
  by (induction rule: daemon_run.induct) (blast intro: daemon_trace.intros)+

section \<open>What is held\<close>

lemma submit_sink: "sink (submit cfg ord t b) = sink b"
  by (simp add: submit_def Let_def batch_simps begin_flush_sink)

lemma loop_sink: "step cfg ord enq b (Loop c) b' \<Longrightarrow> sink b' = sink b"
  by (elim step_LoopE) (simp_all add: wake_up_def assess_def Let_def loop_flush_def batch_simps begin_flush_sink split: option.splits)

lemma loop_any_sink: "step cfg ord enq b (Loop c) b' \<Longrightarrow> step cfg ord enq' b (Loop c) b'"
  by (elim step_LoopE) (auto intro: step.intros)

lemma quiet_env: "iteration_order ord \<Longrightarrow> batch_env (failing (\<lambda>c. Some e)) st ord"
  \<comment> \<open>only the return of an \<open>enqueue\<close> depends on the queue; the other steps hold what they hold for any\<close>
  by unfold_locales (simp_all add: failing_def)

context job_view
begin

lemma step_view:
  assumes "iteration_order ord" "step cfg ord enqueue_sink_op b l b'" "batch_inv cfg b" "valid (sink b)"
  shows "valid (sink b') \<and> held st b' = held st b \<union> submitted [l]"
proof (cases l)
  case (Submit t)
  with assms batch_env.submit_held [OF quiet_env [OF assms(1)] assms(3)] show ?thesis
    by (auto elim!: step_SubmitE simp: submit_sink submitted_def)
next
  case (Loop c)
  with assms(2) batch_env.loop_held [OF quiet_env [OF assms(1)] assms(3) loop_any_sink] loop_sink assms(4)
  show ?thesis by (fastforce simp: submitted_def)
next
  case (Finish w)
  then obtain h c us where l: "lock b = Some (h, c, us)" "b' = finish_flush enqueue_sink_op w b"
    using assms(2) by (auto elim: step_FinishE)
  have p: "pending b = {c} \<times> set us" "pending b' = {}" "buffered b' = buffered b"
    "sink b' = fst (enqueue w c us (sink b))"
    by (simp_all add: l finish_flush_def enqueue_sink_op_def pending_def buffered_def batch_simps)
  with enq_view [OF assms(4), of w c us] show ?thesis
    by (auto simp: held_def Finish submitted_def)
next
  case (Tick dt)
  with assms(2,4) show ?thesis
    by (auto elim!: step_TickE simp: submitted_def held_def pending_def buffered_def batch_simps)
qed

lemma failed_enqueue_view:
  assumes "iteration_order ord" "step cfg ord (failing (\<lambda>c. Some e)) b (Finish w) b'" "batch_inv cfg b" "valid (sink b)"
  shows "valid (sink (finish_flush enqueue_sink_op w b)) \<and>
    held st (b'\<lparr>sink := sink (finish_flush enqueue_sink_op w b)\<rparr>) = held st b"
proof -
  obtain h c us where l: "lock b = Some (h, c, us)" "b' = finish_flush (failing (\<lambda>c. Some e)) w b"
    using assms(2) by (auto elim: step_FinishE)
  have "step cfg ord enqueue_sink_op b (Finish w) (finish_flush enqueue_sink_op w b)"
    by (rule step_finish) (simp add: l(1))
  from step_view [OF assms(1) this assms(3,4)]
  have "valid (sink (finish_flush enqueue_sink_op w b))" "held st (finish_flush enqueue_sink_op w b) = held st b"
    by (simp_all add: submitted_def)
  moreover have "buffers b' = buffers (finish_flush enqueue_sink_op w b)" "lock b' = None"
    "lock (finish_flush enqueue_sink_op w b) = None"
    by (simp_all add: l finish_flush_def failing_def enqueue_sink_op_def batch_simps)
  then have "held st (b'\<lparr>sink := sink (finish_flush enqueue_sink_op w b)\<rparr>) = held st (finish_flush enqueue_sink_op w b)"
    by (simp add: held_def buffered_def pending_def buf_def)
  ultimately show ?thesis by simp
qed

lemma shutdown_held:
  assumes "iteration_order ord" "batch_inv cfg b" "valid (sink b)"
  shows "valid (sink (shutdown ord enqueue_sink_op True w b)) \<and>
    st (sink (shutdown ord enqueue_sink_op True w b)) = held st b"
proof -
  have "\<And>c. finite (buf b c)" using assms(2) by (simp add: batch_inv_def cdn_inv_def)
  note v = shutdown_view [OF assms(1) this assms(3), of Map.empty True w, unfolded failing_none [of Map.empty, simplified]]
  have "{(c, u). (c, u) \<in> buffered b \<and> c \<in> set (reached Map.empty b (dict_keys (buffers b)))} = buffered b"
    by (auto simp: reached_all dest: buffered_key)
  with v show ?thesis by (simp add: held_def Un_ac)
qed

lemma boot_view: "st (store (boot built d ls)) = st d" "valid (store (boot built d ls)) \<longleftrightarrow> valid d"
proof -
  have "store (boot built d ls) = fst (reset_in_flight d)"
    by (simp add: boot_def open_db_def split: prod.split)
  then show "st (store (boot built d ls)) = st d" "valid (store (boot built d ls)) \<longleftrightarrow> valid d"
    by (simp_all only: reset_view)
qed

lemma ready_view:
  "held st (d_bat (ready_daemon built d ls t)) = st d" "valid (store (d_sys (ready_daemon built d ls t))) \<longleftrightarrow> valid d"
  by (simp_all add: ready_daemon_def Let_def boot_view init_batcher_def held_def buffered_def pending_def buf_def)

lemma work_view:
  assumes "sys_inv s" "of_worker a"
  shows "st (store (sys_step purge str cfg built a s)) = st (store s) \<and>
    (valid (store (sys_step purge str cfg built a s)) \<longleftrightarrow> valid (store s))"
proof -
  define same where "same = (\<lambda>d. st d = st (store s) \<and> (valid d \<longleftrightarrow> valid (store s)))"
  have p: "same (store (poll c now s))" for c now
    by (cases rule: poll_cases [OF assms(1), of c now]) (simp_all add: same_def claim_view)
  have q: "same (store (settle purge str cfg c w now s))" for c w now
  proof (cases rule: settle_cases [OF assms(1), of purge str cfg c w now])
    case 3: (3 j p p' r d l x y)
    then obtain f where "keeps_row f" "d = fst (update_rows (\<lambda>x. row_id x = job_id j) f (store s))"
      using settle_job_db(3) [OF 3(5)] by blast
    then show ?thesis by (simp add: 3(4) same_def update_view)
  qed (simp_all add: same_def)
  have "same (store (claim_raises c now landed e s))" for c now landed e
    using p by (cases rule: claim_raises_cases [of c now landed e s]) (simp_all add: same_def)
  moreover have "same (store (record_raises purge str cfg c w now landed e s))" for c w now landed e
    using q by (cases rule: record_raises_cases [of purge str cfg c w now landed e s]) (simp_all add: same_def)
  moreover have "same (store s)" by (simp add: same_def)
  ultimately have "same (store (sys_step purge str cfg built a s))" using assms(2) p q by (cases a) simp_all
  then show ?thesis by (simp add: same_def)
qed

lemma daemon_step_view:
  assumes "iteration_order ord" "daemon_step cfg str ord built s l s'" "daemon_inv cfg s" "orderly [l]"
    and "valid (store (d_sys s))"
  shows "valid (store (d_sys s')) \<and> held st (d_bat s') = held st (d_bat s) \<union> pairs (submits [l])"
  using assms(2)
proof cases
  case (work_step a y)
  have inv: "sys_inv (d_sys s)" "sink (d_bat s) = store (d_sys s)" using assms(3) by (simp_all add: daemon_inv_def)
  from work_view [OF inv(1) work_step(3)] assms(5) have "st (store y) = st (sink (d_bat s))" "valid (store y)"
    by (simp_all add: work_step(4) inv(2))
  then show ?thesis by (simp add: work_step(1,2) held_def buffered_def pending_def batch_simps)
next
  case (batch_step l' b)
  have "batch_inv (daemon cfg) (d_bat s)" "valid (sink (d_bat s))" using assms(3,5) by (simp_all add: daemon_inv_def)
  from step_view [OF assms(1) batch_step(4) this] show ?thesis
    by (simp add: batch_step(1,2) submits_batch del: submits_simps)
next
  case (enqueue_step e w b q landed)
  then have q: "q = sink (finish_flush enqueue_sink_op w (d_bat s))" using assms(4) by (simp add: orderly_def)
  have "batch_inv (daemon cfg) (d_bat s)" "valid (sink (d_bat s))" using assms(3,5) by (simp_all add: daemon_inv_def)
  from failed_enqueue_view [OF assms(1) enqueue_step(4) this]
  show ?thesis by (simp add: enqueue_step(1,2) q)
next
  case (cycle_step b f landed now t)
  with assms(4) have "landed" "failing f = enqueue_sink_op" by (simp_all add: orderly_def failing_none)
  with shutdown_held [OF assms(1), of "daemon cfg" "d_bat s" now] assms(3,5)
  have "valid (sink b)" "st (sink b) = held st (d_bat s)"
    by (simp_all add: cycle_step(3) daemon_inv_def)
  then show ?thesis by (simp add: cycle_step(1,2) ready_view)
qed (use assms(4) in \<open>simp add: orderly_def\<close>)

lemma daemon_run_view:
  assumes "iteration_order ord" "daemon_run cfg str ord built s0 ls s" "daemon_inv cfg s0" "orderly ls"
    and "valid (store (d_sys s0))"
  shows "daemon_inv cfg s \<and> valid (store (d_sys s)) \<and> held st (d_bat s) = held st (d_bat s0) \<union> pairs (submits ls)"
  using assms(2,4)
proof induction
  case daemon_nil
  then show ?case by (simp add: assms(3,5))
next
  case (daemon_snoc ls s l s')
  then have inv: "daemon_inv cfg s" "valid (store (d_sys s))" "orderly [l]"
    "held st (d_bat s) = held st (d_bat s0) \<union> pairs (submits ls)"
    by (simp_all add: orderly_append)
  with daemon_step_view [OF assms(1) daemon_snoc.hyps(2) inv(1,3,2)] daemon_step_inv [OF assms(1) daemon_snoc.hyps(2) inv(1)]
  show ?case by (simp add: image_Un Un_assoc)
qed

end

lemma daemon_run_inv:
  assumes "iteration_order ord" "daemon_run cfg str ord built s0 ls s" "daemon_inv cfg s0"
  shows "daemon_inv cfg s"
  using assms(2) by induction (auto intro: assms(3) daemon_step_inv [OF assms(1)])

lemma daemon_trace_done:
  assumes "iteration_order ord" "daemon_trace cfg str ord built s0 ls s T" "daemon_inv cfg s0"
    and "done_ok n {} (d_sys s0)"
  shows "done_ok n T (d_sys s)"
  using assms(2)
proof induction
  case trace_nil
  then show ?case by (rule assms(4))
next
  case (trace_snoc ls s T l s')
  have inv: "sys_inv (d_sys s)" "sink (d_bat s) = store (d_sys s)"
    using daemon_run_inv [OF assms(1) trace_run [OF trace_snoc.hyps(1)] assms(3)] by (simp_all add: daemon_inv_def)
  from daemon_step_refines [OF trace_snoc.hyps(2) inv(2)] obtain as where
    as: "d_sys s' = sys_run provider_purge str (retry (daemon cfg)) built as (d_sys s)"
    "taken_run provider_purge str (retry (daemon cfg)) built provider_accepted as (d_sys s) = accepted_in l s" by blast
  from any.run_done [OF inv(1) trace_snoc.IH, of str "retry (daemon cfg)" built as] show ?case
    by (simp only: as)
qed

section \<open>Every change is accounted for\<close>

lemma change_reaches_queue:
  \<comment> \<open>over all jobs, and without the CDNs: what is submitted is held by the batcher or by a job\<close>
  assumes "iteration_order ord" "wf_db d"
    and "daemon_run cfg str ord built (ready_daemon built d [] t) (before_it @ ls) s" "orderly ls"
    and "pipeline (watches cfg) ys = Inr (submits ls)" "(m, p, r) \<in> set ys"
    and "normalize (init_filter (watches cfg)) m p = Some ev"
    and "bd \<in> set (root_bindings (watches cfg) (watch_root ev))" "relative_to p (watch_root ev) = Some rel"
  shows "(cdn bd, url (target_of rel bd)) \<in> buffered (d_bat s) \<union> pending (d_bat s) \<or>
    (\<exists>row \<in> set (rows (store (d_sys s))). row_cdn row = cdn bd \<and>
      (\<exists>us. json_loads (urls_json row) = Some us \<and> url (target_of rel bd) \<in> set us))"
proof -
  obtain s1 where s1: "daemon_run cfg str ord built (ready_daemon built d [] t) before_it s1"
    "daemon_run cfg str ord built s1 ls s"
    using daemon_run_split [OF assms(3)] by blast
  have i1: "daemon_inv cfg s1" by (rule daemon_run_inv [OF assms(1) s1(1) ready_inv [OF assms(2)]])
  let ?n = "last_id (store (d_sys s1))" and ?x = "(cdn bd, url (target_of rel bd))"
  have "target_of rel bd \<in> set (submits ls)" by (rule pipeline_target [OF assms(5-9)])
  then have "?x \<in> pairs (submits ls)" by (force simp: target_of_def)
  with new_jobs.daemon_run_view [OF assms(1) s1(2) i1 assms(4) order_refl]
  have "daemon_inv cfg s" "?x \<in> held (stored_since ?n) (d_bat s)" by auto
  then have "?x \<in> buffered (d_bat s) \<union> pending (d_bat s) \<or> ?x \<in> stored_since ?n (store (d_sys s))"
    by (auto simp: held_def daemon_inv_def)
  then show ?thesis unfolding stored_since_row by blast
qed

text \<open>
  C2. From the watcher to the CDN. Let the pipeline take what the watcher yielded and submit it in some
  stretch of a run of the daemon, whatever happened before. Then at every later moment, for every
  yielded path that the filter lets through and every binding of its root, the URL made of the
  binding's prefix and the path below the root is on its way (in a buffer, in the batch being written,
  or in a job created since that is pending or in flight), or it has been accepted by the CDN of the
  binding since, or a job created since that holds it is recorded as failed. The workers, other
  changes, failures of SQLite, stops and starts may come in between in any order, as long as no
  \<open>enqueue\<close> that is cut off or raises is lost.
\<close>

theorem change_accounted_for:
  assumes "iteration_order ord" "wf_db d"
    and "daemon_run cfg str ord built (ready_daemon built d [] t) earlier s1"
    and "daemon_trace cfg str ord built s1 ls s T" "orderly ls"
    and "pipeline (watches cfg) ys = Inr (submits ls)" "(m, p, r) \<in> set ys"
    and "normalize (init_filter (watches cfg)) m p = Some ev"
    and "bd \<in> set (root_bindings (watches cfg) (watch_root ev))" "relative_to p (watch_root ev) = Some rel"
    and "u = url (target_of rel bd)"
  shows "(cdn bd, u) \<in> buffered (d_bat s) \<union> pending (d_bat s) \<or> (cdn bd, u) \<in> T \<or>
    (\<exists>row \<in> set (rows (store (d_sys s))). last_id (store (d_sys s1)) < row_id row \<and> row_cdn row = cdn bd \<and>
      status row \<noteq> Done \<and> (\<exists>us. json_loads (urls_json row) = Some us \<and> u \<in> set us))"
proof -
  let ?n = "last_id (store (d_sys s1))"
  have i1: "daemon_inv cfg s1" by (rule daemon_run_inv [OF assms(1,3) ready_inv [OF assms(2)]])
  have "target_of rel bd \<in> set (submits ls)" by (rule pipeline_target [OF assms(6-10)])
  then have "(cdn bd, u) \<in> pairs (submits ls)" unfolding assms(11) by (force simp: target_of_def)
  with new_jobs.daemon_run_view [OF assms(1) trace_run [OF assms(4)] i1 assms(5) order_refl]
  have s: "daemon_inv cfg s" "(cdn bd, u) \<in> held (stored_since ?n) (d_bat s)" by auto
  have "done_ok ?n {} (d_sys s1)"
    using i1 by (force simp: daemon_inv_def sys_inv_def done_ok_def wf_db_def row_of_Some)
  from daemon_trace_done [OF assms(1,4) i1 this] have T: "done_ok ?n T (d_sys s)" .
  have wf: "wf_db (store (d_sys s))" using s(1) by (simp add: daemon_inv_def sys_inv_def)
  show ?thesis
  proof (cases "(cdn bd, u) \<in> stored_since ?n (store (d_sys s))")
    case True
    then obtain row us where row: "row \<in> set (rows (store (d_sys s)))" "?n < row_id row" "row_cdn row = cdn bd"
      "json_loads (urls_json row) = Some us" "u \<in> set us"
      by (auto simp: stored_since_row)
    have "row_of (store (d_sys s)) (row_id row) = Some row" using row(1) by (simp add: row_of_Some [OF wf])
    with T row have "status row = Done \<Longrightarrow> (cdn bd, u) \<in> T" by (force simp: done_ok_def)
    with row show ?thesis by blast
  qed (use s in \<open>auto simp: held_def daemon_inv_def\<close>)
qed

theorem change_accounted_for_witness:
  "\<exists>s T. daemon_trace sample_config (\<lambda>e. []) sorted_list_of_set sample_providers sample_ready
      [Work (Poll ''f'' 1), Batch (Submit sample_purge), Cycle True Map.empty 2 0] s T \<and>
    ((''f'', ''https://repo.x/alma/9/repomd.xml'') \<in> buffered (d_bat s) \<union> pending (d_bat s) \<or>
     (''f'', ''https://repo.x/alma/9/repomd.xml'') \<in> T \<or>
     (\<exists>row \<in> set (rows (store (d_sys s))). 0 < row_id row \<and> row_cdn row = ''f'' \<and> status row \<noteq> Done \<and>
       (\<exists>us. json_loads (urls_json row) = Some us \<and> ''https://repo.x/alma/9/repomd.xml'' \<in> set us)))"
proof -
  let ?ls = "[Work (Poll ''f'' 1), Batch (Submit sample_purge), Cycle True Map.empty 2 0]"
  let ?c = sample_config and ?ord = sorted_list_of_set
  from sample_daemon_run run_trace obtain s T where
    s: "daemon_trace ?c (\<lambda>e. []) ?ord sample_providers sample_ready ?ls s T" by blast
  have o: "orderly ?ls" by (simp add: orderly_def)
  have "submits ?ls = [sample_purge]" by (simp add: submits_def map_filter_def)
  with sample_pipeline have p: "pipeline (watches ?c) [sample_yield] = Inr (submits ?ls)" by simp
  have y: "(''IN_MOVED_TO'', sample_path, watch_path sample_watch) \<in> set [sample_yield]" by (simp add: sample_yield_def)
  let ?ev = "\<lparr>kind = INVALIDATE, abs_path = sample_path, watch_root = watch_path sample_watch\<rparr>"
  have b: "\<lparr>cdn = ''f'', url_prefix = ''https://repo.x/alma/''\<rparr> \<in> set (root_bindings (watches ?c) (watch_root ?ev))"
    by (simp add: root_bindings_def sample_config_def)
  have r: "relative_to sample_path (watch_root ?ev) = Some \<lparr>anchor = [], comps = [''9'', ''repomd.xml'']\<rparr>"
    by code_simp
  have u: "''https://repo.x/alma/9/repomd.xml'' =
      url (target_of \<lparr>anchor = [], comps = [''9'', ''repomd.xml'']\<rparr> \<lparr>cdn = ''f'', url_prefix = ''https://repo.x/alma/''\<rparr>)"
    by code_simp
  have "last_id (store (d_sys sample_ready)) = 0"
    by (simp add: ready_daemon_def Let_def boot_sel open_db_def)
  with change_accounted_for [OF sorted_order wf_open daemon_nil s o p y sample_normalized b r u] s show ?thesis
    by auto
qed

end
