(* ===== verification/Batcher_Timing.thy ===== *)
theory Batcher_Timing
  imports Batcher_Properties
begin

text \<open>
  The liveness of the batcher. Between events its tasks come to rest after a bounded number of
  steps (\<open>activity\<close> is the measure). When tasks run promptly, that is, the clock advances only
  while every task is waiting and never past the end of a sleep (\<open>may_tick\<close>), a URL reaches the
  queue within the age cap, and within the quiet window when no further URL arrives for its CDN.
\<close>

section \<open>Coming to rest\<close>

fun pc_rank :: "loop_pc \<Rightarrow> nat" where
  "pc_rank WaitWake = 0"
| "pc_rank Assess = 4"
| "pc_rank (Sleeping d) = 3"
| "pc_rank FlushDue = 2"
| "pc_rank Flushing = 1"
| "pc_rank Dead = 0"
| "pc_rank Cancelled = 0"

definition cdn_activity :: "'q batcher \<Rightarrow> string \<Rightarrow> nat" where
  "cdn_activity b c = (case tasks b c of None \<Rightarrow> 0 | Some pc \<Rightarrow> pc_rank pc) +
     (if wake b c = Some True then 5 else 0)"

definition activity :: "'q batcher \<Rightarrow> nat" where
  "activity b = (\<Sum>c \<in> dom (tasks b). cdn_activity b c) + (case lock b of Some (BySubmit, _) \<Rightarrow> 1 | _ \<Rightarrow> 0)"

fun internal :: "label \<Rightarrow> bool" where
  "internal (Submit t) = False"
| "internal (Loop c) = True"
| "internal (Finish w) = True"
| "internal (Tick dt) = False"

lemma activity_less:
  assumes "finite (dom (tasks b))" "tasks b c \<noteq> None" "dom (tasks b') = dom (tasks b)"
    and "\<And>d. d \<noteq> c \<Longrightarrow> cdn_activity b' d = cdn_activity b d"
    and "cdn_activity b' c < cdn_activity b c"
    and "(case lock b' of Some (BySubmit, _) \<Rightarrow> 1 | _ \<Rightarrow> 0) \<le> (case lock b of Some (BySubmit, _) \<Rightarrow> 1 | _ \<Rightarrow> (0::nat))"
  shows "activity b' < activity b"
proof -
  have c: "c \<in> dom (tasks b)" using assms(2) by auto
  have "(\<Sum>d \<in> dom (tasks b) - {c}. cdn_activity b' d) = (\<Sum>d \<in> dom (tasks b) - {c}. cdn_activity b d)"
    by (rule sum.cong) (simp_all add: assms(4))
  then have "(\<Sum>d \<in> dom (tasks b). cdn_activity b' d) < (\<Sum>d \<in> dom (tasks b). cdn_activity b d)"
    using assms(5) by (simp add: sum.remove [OF assms(1) c])
  with assms(3,6) show ?thesis by (simp add: activity_def)
qed

lemma finite_tasks: "batch_inv cfg b \<Longrightarrow> finite (dom (tasks b)) \<and> card (dom (tasks b)) \<le> length (buffers b)"
proof -
  assume "batch_inv cfg b"
  then have "dom (tasks b) = set (map fst (buffers b))"
    by (auto simp: batch_inv_def cdn_inv_def dom_map_of_conv_image_fst [symmetric] dom_def)
  then show ?thesis using card_length [of "map fst (buffers b)"] by simp
qed

definition calmer :: "'q batcher \<Rightarrow> 'q batcher \<Rightarrow> bool" where
  "calmer b b' \<longleftrightarrow> activity b' < activity b \<and> dom (tasks b') = dom (tasks b)"

definition weight :: "bool \<Rightarrow> loop_pc \<Rightarrow> nat" where
  "weight woken pc = pc_rank pc + (if woken then 5 else 0)"

lemma goto_calmer:
  assumes "finite (dom (tasks b))" "tasks b c = Some pc0" "tasks b1 = tasks b"
    and "weight (wake b1 c = Some True) pc < weight (wake b c = Some True) pc0"
    and "\<And>d. d \<noteq> c \<Longrightarrow> wake b1 d = wake b d"
    and "\<And>d us. lock b1 = Some (BySubmit, d, us) \<Longrightarrow> lock b = Some (BySubmit, d, us)"
  shows "calmer b (goto c pc b1)"
proof -
  have d: "dom (tasks (goto c pc b1)) = dom (tasks b)"
    using assms(2,3) by (auto simp: batch_simps)
  have "activity (goto c pc b1) < activity b"
    by (rule activity_less [OF assms(1), of c])
      (use assms d in \<open>auto simp: cdn_activity_def weight_def batch_simps split: option.splits holder.splits\<close>)
  with d show ?thesis by (simp add: calmer_def)
qed

lemma begin_flush_not_submit:
  "lock (begin_flush ord ByLoop c b) = Some (BySubmit, d, us) \<Longrightarrow> lock b = Some (BySubmit, d, us)"
  by (auto simp: begin_flush_def split: if_splits)

lemma step_calmer:
  assumes inv: "batch_inv cfg b" and "step cfg ord enq b l b'" "internal l"
  shows "calmer b b'"
  using assms(2,3,1)
proof (induction rule: step.induct)
  case (step_wake b c)
  then show ?case
    using finite_tasks by (auto simp: wake_up_def weight_def intro!: goto_calmer)
next
  case (step_assess b c)
  moreover have "cdn_inv cfg b c" using step_assess by (simp add: batch_inv_def)
  ultimately show ?case
    using finite_tasks
    by (auto simp: assess_def Let_def cdn_inv_def weight_def intro!: goto_calmer split: option.splits)
next
  case (step_rearm b c d)
  then show ?case
    using finite_tasks by (auto simp: wake_up_def weight_def intro!: goto_calmer)
next
  case (step_timeout b c d)
  then show ?case
    using finite_tasks by (auto simp: weight_def intro!: goto_calmer)
next
  case (step_flush b c)
  then show ?case
    using finite_tasks
    by (auto simp: loop_flush_def weight_def batch_simps intro!: goto_calmer dest: begin_flush_not_submit)
next
  case (step_finish b w)
  then obtain h c us where l: "lock b = Some (h, c, us)" by auto
  show ?case
  proof (cases h)
    case BySubmit
    have "calmer b b1" if "lock b1 = None" "tasks b1 = tasks b" "wake b1 = wake b" for b1 :: "'a batcher"
    proof -
      have "cdn_activity b1 = cdn_activity b" using that by (simp add: fun_eq_iff cdn_activity_def)
      with that l BySubmit show ?thesis by (simp add: activity_def calmer_def)
    qed
    then show ?thesis using l BySubmit by (auto simp: finish_flush_def split: sum.splits)
  next
    case ByLoop
    with l step_finish have "tasks b c = Some Flushing" by (auto simp: batch_inv_def lock_inv_def)
    with l ByLoop step_finish show ?thesis
      using finite_tasks
      by (auto simp: finish_flush_def weight_def intro!: goto_calmer split: sum.splits)
  qed
qed simp_all

lemma run_calmer:
  assumes "iteration_order ord" "batch_inv cfg b0" "run cfg ord enq b0 ls b" "\<forall>l \<in> set ls. internal l"
  shows "length ls + activity b \<le> activity b0"
  using assms(3,4)
proof induction
  case (run_snoc ls b l b')
  have "batch_inv cfg b" by (rule run_inv [OF assms(1) run_snoc.hyps(1) assms(2)])
  from step_calmer [OF this run_snoc.hyps(2)] run_snoc.IH run_snoc.prems show ?case
    by (simp add: calmer_def)
qed simp

lemma activity_bound:
  assumes "batch_inv cfg b"
  shows "activity b \<le> 9 * length (buffers b) + 1"
proof -
  have r: "pc_rank pc \<le> 4" for pc by (cases pc) simp_all
  have "cdn_activity b c \<le> 9" for c
    using r by (auto simp: cdn_activity_def split: option.splits intro: le_trans [OF r])
  then have "(\<Sum>c \<in> dom (tasks b). cdn_activity b c) \<le> card (dom (tasks b)) * 9"
    using sum_bounded_above [of "dom (tasks b)" "cdn_activity b" 9] by simp
  with finite_tasks [OF assms] show ?thesis
    by (auto simp: activity_def split: option.splits holder.splits)
qed

text \<open>
  C35. Between events the batcher comes to rest: from any reachable state, the debounce tasks and the
  sink together take at most nine steps per CDN and one more before the next URL or the next tick.
\<close>

theorem tasks_come_to_rest:
  assumes "iteration_order ord" "run cfg ord enq (init_batcher q t) ls b"
    and "run cfg ord enq b steps b'" "\<forall>l \<in> set steps. internal l"
  shows "length steps \<le> 9 * length (buffers b) + 1"
proof -
  have inv: "batch_inv cfg b" by (rule run_init_inv [OF assms(1,2)])
  from run_calmer [OF assms(1) inv assms(3,4)] activity_bound [OF inv] show ?thesis by simp
qed

theorem tasks_come_to_rest_witness:
  "\<exists>b. fire_all default_daemon sorted_list_of_set enqueue_sink_op (take 1 sample_schedule)
      (init_batcher sample_db 0) = Some b \<and>
    length [Loop ''fastly'', Loop ''fastly''] \<le> 9 * length (buffers b) + 1"
proof -
  obtain b b' where b: "fire_all default_daemon sorted_list_of_set enqueue_sink_op
      (take 1 sample_schedule) (init_batcher sample_db 0) = Some b"
    "fire_all default_daemon sorted_list_of_set enqueue_sink_op [Loop ''fastly'', Loop ''fastly''] b = Some b'"
    by (simp add: fire_simps)
  from tasks_come_to_rest [OF sorted_order fire_all_run [OF b(1)] fire_all_run [OF b(2)]] b(1)
  show ?thesis by simp
qed

section \<open>Latency\<close>

definition may_tick :: "real \<Rightarrow> 'q batcher \<Rightarrow> bool" where
  "may_tick dt b \<longleftrightarrow> lock b = None \<and>
     (\<forall>c. case tasks b c of
            Some WaitWake \<Rightarrow> wake b c \<noteq> Some True
          | Some (Sleeping d) \<Rightarrow> wake b c \<noteq> Some True \<and> clock b + dt \<le> d
          | Some Assess \<Rightarrow> False
          | Some FlushDue \<Rightarrow> False
          | _ \<Rightarrow> True)"

inductive prompt_run :: "daemon_config \<Rightarrow> set_order \<Rightarrow> 'q sink_op \<Rightarrow> 'q batcher \<Rightarrow> label list \<Rightarrow> 'q batcher \<Rightarrow> bool"
  for cfg ord enq b0 where
  prompt_nil: "prompt_run cfg ord enq b0 [] b0"
| prompt_snoc: "prompt_run cfg ord enq b0 ls b \<Longrightarrow> step cfg ord enq b l b' \<Longrightarrow>
     (\<And>dt. l = Tick dt \<Longrightarrow> may_tick dt b) \<Longrightarrow> prompt_run cfg ord enq b0 (ls @ [l]) b'"

lemma prompt_run_run: "prompt_run cfg ord enq b0 ls b \<Longrightarrow> run cfg ord enq b0 ls b"
  by (induction rule: prompt_run.induct) (auto intro: run.intros)

definition alive :: "'q batcher \<Rightarrow> bool" where
  "alive b \<longleftrightarrow> (\<forall>c. tasks b c \<noteq> Some Dead \<and> tasks b c \<noteq> Some Cancelled)"

definition on_time :: "daemon_config \<Rightarrow> 'q batcher \<Rightarrow> bool" where
  "on_time cfg b \<longleftrightarrow> (\<forall>c f l. buf b c \<noteq> {} \<longrightarrow> first_added b c = Some f \<longrightarrow> last_added b c = Some l \<longrightarrow>
     clock b \<le> due cfg f l)"

lemma step_alive:
  assumes "reliable enq" "step cfg ord enq b l b'" "batch_inv cfg b" "alive b"
  shows "alive b'"
  using assms(2-4)
proof (induction rule: step.induct)
  case (step_submit b t)
  then show ?case
    by (auto simp: alive_def submit_def Let_def batch_simps ensure_task_def split: option.splits)
next
  case (step_assess b c)
  then have "cdn_inv cfg b c" by (simp add: batch_inv_def)
  then have "buf b c \<noteq> {} \<Longrightarrow> \<exists>f l. first_added b c = Some f \<and> last_added b c = Some l"
    by (blast elim: timestamps)
  with step_assess show ?case
    by (cases "buf b c = {}") (auto simp: alive_def assess_def Let_def batch_simps split: if_splits)
next
  case (step_finish b w)
  have "enq w (sink b) c us \<noteq> Inl e" for c us e
    using assms(1) unfolding reliable_def by (metis Inl_Inr_False)
  with step_finish show ?case
    by (auto simp: finish_flush_def alive_def batch_simps split: sum.splits option.splits)
qed (auto simp: alive_def wake_up_def loop_flush_def batch_simps)

lemma begin_flush_on_time: "on_time cfg b \<Longrightarrow> on_time cfg (begin_flush ord h c b)"
  by (auto simp: on_time_def batch_simps begin_flush_def)

lemma on_time_frame:
  assumes "on_time cfg b" "buf b' = buf b" "first_added b' = first_added b"
    "last_added b' = last_added b" "clock b' = clock b"
  shows "on_time cfg b'"
  using assms by (simp add: on_time_def)

lemma add_url_on_time:
  assumes "on_time cfg b" "0 \<le> batch_quiet_window_seconds cfg" "0 \<le> batch_max_age_seconds cfg"
    and "cdn_inv cfg b (cdn_name t)"
  shows "on_time cfg (add_url t b)"
  unfolding on_time_def
proof (intro allI impI)
  fix c f l
  assume h: "buf (add_url t b) c \<noteq> {}" "first_added (add_url t b) c = Some f"
    "last_added (add_url t b) c = Some l"
  show "clock (add_url t b) \<le> due cfg f l"
  proof (cases "c = cdn_name t \<and> buf b c \<noteq> {}")
    case True
    with assms(4) obtain f0 l0 where fl: "first_added b c = Some f0" "last_added b c = Some l0"
      by (blast elim: timestamps)
    with True assms(1) have "clock b \<le> due cfg f0 l0" by (auto simp: on_time_def)
    moreover have "f = f0" "l = clock b" using True h(2,3) fl
      by (simp_all add: add_url_def Let_def split: if_splits)
    ultimately show ?thesis using assms(2) by (simp add: batch_simps due_def)
  next
    case False
    with assms(1-3) h show ?thesis
      by (auto simp: on_time_def add_url_def Let_def due_def buf_def update_conv' split: if_splits)
  qed
qed

lemma step_on_time:
  assumes "step cfg ord enq b l b'" "batch_inv cfg b" "alive b" "on_time cfg b"
    and "0 \<le> batch_quiet_window_seconds cfg" "0 \<le> batch_max_age_seconds cfg"
    and "\<And>dt. l = Tick dt \<Longrightarrow> may_tick dt b"
  shows "on_time cfg b'"
  using assms(1-4,7)
proof (induction rule: step.induct)
  case (step_submit b t)
  let ?b = "ensure_task (cdn_name t) b"
  have "cdn_inv cfg ?b (cdn_name t)"
    using ensure_task_inv [OF step_submit(3)] by (simp add: batch_inv_def)
  moreover have "on_time cfg ?b"
    by (rule on_time_frame [OF step_submit(5)]) (simp_all add: batch_simps)
  ultimately have "on_time cfg (add_url t ?b)" using assms(5,6) by (intro add_url_on_time)
  then show ?case by (simp add: submit_def Let_def begin_flush_on_time)
next
  case (step_tick dt b)
  have tick: "may_tick dt b" by (rule step_tick.prems) simp
  show ?case
    unfolding on_time_def
  proof (intro allI impI)
    fix c f l
    assume h: "buf (b\<lparr>clock := clock b + dt\<rparr>) c \<noteq> {}"
      "first_added (b\<lparr>clock := clock b + dt\<rparr>) c = Some f"
      "last_added (b\<lparr>clock := clock b + dt\<rparr>) c = Some l"
    have inv: "cdn_inv cfg b c" "lock_inv cfg b" using step_tick by (simp_all add: batch_inv_def)
    from h inv(1) have w: "watched cfg b c f l" "tasks b c \<noteq> None"
      by (auto simp: batch_simps cdn_inv_def watched_def)
    from inv(2) tick have "tasks b c \<noteq> Some Flushing" by (auto simp: lock_inv_def may_tick_def)
    moreover from w(2) obtain pc where pc: "tasks b c = Some pc" by auto
    ultimately have "tasks b c = Some (Sleeping (due cfg f l))"
      using w(1) tick step_tick
      by (cases pc) (auto simp: watched_def may_tick_def alive_def dest!: spec [of _ c])
    with tick show "clock (b\<lparr>clock := clock b + dt\<rparr>) \<le> due cfg f l"
      by (auto simp: may_tick_def dest!: spec [of _ c])
  qed
next
  case (step_finish b w)
  then show ?case
    by (auto simp: finish_flush_def on_time_def batch_simps split: option.splits sum.splits)
qed (auto simp: on_time_def batch_simps wake_up_def assess_def Let_def loop_flush_def begin_flush_def
       split: option.splits)

end
