(* ===== verification/Batcher_Latency.thy ===== *)
theory Batcher_Latency
  imports Batcher_Timing
begin

text \<open>
  A submitted URL followed through a run: until it is in the batch being written or in the queue
  (\<open>delivered\<close>) it is in its buffer, whose timestamps bound how long it can stay there.
\<close>

definition delivered :: "('q \<Rightarrow> (string \<times> string) set) \<Rightarrow> string \<Rightarrow> string \<Rightarrow> 'q batcher \<Rightarrow> bool" where
  "delivered store c u b \<longleftrightarrow> (c, u) \<in> pending b \<union> store (sink b)"

definition tracked ::
  "('q \<Rightarrow> (string \<times> string) set) \<Rightarrow> (real \<Rightarrow> real \<Rightarrow> bool) \<Rightarrow> string \<Rightarrow> string \<Rightarrow> 'q batcher \<Rightarrow> bool" where
  \<comment> \<open>delivered, or still in the buffer with timestamps that satisfy \<open>P\<close>\<close>
  "tracked store P c u b \<longleftrightarrow> delivered store c u b \<or>
     (u \<in> buf b c \<and> (\<exists>f l. first_added b c = Some f \<and> last_added b c = Some l \<and> P f l))"

definition keeps :: "(real \<Rightarrow> real \<Rightarrow> bool) \<Rightarrow> string \<Rightarrow> label list \<Rightarrow> bool" where
  \<comment> \<open>the submissions among \<open>ls\<close> cannot falsify \<open>P\<close> for the buffer of \<open>c\<close>\<close>
  "keeps P c ls \<longleftrightarrow> (\<forall>f l l'. P f l \<longrightarrow> P f l') \<or> (\<forall>t. Submit t \<in> set ls \<longrightarrow> cdn_name t \<noteq> c)"

context batch_env
begin

lemma begin_flush_tracked:
  assumes "tracked stored P c u b" "lock b = None" "finite (buf b d)"
  shows "tracked stored P c u (begin_flush ord h d b)"
proof (cases "buf b d = {}")
  case True
  then show ?thesis using assms(1) by (simp add: begin_flush_def)
next
  case False
  have set: "set (ord (buf b d)) = buf b d" by (rule iteration_orderD [OF order assms(3)])
  show ?thesis
  proof (cases "c = d \<and> u \<in> buf b c")
    case True
    then have "(c, u) \<in> pending (begin_flush ord h d b)"
      using set by (auto simp: pending_def begin_flush_lock [OF False])
    then show ?thesis by (simp add: tracked_def delivered_def)
  next
    case other: False
    then show ?thesis
      using assms(1,2) False
      by (auto simp: tracked_def delivered_def pending_def batch_simps) (simp_all add: begin_flush_def)
  qed
qed

lemma submit_tracked:
  assumes "tracked stored P c u b" "batch_inv cfg b" "lock b = None" "keeps P c [Submit t]"
  shows "tracked stored P c u (submit cfg ord t b)"
proof -
  define b' where "b' = add_url t (ensure_task (cdn_name t) b)"
  have "cdn_inv cfg b (cdn_name t)" using assms(2) by (simp add: batch_inv_def)
  then have fin: "finite (buf b' (cdn_name t))" by (simp add: b'_def batch_simps cdn_inv_def)
  have free: "lock b' = None" by (simp add: b'_def batch_simps assms(3))
  have "first_added b' c = first_added b c" if "u \<in> buf b c"
    using that by (auto simp: b'_def add_url_def Let_def batch_simps)
  moreover have "last_added b' c = (if c = cdn_name t then Some (clock b) else last_added b c)"
    by (simp add: b'_def batch_simps)
  moreover have "pending b' = pending b" "sink b' = sink b" "buf b c \<subseteq> buf b' c"
    by (auto simp: b'_def pending_def batch_simps)
  ultimately have "tracked stored P c u b'"
    using assms(1,4) by (auto simp: tracked_def delivered_def keeps_def)
  from begin_flush_tracked [OF this free fin] this show ?thesis
    by (simp add: submit_def Let_def b'_def [symmetric])
qed

lemma finish_tracked:
  assumes "tracked stored P c u b" "reliable enq" "lock b \<noteq> None"
  shows "tracked stored P c u (finish_flush enq w b)"
proof -
  obtain h d us where l: "lock b = Some (h, d, us)" using assms(3) by auto
  obtain q where q: "enq w (sink b) d us = Inr q" using assms(2) unfolding reliable_def by blast
  have "stored q = stored (sink b) \<union> {d} \<times> set us" using q by (rule enq_stored)
  with assms(1) l q show ?thesis
    by (auto simp: tracked_def delivered_def pending_def finish_flush_def batch_simps)
qed

lemma frame_tracked:
  assumes "tracked stored P c u b" "buf b' = buf b" "first_added b' = first_added b"
    "last_added b' = last_added b" "lock b' = lock b" "sink b' = sink b"
  shows "tracked stored P c u b'"
  using assms by (simp add: tracked_def delivered_def pending_def)

lemma quiet_tracked:
  \<comment> \<open>every step but the return of an \<open>enqueue\<close>, on any queue\<close>
  assumes "step cfg ord enq' b l b'" "\<forall>w. l \<noteq> Finish w" "batch_inv cfg b" "keeps P c [l]"
    and "tracked stored P c u b"
  shows "tracked stored P c u b'"
  using assms(1,3-5,2)
proof (induction rule: step.induct)
  case (step_submit b t)
  then show ?case by (simp add: submit_tracked)
next
  case (step_assess b d)
  show ?case
    by (rule frame_tracked [OF step_assess(5)])
      (simp_all add: assess_def Let_def batch_simps split: option.splits)
next
  case (step_flush b d)
  have "finite (buf b d)" using step_flush by (simp add: batch_inv_def cdn_inv_def)
  from begin_flush_tracked [OF step_flush(5) step_flush(2) this, of ByLoop]
  have "tracked stored P c u (goto d Flushing (begin_flush ord ByLoop d b))"
    by (rule frame_tracked) (simp_all add: batch_simps)
  moreover have "tracked stored P c u (goto d WaitWake b)"
    by (rule frame_tracked [OF step_flush(5)]) (simp_all add: batch_simps)
  ultimately show ?case by (simp add: loop_flush_def)
qed (auto elim!: frame_tracked simp: wake_up_def batch_simps)

lemma step_tracked:
  assumes "step cfg ord enq b l b'" "reliable enq" "batch_inv cfg b" "keeps P c [l]"
    and "tracked stored P c u b"
  shows "tracked stored P c u b'"
proof (cases "\<exists>w. l = Finish w")
  case True
  then obtain w where "lock b \<noteq> None" "b' = finish_flush enq w b" using assms(1) by (auto elim: step_FinishE)
  then show ?thesis using finish_tracked [OF assms(5,2)] by simp
next
  case False
  then show ?thesis using quiet_tracked [OF assms(1) _ assms(3-5)] by blast
qed

lemma submit_starts:
  assumes "batch_inv cfg b" "lock b = None" "\<And>f. f \<le> clock b \<Longrightarrow> P f (clock b)"
  shows "tracked stored P (cdn_name t) (url t) (submit cfg ord t b)"
proof -
  let ?c = "cdn_name t"
  define b' where "b' = add_url t (ensure_task ?c b)"
  have inv: "cdn_inv cfg (ensure_task ?c b) ?c"
    using ensure_task_inv [OF assms(1)] by (simp add: batch_inv_def)
  then have fin: "finite (buf b' ?c)" by (simp add: b'_def batch_simps cdn_inv_def)
  have free: "lock b' = None" by (simp add: b'_def batch_simps assms(2))
  have "\<exists>f. first_added b' ?c = Some f \<and> f \<le> clock b"
  proof (cases "buf b ?c = {}")
    case True
    then show ?thesis by (simp add: b'_def add_url_def Let_def batch_simps)
  next
    case False
    with inv obtain f l where "first_added b ?c = Some f" "f \<le> l" "l \<le> clock b"
      by (metis timestamps ensure_task_sel(1-4))
    with False show ?thesis by (simp add: b'_def add_url_def Let_def batch_simps)
  qed
  then have "tracked stored P ?c (url t) b'"
    using assms(3) by (auto simp: tracked_def b'_def batch_simps)
  from begin_flush_tracked [OF this free fin] this show ?thesis
    by (simp add: submit_def Let_def b'_def [symmetric])
qed

lemma prompt_tracked:
  assumes "prompt_run cfg ord enq b0 ls b" "reliable enq" "batch_inv cfg b0" "alive b0" "on_time cfg b0"
    and "0 \<le> batch_quiet_window_seconds cfg" "0 \<le> batch_max_age_seconds cfg"
    and "keeps P c ls" "tracked stored P c u b0"
  shows "batch_inv cfg b \<and> alive b \<and> on_time cfg b \<and> tracked stored P c u b"
  using assms(1,8)
proof induction
  case (prompt_snoc ls b l b')
  have "keeps P c ls" "keeps P c [l]" using prompt_snoc.prems by (auto simp: keeps_def)
  with prompt_snoc.IH have b: "batch_inv cfg b" "alive b" "on_time cfg b" "tracked stored P c u b"
    by auto
  note s = prompt_snoc.hyps(2)
  have "on_time cfg b'" by (rule step_on_time [OF s b(1-3) assms(6,7) prompt_snoc.hyps(3)])
  then show ?case
    using step_inv [OF order s b(1)] step_alive [OF assms(2) s b(1,2)]
      step_tracked [OF s assms(2) b(1) \<open>keeps P c [l]\<close> b(4)] by blast
qed (use assms in simp)

lemma late_delivered:
  assumes "tracked stored P c u b" "on_time cfg b"
    and "\<And>f l. P f l \<Longrightarrow> due cfg f l < clock b"
  shows "delivered stored c u b"
  using assms by (fastforce simp: tracked_def on_time_def)

end

lemma init_alive: "alive (init_batcher q t) \<and> on_time cfg (init_batcher q t)"
  by (simp add: alive_def on_time_def init_batcher_def buf_def)

lemma prompt_reaches:
  assumes "iteration_order ord" "prompt_run cfg ord enqueue_sink_op (init_batcher d t) ls b"
    and "0 \<le> batch_quiet_window_seconds cfg" "0 \<le> batch_max_age_seconds cfg"
  shows "batch_inv cfg b \<and> alive b \<and> on_time cfg b"
  using assms(2)
proof induction
  case prompt_nil
  show ?case by (simp add: batch_inv_init init_alive)
next
  case (prompt_snoc ls b l b')
  then show ?case
    using step_inv [OF assms(1)] step_alive [OF jq_reliable] step_on_time [OF _ _ _ _ assms(3,4)]
    by blast
qed

lemma prompt_delivers:
  assumes ord: "iteration_order ord"
    and cfg: "0 \<le> batch_quiet_window_seconds cfg" "0 \<le> batch_max_age_seconds cfg"
    and "prompt_run cfg ord enqueue_sink_op (init_batcher d t0) ls1 b1"
    and "step cfg ord enqueue_sink_op b1 (Submit t) b2"
    and "prompt_run cfg ord enqueue_sink_op b2 ls2 b3"
    and P: "keeps P (cdn_name t) ls2" "\<And>f. f \<le> clock b2 \<Longrightarrow> P f (clock b2)"
      "\<And>f l. P f l \<Longrightarrow> due cfg f l < clock b3"
  shows "delivered stored (cdn_name t) (url t) b3"
proof -
  note env = jq_env [OF ord]
  have b1: "batch_inv cfg b1" "alive b1" "on_time cfg b1"
    using prompt_reaches [OF ord assms(4) cfg] by simp_all
  have b2: "batch_inv cfg b2" "alive b2" "on_time cfg b2"
    using step_inv [OF ord assms(5) b1(1)] step_alive [OF jq_reliable assms(5) b1(1,2)]
      step_on_time [OF assms(5) b1 cfg] by simp_all
  from assms(5) have s: "b2 = submit cfg ord t b1" "lock b1 = None" by (auto elim: step_SubmitE)
  have "clock b2 = clock b1" by (simp add: s(1) submit_def Let_def batch_simps)
  with P(2) batch_env.submit_starts [OF env b1(1) s(2), of P t]
  have "tracked stored P (cdn_name t) (url t) b2" by (simp add: s(1))
  from batch_env.prompt_tracked [OF env assms(6) jq_reliable b2 cfg P(1) this]
  show ?thesis using batch_env.late_delivered [OF env _ _ P(3)] by blast
qed

text \<open>
  C7. Latency: on the persistent queue, with tasks that run promptly, a URL that is submitted is in
  the batch being written or in a job as soon as the age cap has passed since its submission,
  whatever else is submitted; and as soon as the quiet window has passed, when nothing else is
  submitted for its CDN meanwhile. Traffic for other CDNs makes no difference.
\<close>

theorem delivered_in_time:
  assumes "iteration_order ord" "0 \<le> batch_quiet_window_seconds cfg" "0 \<le> batch_max_age_seconds cfg"
    and "prompt_run cfg ord enqueue_sink_op (init_batcher d t0) ls1 b1"
    and "step cfg ord enqueue_sink_op b1 (Submit t) b2"
    and "prompt_run cfg ord enqueue_sink_op b2 ls2 b3"
    and late: "clock b2 + batch_max_age_seconds cfg < clock b3 \<or>
      (\<forall>t'. Submit t' \<in> set ls2 \<longrightarrow> cdn_name t' \<noteq> cdn_name t) \<and>
        clock b2 + batch_quiet_window_seconds cfg < clock b3"
  shows "(cdn_name t, url t) \<in> pending b3 \<union> stored (sink b3)"
proof -
  note deliver = prompt_delivers [OF assms(1-6)]
  have "delivered stored (cdn_name t) (url t) b3"
    using late
  proof
    assume "clock b2 + batch_max_age_seconds cfg < clock b3"
    then show ?thesis
      by (intro deliver [of "\<lambda>f l. f \<le> clock b2"]) (auto simp: keeps_def due_def)
  next
    assume "(\<forall>t'. Submit t' \<in> set ls2 \<longrightarrow> cdn_name t' \<noteq> cdn_name t) \<and>
        clock b2 + batch_quiet_window_seconds cfg < clock b3"
    then show ?thesis
      by (intro deliver [of "\<lambda>f l. l \<le> clock b2"]) (auto simp: keeps_def due_def)
  qed
  then show ?thesis by (simp add: delivered_def)
qed

fun prompt_all :: "daemon_config \<Rightarrow> set_order \<Rightarrow> 'q sink_op \<Rightarrow> label list \<Rightarrow> 'q batcher \<Rightarrow> 'q batcher option" where
  "prompt_all cfg ord enq [] b = Some b"
| "prompt_all cfg ord enq (l # ls) b =
     (if (case l of Tick dt \<Rightarrow> may_tick dt b | _ \<Rightarrow> True)
      then Option.bind (fire cfg ord enq l b) (prompt_all cfg ord enq ls) else None)"

lemma prompt_all_run:
  "prompt_all cfg ord enq ls b = Some b' \<Longrightarrow> prompt_run cfg ord enq b0 ls0 b \<Longrightarrow>
     prompt_run cfg ord enq b0 (ls0 @ ls) b'"
proof (induction ls arbitrary: b ls0)
  case (Cons l ls)
  from Cons.prems(1) obtain b1 where b1: "fire cfg ord enq l b = Some b1"
    "prompt_all cfg ord enq ls b1 = Some b'" "\<And>dt. l = Tick dt \<Longrightarrow> may_tick dt b"
    by (cases l) (auto simp: bind_eq_Some_conv split: if_splits)
  from prompt_snoc [OF Cons.prems(2) fire_step [OF b1(1)] b1(3)]
  have "prompt_run cfg ord enq b0 (ls0 @ [l]) b1" .
  from Cons.IH [OF b1(2) this] show ?case by simp
qed simp

theorem delivered_in_time_witness:
  "\<exists>b. fire_all default_daemon sorted_list_of_set enqueue_sink_op
      (sample_schedule @ [Finish 10, Tick 1]) (init_batcher sample_db 0) = Some b \<and>
    (''fastly'', ''u'') \<in> pending b \<union> stored (sink b)"
proof -
  let ?t = "sample_target ''u''"
  let ?b0 = "init_batcher sample_db 0"
  let ?b1 = "submit default_daemon sorted_list_of_set ?t ?b0"
  let ?ls = "tl sample_schedule @ [Finish 10, Tick 1]"
  obtain b2 where b2: "prompt_all default_daemon sorted_list_of_set enqueue_sink_op ?ls ?b1 = Some b2"
    "fire_all default_daemon sorted_list_of_set enqueue_sink_op
      (sample_schedule @ [Finish 10, Tick 1]) ?b0 = Some b2" "clock b2 = 11"
    by (simp add: fire_simps may_tick_def enqueue_sink_op_def)
  have "step default_daemon sorted_list_of_set enqueue_sink_op ?b0 (Submit ?t) ?b1"
    by (rule step_submit) (simp_all add: init_batcher_def)
  from delivered_in_time [OF sorted_order _ _ prompt_nil this prompt_all_run [OF b2(1) prompt_nil]]
  have "(cdn_name ?t, url ?t) \<in> pending b2 \<union> stored (sink b2)"
    using b2(3) by (simp add: fire_simps)
  with b2(2) show ?thesis by (simp add: sample_target_def)
qed

end
