(* ===== verification/Worker_Timing.thy ===== *)
theory Worker_Timing
  imports Worker_Progress
begin

text \<open>
  The workers with a clock: a worker that finds no job sleeps, one that has recorded a result claims the
  next job at once. The clock stands for \<open>time.time\<close> and the clock of the event loop. The workers are
  prompt: time passes only while each of them sleeps or awaits its provider.
\<close>

definition worker_idle_poll_seconds :: real where
  "worker_idle_poll_seconds = 0.2"

record 'p timed_workers =
  tw_sys :: "'p system"
  tw_clock :: real
  tw_wake :: "string \<Rightarrow> real" \<comment> \<open>when the sleep of the worker of a CDN ends\<close>
  tw_started :: real \<comment> \<open>the last start of the daemon\<close>

datatype 'w timed_label = Act "'w action" | Wait real

fun stamped :: "real \<Rightarrow> 'w action \<Rightarrow> bool" where
  \<comment> \<open>an action that reads the time reads this one\<close>
  "stamped t (Poll c now) \<longleftrightarrow> now = t"
| "stamped t (Settle c w now) \<longleftrightarrow> now = t"
| "stamped t (Put c us now) \<longleftrightarrow> now = t"
| "stamped t (ClaimRaises c now landed e) \<longleftrightarrow> now = t"
| "stamped t (RecordRaises c w now landed e) \<longleftrightarrow> now = t"
| "stamped t Restart \<longleftrightarrow> True"
| "stamped t (Abort e) \<longleftrightarrow> True"

fun at_point :: "'p timed_workers \<Rightarrow> 'w action \<Rightarrow> bool" where
  \<comment> \<open>the worker is at this point of its loop\<close>
  "at_point s (Poll c now) \<longleftrightarrow>
     providers (tw_sys s) c \<noteq> None \<and> in_hand (tw_sys s) c = None \<and> tw_wake s c \<le> tw_clock s"
| "at_point s (ClaimRaises c now landed e) \<longleftrightarrow>
     providers (tw_sys s) c \<noteq> None \<and> in_hand (tw_sys s) c = None \<and> tw_wake s c \<le> tw_clock s"
| "at_point s (Settle c w now) \<longleftrightarrow> providers (tw_sys s) c \<noteq> None \<and> in_hand (tw_sys s) c \<noteq> None"
| "at_point s (RecordRaises c w now landed e) \<longleftrightarrow> providers (tw_sys s) c \<noteq> None \<and> in_hand (tw_sys s) c \<noteq> None"
| "at_point s a \<longleftrightarrow> True"

fun next_wake :: "'w action \<Rightarrow> 'p system \<Rightarrow> real \<Rightarrow> (string \<Rightarrow> real) \<Rightarrow> string \<Rightarrow> real" where
  \<comment> \<open>a claim that finds nothing is followed by the sleep, a recorded result by the next claim\<close>
  "next_wake (Poll c now) y t k = (if in_hand y c = None then k(c := t + worker_idle_poll_seconds) else k)"
| "next_wake (Settle c w now) y t k = k(c := t)"
| "next_wake Restart y t k = (\<lambda>c. t)"
| "next_wake a y t k = k"

definition may_wait :: "real \<Rightarrow> 'p timed_workers \<Rightarrow> bool" where
  "may_wait dt s \<longleftrightarrow> crashed (tw_sys s) \<noteq> None \<or>
     (\<forall>c. providers (tw_sys s) c \<noteq> None \<longrightarrow> in_hand (tw_sys s) c = None \<longrightarrow> tw_clock s + dt \<le> tw_wake s c)"

inductive timed_step ::
  "('w \<Rightarrow> 'p \<Rightarrow> string list \<Rightarrow> 'p \<times> purge_result res) \<Rightarrow> (exn \<Rightarrow> string) \<Rightarrow> retry_config \<Rightarrow>
   (string \<Rightarrow> 'p option) \<Rightarrow> 'p timed_workers \<Rightarrow> 'w timed_label \<Rightarrow> 'p timed_workers \<Rightarrow> bool" for purge str cfg fresh where
  timed_act: "stamped (tw_clock s) a \<Longrightarrow> at_point s a \<Longrightarrow> y = sys_step purge str cfg fresh a (tw_sys s) \<Longrightarrow>
     timed_step purge str cfg fresh s (Act a)
       \<lparr>tw_sys = y, tw_clock = tw_clock s, tw_wake = next_wake a y (tw_clock s) (tw_wake s),
        tw_started = (case a of Restart \<Rightarrow> tw_clock s | _ \<Rightarrow> tw_started s)\<rparr>"
| timed_wait: "0 \<le> dt \<Longrightarrow> may_wait dt s \<Longrightarrow>
     timed_step purge str cfg fresh s (Wait dt) (s\<lparr>tw_clock := tw_clock s + dt\<rparr>)"

inductive timed_run ::
  "('w \<Rightarrow> 'p \<Rightarrow> string list \<Rightarrow> 'p \<times> purge_result res) \<Rightarrow> (exn \<Rightarrow> string) \<Rightarrow> retry_config \<Rightarrow>
   (string \<Rightarrow> 'p option) \<Rightarrow> 'p timed_workers \<Rightarrow> 'w timed_label list \<Rightarrow> 'p timed_workers \<Rightarrow> bool"
  for purge str cfg fresh s0 where
  timed_nil: "timed_run purge str cfg fresh s0 [] s0"
| timed_snoc: "timed_run purge str cfg fresh s0 ls s \<Longrightarrow> timed_step purge str cfg fresh s l s' \<Longrightarrow>
     timed_run purge str cfg fresh s0 (ls @ [l]) s'"

definition timed_start :: "(string \<Rightarrow> 'p option) \<Rightarrow> db \<Rightarrow> real \<Rightarrow> 'p timed_workers" where
  "timed_start fresh d t = \<lparr>tw_sys = boot fresh d [], tw_clock = t, tw_wake = (\<lambda>c. t), tw_started = t\<rparr>"

inductive_cases timed_WaitE: "timed_step purge str cfg fresh s (Wait dt) s'"

section \<open>The invariant\<close>

text \<open>A worker that sleeps wakes up within the idle time after the first moment any of its jobs is due.\<close>

definition due_from :: "'p timed_workers \<Rightarrow> job_row \<Rightarrow> real" where
  "due_from s r = max (next_attempt_at r) (tw_started s)"

definition worker_inv :: "'p timed_workers \<Rightarrow> string \<Rightarrow> bool" where
  "worker_inv s c \<longleftrightarrow> tw_clock s \<le> tw_wake s c \<and> tw_wake s c \<le> tw_clock s + worker_idle_poll_seconds \<and>
     (\<forall>i r. row_of (store (tw_sys s)) i = Some r \<longrightarrow> row_cdn r = c \<longrightarrow> status r = Pending \<longrightarrow>
        tw_wake s c \<le> tw_clock s \<or> tw_wake s c \<le> due_from s r + worker_idle_poll_seconds)"

definition timed_inv :: "'p timed_workers \<Rightarrow> bool" where
  "timed_inv s \<longleftrightarrow> sys_inv (tw_sys s) \<and> (crashed (tw_sys s) = None \<longrightarrow>
     (\<forall>c. providers (tw_sys s) c \<noteq> None \<longrightarrow> in_hand (tw_sys s) c = None \<longrightarrow> worker_inv s c))"

lemma idle_pos: "0 < worker_idle_poll_seconds"
  by (simp add: worker_idle_poll_seconds_def)

lemma worker_inv_mono:
  \<comment> \<open>the jobs of \<open>c\<close> that are pending afterwards were pending before, or are not due before now\<close>
  assumes "worker_inv s c" "tw_wake s' c = tw_wake s c" "tw_clock s' = tw_clock s" "tw_started s' = tw_started s"
    and "\<And>i r. row_of (store (tw_sys s')) i = Some r \<Longrightarrow> row_cdn r = c \<Longrightarrow> status r = Pending \<Longrightarrow>
      row_of (store (tw_sys s)) i = Some r \<or> tw_clock s \<le> next_attempt_at r"
  shows "worker_inv s' c"
proof -
  have "tw_wake s' c \<le> tw_clock s' \<or> tw_wake s' c \<le> due_from s' r + worker_idle_poll_seconds"
    if r: "row_of (store (tw_sys s')) i = Some r" "row_cdn r = c" "status r = Pending" for i r
    using assms(5) [OF r]
  proof
    assume "row_of (store (tw_sys s)) i = Some r"
    with assms(1-4) r(2,3) show ?thesis by (auto simp: worker_inv_def due_from_def)
  next
    assume "tw_clock s \<le> next_attempt_at r"
    then show ?thesis using assms(1-4) by (auto simp: worker_inv_def due_from_def)
  qed
  with assms(1-4) show ?thesis by (auto simp: worker_inv_def)
qed

lemma worker_inv_now:
  "tw_wake s c = tw_clock s \<Longrightarrow> worker_inv s c"
  using idle_pos by (simp add: worker_inv_def)

lemma poll_finds_nothing:
  assumes "sys_inv s" "providers s c \<noteq> None" "in_hand (poll c now s) c = None"
    and "row_of (store s) i = Some r" "row_cdn r = c" "status r = Pending"
  shows "now < next_attempt_at r"
proof -
  note wf = sys_invD(1) [OF assms(1)]
  have none: "in_hand s c = None" using assms(3) by (auto simp: poll_def split: if_splits)
  show ?thesis
  proof (cases "select_ready now c (store s)")
    case None
    then show ?thesis using assms(4-6) by (auto simp: select_ready_None dest!: row_of_id)
  next
    case (Some x)
    from claim_ready_Some [OF wf Some] none assms(2,3) show ?thesis by (auto simp: poll_def)
  qed
qed

lemma poll_worker_inv:
  assumes "timed_inv s" "crashed (tw_sys s) = None" "at_point s (Poll d (tw_clock s))"
    and "y = poll d (tw_clock s) (tw_sys s)"
    and "providers y c \<noteq> None" "in_hand y c = None"
    and s': "tw_sys s' = y" "tw_clock s' = tw_clock s" "tw_started s' = tw_started s"
      "tw_wake s' = next_wake (Poll d (tw_clock s)) y (tw_clock s) (tw_wake s)"
  shows "worker_inv s' c"
proof -
  have inv: "sys_inv (tw_sys s)" and d: "providers (tw_sys s) d \<noteq> None" "in_hand (tw_sys s) d = None"
    using assms(1,3) by (simp_all add: timed_inv_def)
  have row: "row_of (store (tw_sys s)) i = Some r"
    if "row_of (store y) i = Some r" "status r = Pending" for i r
    using that by (cases rule: poll_cases [OF inv, of d "tw_clock s"]) (auto simp: assms(4) split: if_splits)
  have p: "providers y = providers (tw_sys s)" "in_hand y c = None \<Longrightarrow> in_hand (tw_sys s) c = None"
    by (cases rule: poll_cases [OF inv, of d "tw_clock s"]; simp add: assms(4) split: if_splits)+
  show ?thesis
  proof (cases "c = d")
    case False
    have "worker_inv s c" using assms(1,2,5,6) p by (simp add: timed_inv_def)
    then show ?thesis by (rule worker_inv_mono) (use False row in \<open>auto simp: s'\<close>)
  next
    case True
    then have w: "tw_wake s' c = tw_clock s + worker_idle_poll_seconds" using assms(6) by (simp add: s')
    have late: "tw_clock s < next_attempt_at r"
      if r: "row_of (store y) i = Some r" "row_cdn r = c" "status r = Pending" for i r
      using poll_finds_nothing [OF inv d(1) _ row [OF r(1,3)]] r assms(4,6) True by simp
    have "tw_wake s' c \<le> due_from s' r + worker_idle_poll_seconds"
      if "row_of (store y) i = Some r" "row_cdn r = c" "status r = Pending" for i r
      using late [OF that] by (simp add: w due_from_def)
    then show ?thesis using idle_pos by (simp add: worker_inv_def w s'(1,2))
  qed
qed

lemma settle_worker_inv:
  assumes "timed_inv s" "crashed (tw_sys s) = None" "at_point s (Settle d w (tw_clock s))"
    and "y = settle purge str cfg d w (tw_clock s) (tw_sys s)" "crashed y = None"
    and "providers y c \<noteq> None" "in_hand y c = None"
    and s': "tw_sys s' = y" "tw_clock s' = tw_clock s" "tw_started s' = tw_started s"
      "tw_wake s' = next_wake (Settle d w (tw_clock s)) y (tw_clock s) (tw_wake s)"
  shows "worker_inv s' c"
proof (cases "c = d")
  case True
  then show ?thesis by (intro worker_inv_now) (simp add: s')
next
  case False
  have inv: "sys_inv (tw_sys s)" using assms(1) by (simp add: timed_inv_def)
  have keep: "providers (tw_sys s) c \<noteq> None \<and> in_hand (tw_sys s) c = None \<and>
      (\<forall>i r. row_of (store y) i = Some r \<longrightarrow> row_cdn r = c \<longrightarrow> row_of (store (tw_sys s)) i = Some r)"
  proof (cases rule: settle_cases [OF inv, of purge str cfg d w "tw_clock s"])
    case 3: (3 j p p' r e l x z)
    have "row_cdn z = d" using settled_row_id [OF 3(14)] 3(10) by simp
    with False assms(6,7) 3(13) show ?thesis by (auto simp: assms(4) 3(4))
  qed (use assms(4-7) in auto)
  then have "worker_inv s c" using assms(1,2) by (simp add: timed_inv_def)
  then show ?thesis by (rule worker_inv_mono) (use False keep in \<open>auto simp: s'\<close>)
qed

lemma timed_step_inv:
  assumes "timed_step purge str cfg fresh s l s'" "timed_inv s"
  shows "timed_inv s'"
  using assms
proof cases
  case (timed_act a y)
  have inv: "sys_inv (tw_sys s)" using assms(2) by (simp add: timed_inv_def)
  have sys: "sys_inv y" unfolding timed_act(5) by (rule sys_step_inv [OF inv])
  have "worker_inv s' c" if c: "crashed y = None" "providers y c \<noteq> None" "in_hand y c = None" for c
  proof (cases a)
    case (Poll d now)
    with timed_act c have "crashed (tw_sys s) = None" by (auto split: if_splits)
    with poll_worker_inv [OF assms(2) this, of d y c s'] timed_act c Poll show ?thesis by simp
  next
    case (Settle d w now)
    with timed_act c have "crashed (tw_sys s) = None" by (auto split: if_splits)
    with settle_worker_inv [OF assms(2) this, of d w y purge str cfg c s'] timed_act c Settle show ?thesis by simp
  next
    case (Put d us now)
    have "worker_inv s c" using assms(2) c by (simp add: timed_act(5) Put timed_inv_def)
    then show ?thesis
      by (rule worker_inv_mono)
         (use put_row(2) [OF sys_invD(1) [OF inv], of now d us] timed_act Put in \<open>auto split: if_splits\<close>)
  next
    case Restart
    then show ?thesis by (intro worker_inv_now) (simp add: timed_act(2))
  next
    case (ClaimRaises d now landed e)
    then show ?thesis using timed_act c by (auto simp: claim_raises_def split: if_splits)
  next
    case (RecordRaises d w now landed e)
    then show ?thesis using timed_act c by (auto simp: record_raises_def split: if_splits sum.splits prod.splits)
  next
    case (Abort e)
    then show ?thesis using timed_act c by (auto split: if_splits)
  qed
  then show ?thesis using sys by (simp add: timed_inv_def timed_act(2))
next
  case (timed_wait dt)
  have "worker_inv s' c" if "worker_inv s c" "tw_clock s + dt \<le> tw_wake s c" for c
    using that timed_wait(3) by (fastforce simp: worker_inv_def due_from_def timed_wait(2))
  with assms(2) timed_wait show ?thesis by (auto simp: timed_inv_def may_wait_def)
qed

lemma timed_start_inv: "wf_db d \<Longrightarrow> timed_inv (timed_start fresh d t)"
  by (simp add: timed_inv_def timed_start_def boot_inv worker_inv_now)

lemma timed_run_inv: "timed_run purge str cfg fresh s0 ls s \<Longrightarrow> timed_inv s0 \<Longrightarrow> timed_inv s"
  by (induction rule: timed_run.induct) (auto intro: timed_step_inv)

section \<open>Promptness\<close>

text \<open>
  C10. With prompt workers a job does not lie around: whenever time passes while a job of a CDN is
  pending, a purge of that CDN is under way, or the job has been due (by its next attempt, or since the
  daemon started) for at most 0.2 seconds.
\<close>

theorem claimed_promptly:
  assumes "wf_db d" "timed_run purge str cfg fresh (timed_start fresh d t) ls s"
    and "timed_step purge str cfg fresh s (Wait dt) s'" "0 < dt" "crashed (tw_sys s) = None"
    and "providers (tw_sys s) c \<noteq> None"
    and "row_of (store (tw_sys s)) i = Some r" "row_cdn r = c" "status r = Pending"
  shows "in_hand (tw_sys s) c \<noteq> None \<or> tw_clock s' \<le> max (next_attempt_at r) (tw_started s) + 0.2"
proof (cases "in_hand (tw_sys s) c")
  case None
  have "timed_inv s" by (rule timed_run_inv [OF assms(2) timed_start_inv [OF assms(1)]])
  with None assms(5,6) have "worker_inv s c" by (simp add: timed_inv_def)
  moreover from assms(3) obtain s': "s' = s\<lparr>tw_clock := tw_clock s + dt\<rparr>" and "may_wait dt s"
    by (rule timed_WaitE)
  moreover from this(2) None assms(5,6) have "tw_clock s + dt \<le> tw_wake s c" by (simp add: may_wait_def)
  ultimately show ?thesis using assms(4,7-9)
    by (fastforce simp: worker_inv_def due_from_def worker_idle_poll_seconds_def)
qed simp

text \<open>
  Promptness never stops the clock: from every state of a run the workers that are due can make their
  claims, after which time can pass.
\<close>

definition at_claim :: "'p timed_workers \<Rightarrow> string set" where
  "at_claim s = {c. providers (tw_sys s) c \<noteq> None \<and> in_hand (tw_sys s) c = None \<and> tw_wake s c \<le> tw_clock s}"

lemma poll_leaves:
  assumes "sys_inv s"
  shows "crashed (poll c now s) = crashed s" "providers (poll c now s) = providers s"
    "c' \<noteq> c \<Longrightarrow> in_hand (poll c now s) c' = in_hand s c'" "in_hand (poll c now s) c' = None \<Longrightarrow> in_hand s c' = None"
  by (cases rule: poll_cases [OF assms, of c now]; simp split: if_splits)+

lemma claim_one:
  fixes purge :: "'w \<Rightarrow> 'p \<Rightarrow> string list \<Rightarrow> 'p \<times> purge_result res"
  assumes "timed_inv s" "crashed (tw_sys s) = None" "c \<in> at_claim s"
  shows "\<exists>s'. timed_step purge str cfg fresh s (Act (Poll c (tw_clock s))) s' \<and> timed_inv s' \<and>
    crashed (tw_sys s') = None \<and> providers (tw_sys s') = providers (tw_sys s) \<and> tw_clock s' = tw_clock s \<and>
    at_claim s' = at_claim s - {c}"
proof -
  let ?y = "poll c (tw_clock s) (tw_sys s)"
  let ?s = "\<lparr>tw_sys = ?y, tw_clock = tw_clock s,
    tw_wake = next_wake (Poll c (tw_clock s) :: 'w action) ?y (tw_clock s) (tw_wake s), tw_started = tw_started s\<rparr>"
  have inv: "sys_inv (tw_sys s)" using assms(1) by (simp add: timed_inv_def)
  have step: "timed_step purge str cfg fresh s (Act (Poll c (tw_clock s))) ?s"
    using assms(2,3) timed_act [of s "Poll c (tw_clock s)" ?y purge str cfg fresh] by (simp add: at_claim_def)
  have "at_claim ?s = at_claim s - {c}"
    using poll_leaves [OF inv, where c = c and now = "tw_clock s"] idle_pos
    by (auto simp: at_claim_def split: if_splits)
  with step timed_step_inv [OF step assms(1)] poll_leaves(1,2) [OF inv, of c "tw_clock s"] assms(2)
  show ?thesis by (intro exI [of _ ?s]) simp
qed

lemma claim_all:
  assumes "finite (at_claim s)" "timed_run purge str cfg fresh s0 ls s" "timed_inv s" "crashed (tw_sys s) = None"
  shows "\<exists>ls' s'. timed_run purge str cfg fresh s0 (ls @ ls') s' \<and> timed_inv s' \<and> crashed (tw_sys s') = None \<and>
    providers (tw_sys s') = providers (tw_sys s) \<and> at_claim s' = {}"
  using assms
proof (induction "at_claim s" arbitrary: s ls rule: finite_psubset_induct)
  case psubset
  show ?case
  proof (cases "at_claim s = {}")
    case True
    with psubset.prems show ?thesis by (intro exI [of _ "[]"]) auto
  next
    case False
    then obtain c where "c \<in> at_claim s" by blast
    with claim_one [OF psubset.prems(2,3), of c purge str cfg fresh] obtain s1 where
      s1: "timed_step purge str cfg fresh s (Act (Poll c (tw_clock s))) s1" "timed_inv s1"
      "crashed (tw_sys s1) = None" "providers (tw_sys s1) = providers (tw_sys s)" "at_claim s1 \<subset> at_claim s"
      by blast
    from psubset.hyps(2) [OF s1(5) timed_snoc [OF psubset.prems(1) s1(1)] s1(2,3)] s1(4) show ?thesis by fastforce
  qed
qed

lemma time_goes_on:
  assumes "timed_run purge str cfg fresh s0 ls s" "timed_inv s" "finite (dom (providers (tw_sys s)))"
  shows "\<exists>ls' s' dt. timed_run purge str cfg fresh s0 (ls @ ls') s' \<and> 0 < dt \<and> may_wait dt s'"
proof (cases "crashed (tw_sys s)")
  case (Some e)
  with assms(1) show ?thesis by (intro exI [of _ "[]"] exI [of _ s] exI [of _ 1]) (simp add: may_wait_def)
next
  case None
  have "at_claim s \<subseteq> dom (providers (tw_sys s))" by (auto simp: at_claim_def)
  from claim_all [OF finite_subset [OF this assms(3)] assms(1,2) None] obtain ls' s' where
    s': "timed_run purge str cfg fresh s0 (ls @ ls') s'" "crashed (tw_sys s') = None"
    "providers (tw_sys s') = providers (tw_sys s)" "at_claim s' = {}" by blast
  define W where "W = (\<lambda>c. tw_wake s' c - tw_clock s') ` {c \<in> dom (providers (tw_sys s)). in_hand (tw_sys s') c = None}"
  have fin: "finite (insert 1 W)" using assms(3) by (simp add: W_def)
  have "tw_clock s' < tw_wake s' c" if "providers (tw_sys s) c \<noteq> None" "in_hand (tw_sys s') c = None" for c
  proof -
    have "c \<notin> at_claim s'" using s'(4) by simp
    with that s'(3) show ?thesis by (auto simp: at_claim_def)
  qed
  then have "0 < x" if "x \<in> insert 1 W" for x
    using that by (auto simp: W_def)
  then have "0 < Min (insert 1 W)" using fin by simp
  moreover have "may_wait (Min (insert 1 W)) s'"
    unfolding may_wait_def
  proof (intro disjI2 allI impI)
    fix c assume "providers (tw_sys s') c \<noteq> None" "in_hand (tw_sys s') c = None"
    then have "tw_wake s' c - tw_clock s' \<in> insert 1 W" by (auto simp: W_def s'(3) dom_def)
    from Min_le [OF fin this] show "tw_clock s' + Min (insert 1 W) \<le> tw_wake s' c" by linarith
  qed
  ultimately show ?thesis using s'(1) by blast
qed

section \<open>A run with a clock\<close>

definition sample_idle :: "provider_world action list" where
  "sample_idle = [Poll ''f'' 0, Put ''f'' [''https://repo.x/a''] 0]"

definition sample_timed :: "provider timed_workers" where
  \<comment> \<open>a batch arrives just after the worker has gone to sleep\<close>
  "sample_timed = \<lparr>tw_sys = sample_end sample_idle, tw_clock = 0, tw_wake = (\<lambda>c. 0)(''f'' := 0.2), tw_started = 0\<rparr>"

lemma timed_actI:
  assumes "stamped (tw_clock s) a" "at_point s a"
    and "s' = \<lparr>tw_sys = sys_step purge str cfg fresh a (tw_sys s), tw_clock = tw_clock s,
      tw_wake = next_wake a (sys_step purge str cfg fresh a (tw_sys s)) (tw_clock s) (tw_wake s),
      tw_started = (case a of Restart \<Rightarrow> tw_clock s | _ \<Rightarrow> tw_started s)\<rparr>"
  shows "timed_step purge str cfg fresh s (Act a) s'"
  unfolding assms(3) by (rule timed_act [OF assms(1,2) refl])

lemma sample_timed_run:
  "timed_run provider_purge (\<lambda>e. []) default_retry sample_providers (timed_start sample_providers (open_db None) 0)
     (map Act sample_idle) sample_timed"
proof -
  let ?step = "timed_step provider_purge (\<lambda>e. []) default_retry sample_providers"
  define b where "b = first_boot sample_providers"
  have b: "poll ''f'' 0 b = b" "in_hand b = Map.empty" "crashed b = None" "providers b ''f'' \<noteq> None"
    by (simp_all add: b_def run_eval)
  have s0: "timed_start sample_providers (open_db None) 0 = \<lparr>tw_sys = b, tw_clock = 0, tw_wake = (\<lambda>c. 0), tw_started = 0\<rparr>"
    by (simp add: timed_start_def b_def)
  define s1 where "s1 = \<lparr>tw_sys = b, tw_clock = 0, tw_wake = (\<lambda>c. 0)(''f'' := 0.2), tw_started = 0\<rparr>"
  have e: "sample_end sample_idle = b\<lparr>store := fst (enqueue 0 ''f'' [''https://repo.x/a''] (store b))\<rparr>"
    by (simp add: sample_idle_def b_def [symmetric] b)
  have "?step (timed_start sample_providers (open_db None) 0) (Act (Poll ''f'' 0)) s1"
    unfolding s0 s1_def
    by (rule timed_actI) (simp_all add: b worker_idle_poll_seconds_def)
  moreover have "?step s1 (Act (Put ''f'' [''https://repo.x/a''] 0)) sample_timed"
    unfolding s1_def sample_timed_def e
    by (rule timed_actI) simp_all
  ultimately show ?thesis
    using timed_snoc [OF timed_snoc [OF timed_nil]] by (simp add: sample_idle_def)
qed

theorem claimed_promptly_witness:
  "\<exists>s'. timed_step provider_purge (\<lambda>e. []) default_retry sample_providers sample_timed (Wait 0.2) s' \<and>
    tw_clock s' = 0.2 \<and> tw_clock s' \<le> 0 + 0.2"
proof -
  have sel: "crashed (tw_sys sample_timed) = None" "providers (tw_sys sample_timed) = sample_providers"
    "in_hand (tw_sys sample_timed) = Map.empty" "tw_started sample_timed = 0"
    "row_of (store (tw_sys sample_timed)) 1 = Some \<lparr>row_id = 1, row_cdn = ''f'', urls_json = json_dumps [''https://repo.x/a''],
       attempts = 0, next_attempt_at = 0, created_at = 0, status = Pending, message = None\<rparr>"
    by (simp_all add: sample_timed_def sample_idle_def run_eval row_of_def Let_def)
  have "may_wait 0.2 sample_timed"
    by (auto simp: may_wait_def sel) (simp_all add: sample_timed_def sample_providers_def split: if_splits)
  then have w: "timed_step provider_purge (\<lambda>e. []) default_retry sample_providers sample_timed (Wait 0.2)
      (sample_timed\<lparr>tw_clock := tw_clock sample_timed + 0.2\<rparr>)" by (intro timed_wait) simp
  have p: "providers (tw_sys sample_timed) ''f'' \<noteq> None" by (simp add: sel(2) sample_providers_def)
  from claimed_promptly [OF wf_open sample_timed_run w _ sel(1) p sel(5)] w sel(3,4) show ?thesis
    by (intro exI [of _ "sample_timed\<lparr>tw_clock := tw_clock sample_timed + 0.2\<rparr>"]) (simp add: sample_timed_def)
qed

end
