(* ===== verification/Daemon_Latency.thy ===== *)
theory Daemon_Latency
  imports Change_Delivery Batcher_Latency Worker_Timing
begin

text \<open>
  The assembled daemon with one clock, between two starts and without failures: the debounce tasks, the
  queue and the workers are prompt, so that time passes only while every task of the batcher sleeps or
  waits for URLs and every worker sleeps or awaits its provider. How long it takes from a submitted
  URL to a purge of its CDN.
\<close>

section \<open>Prompt runs\<close>

record timed_daemon =
  td_state :: daemon_state
  td_wake :: "string \<Rightarrow> real"
  td_started :: real

abbreviation td_clock :: "timed_daemon \<Rightarrow> real" where
  "td_clock x \<equiv> clock (d_bat (td_state x))"

definition workers_of :: "timed_daemon \<Rightarrow> provider timed_workers" where
  "workers_of x = \<lparr>tw_sys = d_sys (td_state x), tw_clock = td_clock x, tw_wake = td_wake x, tw_started = td_started x\<rparr>"

fun prompt_label :: "timed_daemon \<Rightarrow> daemon_label \<Rightarrow> bool" where
  "prompt_label x (Work a) \<longleftrightarrow> stamped (td_clock x) a \<and> at_point (workers_of x) a \<and>
     (case a of Poll c now \<Rightarrow> True | Settle c w now \<Rightarrow> True | _ \<Rightarrow> False)"
| "prompt_label x (Batch l) \<longleftrightarrow> (case l of
     Tick dt \<Rightarrow> may_tick dt (d_bat (td_state x)) \<and> may_wait dt (workers_of x)
   | Finish w \<Rightarrow> w = td_clock x
   | _ \<Rightarrow> True)"
| "prompt_label x l \<longleftrightarrow> False"

inductive td_step ::
  "config \<Rightarrow> (exn \<Rightarrow> string) \<Rightarrow> set_order \<Rightarrow> (string \<Rightarrow> provider option) \<Rightarrow>
   timed_daemon \<Rightarrow> daemon_label \<Rightarrow> timed_daemon \<Rightarrow> bool" for cfg str ord built where
  td_stepI: "daemon_step cfg str ord built (td_state x) l s \<Longrightarrow> prompt_label x l \<Longrightarrow>
     td_step cfg str ord built x l
       \<lparr>td_state = s,
        td_wake = (case l of Work a \<Rightarrow> next_wake a (d_sys s) (td_clock x) (td_wake x) | _ \<Rightarrow> td_wake x),
        td_started = td_started x\<rparr>"

inductive td_run ::
  "config \<Rightarrow> (exn \<Rightarrow> string) \<Rightarrow> set_order \<Rightarrow> (string \<Rightarrow> provider option) \<Rightarrow>
   timed_daemon \<Rightarrow> daemon_label list \<Rightarrow> timed_daemon \<Rightarrow> bool" for cfg str ord built x0 where
  td_nil: "td_run cfg str ord built x0 [] x0"
| td_snoc: "td_run cfg str ord built x0 ls x \<Longrightarrow> td_step cfg str ord built x l x' \<Longrightarrow>
     td_run cfg str ord built x0 (ls @ [l]) x'"

definition td_start :: "(string \<Rightarrow> provider option) \<Rightarrow> db \<Rightarrow> real \<Rightarrow> timed_daemon" where
  "td_start built d t = \<lparr>td_state = ready_daemon built d [] t, td_wake = (\<lambda>c. t), td_started = t\<rparr>"

inductive_cases daemon_step_WorkE: "daemon_step cfg str ord built s (Work a) s'"
inductive_cases daemon_step_BatchE: "daemon_step cfg str ord built s (Batch l) s'"

section \<open>The invariant\<close>

lemma step_clock:
  "step cfg ord enq b l b' \<Longrightarrow> clock b' = (case l of Tick dt \<Rightarrow> clock b + dt | _ \<Rightarrow> clock b)"
  by (induction rule: step.induct)
     (simp_all add: submit_def Let_def wake_up_def assess_def loop_flush_def finish_flush_def batch_simps
       split: option.splits sum.splits holder.splits)

text \<open>For the workers, what the batcher writes is a \<open>Put\<close> at the time of the clock.\<close>

lemma workers_step:
  assumes "td_step cfg str ord built x l x'" "sink (d_bat (td_state x)) = store (d_sys (td_state x))"
  shows "workers_of x' = workers_of x \<or>
    (\<exists>k. timed_step provider_purge str (retry (daemon cfg)) built (workers_of x) k (workers_of x'))"
  using assms(1)
proof cases
  case (td_stepI s)
  show ?thesis
  proof (cases l)
    case (Work a)
    with td_stepI(2) obtain y where y: "y = sys_step provider_purge str (retry (daemon cfg)) built a (d_sys (td_state x))"
      "s = \<lparr>d_sys = y, d_bat = (d_bat (td_state x))\<lparr>sink := store y\<rparr>\<rparr>"
      by (auto elim: daemon_step_WorkE)
    have "timed_step provider_purge str (retry (daemon cfg)) built (workers_of x) (Act a) (workers_of x')"
      by (rule timed_actI)
         (use td_stepI(3) in \<open>auto simp: Work td_stepI(1) workers_of_def y split: action.splits\<close>)
    then show ?thesis by blast
  next
    case (Batch l')
    with td_stepI(2) obtain b where b: "step (daemon cfg) ord enqueue_sink_op (d_bat (td_state x)) l' b"
      "s = \<lparr>d_sys = (d_sys (td_state x))\<lparr>store := sink b\<rparr>, d_bat = b\<rparr>"
      by (auto elim: daemon_step_BatchE)
    have w: "workers_of x' = (workers_of x)\<lparr>tw_sys := (d_sys (td_state x))\<lparr>store := sink b\<rparr>, tw_clock := clock b\<rparr>"
      by (simp add: td_stepI(1) Batch workers_of_def b(2))
    have same: ?thesis if "sink b = sink (d_bat (td_state x))" "clock b = td_clock x"
      using that assms(2) by (simp add: w) (simp add: workers_of_def)
    show ?thesis
    proof (cases l')
      case (Submit t)
      then show ?thesis using b(1) step_clock [OF b(1)] by (intro same) (auto elim!: step_SubmitE simp: submit_sink)
    next
      case (Loop c)
      then show ?thesis using b(1) step_clock [OF b(1)] by (intro same) (auto simp: loop_sink)
    next
      case (Finish v)
      with b(1) have f: "b = finish_flush enqueue_sink_op v (d_bat (td_state x))" "clock b = td_clock x"
        using step_clock [OF b(1)] by (auto elim: step_FinishE)
      from finish_flush_sink [of v "d_bat (td_state x)"] show ?thesis
      proof
        assume "\<exists>c us. sink (finish_flush enqueue_sink_op v (d_bat (td_state x))) =
          fst (enqueue v c us (sink (d_bat (td_state x))))"
        then obtain c us where c: "sink b = fst (enqueue v c us (store (d_sys (td_state x))))"
          using assms(2) f(1) by auto
        have "timed_step provider_purge str (retry (daemon cfg)) built (workers_of x) (Act (Put c us v)) (workers_of x')"
          by (rule timed_actI)
             (use td_stepI(3) in \<open>simp_all add: Batch Finish w c f(2), simp_all add: workers_of_def\<close>)
        then show ?thesis by blast
      qed (use f same in simp)
    next
      case (Tick dt)
      with b(1) have t: "b = (d_bat (td_state x))\<lparr>clock := td_clock x + dt\<rparr>" "0 \<le> dt" by (auto elim: step_TickE)
      have "may_wait dt (workers_of x)" using td_stepI(3) by (simp add: Batch Tick)
      from timed_wait [OF t(2) this, of provider_purge str "retry (daemon cfg)" built] t(1) assms(2)
      have "timed_step provider_purge str (retry (daemon cfg)) built (workers_of x) (Wait dt) (workers_of x')"
        by (simp add: w) (simp add: workers_of_def)
      then show ?thesis by blast
    qed
  qed (use td_stepI(3) in simp_all)
qed

definition td_inv :: "config \<Rightarrow> (string \<Rightarrow> provider option) \<Rightarrow> timed_daemon \<Rightarrow> bool" where
  "td_inv cfg built x \<longleftrightarrow> daemon_inv cfg (td_state x) \<and> timed_inv (workers_of x) \<and>
     alive (d_bat (td_state x)) \<and> on_time (daemon cfg) (d_bat (td_state x)) \<and>
     dom (providers (d_sys (td_state x))) = dom built \<and> td_started x \<le> td_clock x"

lemma td_start_inv: "wf_db d \<Longrightarrow> td_inv cfg built (td_start built d t)"
  using ready_inv [of d cfg built "[]" t] timed_start_inv [of d built t] init_alive [where cfg = "daemon cfg" and q = "store (boot built d [])" and t = t]
  by (simp add: td_inv_def td_start_def workers_of_def timed_start_def ready_daemon_def Let_def boot_sel init_batcher_def)

lemma poll_settle_dom:
  "dom (providers (poll c now s)) = dom (providers s)" "dom (providers (settle purge str cfg c w now s)) = dom (providers s)"
  by (auto simp: poll_def settle_def split: option.splits prod.splits sum.splits)

lemma td_step_inv:
  assumes "iteration_order ord" "0 \<le> batch_quiet_window_seconds (daemon cfg)" "0 \<le> batch_max_age_seconds (daemon cfg)"
    and "td_step cfg str ord built x l x'" "td_inv cfg built x"
  shows "td_inv cfg built x'"
proof -
  from assms(4) obtain s' where s': "daemon_step cfg str ord built (td_state x) l s'" "prompt_label x l" "td_state x' = s'"
    "td_started x' = td_started x"
    by cases simp
  have d: "daemon_inv cfg (td_state x)" "alive (d_bat (td_state x))" "on_time (daemon cfg) (d_bat (td_state x))"
    "dom (providers (d_sys (td_state x))) = dom built" "td_started x \<le> td_clock x"
    using assms(5) by (simp_all add: td_inv_def)
  then have "batch_inv (daemon cfg) (d_bat (td_state x))" "sink (d_bat (td_state x)) = store (d_sys (td_state x))"
    by (simp_all add: daemon_inv_def)
  with workers_step [OF assms(4)] timed_step_inv assms(5) have "timed_inv (workers_of x')"
    by (auto simp: td_inv_def)
  moreover have "alive (d_bat s') \<and> on_time (daemon cfg) (d_bat s') \<and> dom (providers (d_sys s')) = dom built \<and>
      td_started x \<le> clock (d_bat s')"
    using s'(1)
  proof cases
    case (work_step a y)
    have "dom (providers y) = dom (providers (d_sys (td_state x)))"
      using s'(2) unfolding work_step(1,4) by (cases a) (simp_all add: poll_settle_dom)
    with d show ?thesis by (simp add: work_step(2) alive_def on_time_def batch_simps)
  next
    case (batch_step l' b)
    have inv: "batch_inv (daemon cfg) (d_bat (td_state x))" using d(1) by (simp add: daemon_inv_def)
    have "may_tick dt (d_bat (td_state x))" if "l' = Tick dt" for dt using that s'(2) by (simp add: batch_step(1))
    from step_on_time [OF batch_step(4) inv d(2,3) assms(2,3) this] step_alive [OF jq_reliable batch_step(4) inv d(2)]
      step_clock [OF batch_step(4)] d(4,5) show ?thesis
      using batch_step(4) by (cases l') (auto simp: batch_step(2) elim: step_TickE)
  qed (use s'(2) in simp_all)
  ultimately show ?thesis
    using daemon_step_inv [OF assms(1) s'(1) d(1)] by (simp add: td_inv_def s'(3,4))
qed

lemma td_run_inv:
  assumes "iteration_order ord" "0 \<le> batch_quiet_window_seconds (daemon cfg)" "0 \<le> batch_max_age_seconds (daemon cfg)"
    and "td_run cfg str ord built x0 ls x" "td_inv cfg built x0"
  shows "td_inv cfg built x"
  using assms(4) by induction (auto intro: assms(5) td_step_inv [OF assms(1-3)])

section \<open>A URL on its way\<close>

definition in_time :: "int \<Rightarrow> real \<Rightarrow> job_row \<Rightarrow> bool" where
  \<comment> \<open>a job created after the one with id \<open>n\<close>, whose first attempt is not due after \<open>t\<close>\<close>
  "in_time n t r \<longleftrightarrow> n < row_id r \<and> 0 \<le> attempts r \<and> (status r = Pending \<longrightarrow> attempts r = 0 \<longrightarrow> next_attempt_at r \<le> t)"

definition queued_in_time :: "int \<Rightarrow> real \<Rightarrow> db \<Rightarrow> (string \<times> string) set" where
  "queued_in_time n t d = \<Union> (row_pairs ` set (filter (in_time n t) (rows d)))"

lemma queued_in_time_enqueue:
  "n \<le> last_id q \<Longrightarrow> w \<le> t \<Longrightarrow>
     queued_in_time n t (fst (enqueue w c us q)) = queued_in_time n t q \<union> {c} \<times> set us"
  by (simp add: queued_in_time_def in_time_def enqueue_def Let_def row_pairs_def json_roundtrip Un_commute)

lemma queued_in_time_more: "queued_in_time n t q \<subseteq> queued_in_time n t (fst (enqueue w c us q))"
  by (auto simp: queued_in_time_def enqueue_def Let_def)

lemma queued_in_time_row:
  assumes "wf_db d"
  shows "p \<in> queued_in_time n t d \<longleftrightarrow> (\<exists>i r. row_of d i = Some r \<and> in_time n t r \<and> p \<in> row_pairs r)"
  by (auto simp: queued_in_time_def row_of_Some [OF assms])

lemma work_in_time:
  fixes s :: "'p system"
  assumes "sys_inv s" "y = poll c now s \<or> y = settle purge str cfg c w now s"
  shows "queued_in_time n t (store s) \<subseteq> queued_in_time n t (store y) \<and> last_id (store y) = last_id (store s)"
proof -
  define keeps_pairs where "keeps_pairs = (\<lambda>y :: 'p system. wf_db (store y) \<and> last_id (store y) = last_id (store s) \<and>
    (\<forall>i r. row_of (store s) i = Some r \<longrightarrow> in_time n t r \<longrightarrow>
      (\<exists>r'. row_of (store y) i = Some r' \<and> in_time n t r' \<and> row_pairs r' = row_pairs r)))"
  have same: "keeps_pairs z" if "store z = store s" for z
    using sys_invD(1) [OF assms(1)] that by (simp add: keeps_pairs_def)
  have "keeps_pairs y" using assms(2)
  proof
    assume y: "y = poll c now s"
    have "wf_db (store y)" using poll_inv [OF assms(1), of c now] sys_invD(1) by (auto simp: y)
    then show ?thesis
      by (cases rule: poll_cases [OF assms(1), of c now])
         (auto simp: y same keeps_pairs_def in_time_def row_pairs_def claim_update_def update_rows_sel)
  next
    assume y: "y = settle purge str cfg c w now s"
    show ?thesis
    proof (cases rule: settle_cases [OF assms(1), of purge str cfg c w now])
      case 3: (3 j p p' r d l x z)
      have "row_pairs z = row_pairs x" using 3(14) by (simp add: settled_row_def row_pairs_def)
      moreover have "in_time n t x \<Longrightarrow> in_time n t z"
        using 3(11,14) by (auto simp: settled_row_def in_time_def split: if_splits)
      ultimately show ?thesis using 3(6,7,8,13) by (auto simp: y 3(4) keeps_pairs_def)
    qed (simp_all add: y same)
  qed
  then show ?thesis
    by (auto simp: keeps_pairs_def queued_in_time_row sys_invD(1) [OF assms(1)]) metis
qed

lemmas poll_in_time = work_in_time [OF _ disjI1 [OF refl]] and settle_in_time = work_in_time [OF _ disjI2 [OF refl]]

definition on_track :: "int \<Rightarrow> real \<Rightarrow> real \<Rightarrow> string \<Rightarrow> string \<Rightarrow> db batcher \<Rightarrow> bool" where
  \<comment> \<open>in a job that is due by \<open>t\<close>, or in a buffer since \<open>t1\<close> or earlier and not yet late\<close>
  "on_track n t t1 c u b \<longleftrightarrow> n \<le> last_id (sink b) \<and> ((c, u) \<in> queued_in_time n t (sink b) \<or>
     clock b \<le> t \<and> tracked (queued_in_time n t) (\<lambda>f l. f \<le> t1) c u b)"

lemma on_track_sink:
  assumes "on_track n t t1 c u b" "queued_in_time n t (sink b) \<subseteq> queued_in_time n t q" "last_id (sink b) \<le> last_id q"
  shows "on_track n t t1 c u (b\<lparr>sink := q\<rparr>)"
  using assms by (auto simp: on_track_def tracked_def delivered_def pending_def batch_simps)

lemma finish_on_track:
  assumes "on_track n t t1 c u b" "step cfg ord enqueue_sink_op b (Finish (clock b)) b'"
  shows "on_track n t t1 c u b'"
proof -
  obtain h d us where l: "lock b = Some (h, d, us)" "b' = finish_flush enqueue_sink_op (clock b) b"
    using assms(2) by (auto elim: step_FinishE)
  have b': "buf b' = buf b" "first_added b' = first_added b" "last_added b' = last_added b" "clock b' = clock b"
    "sink b' = fst (enqueue (clock b) d us (sink b))" "pending b = {d} \<times> set us"
    by (simp_all add: l finish_flush_def enqueue_sink_op_def pending_def batch_simps)
  have n: "n \<le> last_id (sink b)" "n \<le> last_id (sink b')" using assms(1) b'(5) by (simp_all add: on_track_def enqueue_def Let_def)
  have more: "queued_in_time n t (sink b) \<subseteq> queued_in_time n t (sink b')"
    unfolding b'(5) by (rule queued_in_time_more)
  show ?thesis
  proof (cases "clock b \<le> t")
    case True
    from queued_in_time_enqueue [OF n(1) True, of d us]
    have "queued_in_time n t (sink b') = queued_in_time n t (sink b) \<union> pending b" by (simp only: b'(5,6))
    with assms(1) n(2) True show ?thesis
      by (auto simp: on_track_def tracked_def delivered_def b'(1-4))
  next
    case False
    with assms(1) n(2) more show ?thesis by (auto simp: on_track_def)
  qed
qed

lemma tick_on_track:
  assumes "on_track n (t1 + batch_max_age_seconds cfg) t1 c u b" "may_tick dt b" "on_time cfg (b\<lparr>clock := clock b + dt\<rparr>)"
  shows "on_track n (t1 + batch_max_age_seconds cfg) t1 c u (b\<lparr>clock := clock b + dt\<rparr>)"
proof (cases "(c, u) \<in> queued_in_time n (t1 + batch_max_age_seconds cfg) (sink b)")
  case True
  with assms(1) show ?thesis by (simp add: on_track_def)
next
  case False
  have "pending b = {}" using assms(2) by (simp add: may_tick_def pending_def)
  with False assms(1) obtain f l where f: "u \<in> buf b c" "first_added b c = Some f" "last_added b c = Some l" "f \<le> t1"
    by (auto simp: on_track_def tracked_def delivered_def)
  then have "clock b + dt \<le> due cfg f l"
    using assms(3) by (auto simp: on_time_def batch_simps dest: spec [of _ c])
  with f assms(1) show ?thesis
    by (auto simp: on_track_def tracked_def batch_simps due_def)
qed

lemma td_step_on_track:
  assumes "iteration_order ord" "0 \<le> batch_quiet_window_seconds (daemon cfg)" "0 \<le> batch_max_age_seconds (daemon cfg)"
    and "td_step cfg str ord built x l x'" "td_inv cfg built x"
    and "on_track n (t1 + batch_max_age_seconds (daemon cfg)) t1 c u (d_bat (td_state x))"
  shows "on_track n (t1 + batch_max_age_seconds (daemon cfg)) t1 c u (d_bat (td_state x'))"
proof -
  from assms(4) obtain s' where s': "daemon_step cfg str ord built (td_state x) l s'" "prompt_label x l" "td_state x' = s'"
    by cases simp
  have inv: "sys_inv (d_sys (td_state x))" "batch_inv (daemon cfg) (d_bat (td_state x))"
    "sink (d_bat (td_state x)) = store (d_sys (td_state x))"
    using assms(5) by (simp_all add: td_inv_def daemon_inv_def)
  have "on_time (daemon cfg) (d_bat (td_state x'))"
    using td_step_inv [OF assms(1-5)] by (simp add: td_inv_def)
  then have late: "on_time (daemon cfg) (d_bat s')" by (simp add: s'(3))
  have "on_track n (t1 + batch_max_age_seconds (daemon cfg)) t1 c u (d_bat s')"
    using s'(1)
  proof cases
    case (work_step a y)
    have "queued_in_time n (t1 + batch_max_age_seconds (daemon cfg)) (store (d_sys (td_state x))) \<subseteq>
        queued_in_time n (t1 + batch_max_age_seconds (daemon cfg)) (store y) \<and>
        last_id (store y) = last_id (store (d_sys (td_state x)))"
      using s'(2) unfolding work_step(1,4) by (cases a) (simp_all add: poll_in_time [OF inv(1)] settle_in_time [OF inv(1)])
    with on_track_sink [OF assms(6)] show ?thesis by (simp add: work_step(2) inv(3))
  next
    case (batch_step l' b)
    show ?thesis
    proof (cases l')
      case (Finish w)
      then show ?thesis using finish_on_track [OF assms(6)] batch_step s'(2) by simp
    next
      case (Tick dt)
      with batch_step s'(2) late have "may_tick dt (d_bat (td_state x))"
        "b = (d_bat (td_state x))\<lparr>clock := td_clock x + dt\<rparr>" "on_time (daemon cfg) b"
        by (auto elim: step_TickE)
      with tick_on_track [OF assms(6)] show ?thesis by (simp add: batch_step(2))
    next
      case (Submit g)
      have "tracked st P c u b" if "tracked st P c u (d_bat (td_state x))" "P = (\<lambda>f l. f \<le> t1)" for st P
        by (rule batch_env.quiet_tracked [OF quiet_env [OF assms(1)] batch_step(4) _ inv(2) _ that(1)])
           (simp_all add: Submit keeps_def that(2))
      moreover have "sink b = sink (d_bat (td_state x))" "clock b = td_clock x"
        using batch_step(4) step_clock [OF batch_step(4)] by (auto simp: Submit submit_sink elim!: step_SubmitE)
      ultimately show ?thesis using assms(6) by (auto simp: batch_step(2) on_track_def)
    next
      case (Loop d)
      have "tracked st P c u b" if "tracked st P c u (d_bat (td_state x))" "P = (\<lambda>f l. f \<le> t1)" for st P
        by (rule batch_env.quiet_tracked [OF quiet_env [OF assms(1)] batch_step(4) _ inv(2) _ that(1)])
           (simp_all add: Loop keeps_def that(2))
      moreover have "sink b = sink (d_bat (td_state x))" "clock b = td_clock x"
        using batch_step(4) step_clock [OF batch_step(4)] by (auto simp: Loop loop_sink)
      ultimately show ?thesis using assms(6) by (auto simp: batch_step(2) on_track_def)
    qed
  qed (use s'(2) in simp_all)
  then show ?thesis by (simp add: s'(3))
qed

lemma td_run_on_track:
  assumes "iteration_order ord" "0 \<le> batch_quiet_window_seconds (daemon cfg)" "0 \<le> batch_max_age_seconds (daemon cfg)"
    and "td_run cfg str ord built x ls x'" "td_inv cfg built x"
    and "on_track n (t1 + batch_max_age_seconds (daemon cfg)) t1 c u (d_bat (td_state x))"
  shows "on_track n (t1 + batch_max_age_seconds (daemon cfg)) t1 c u (d_bat (td_state x'))"
  using assms(4)
proof induction
  case (td_snoc ls x1 l x2)
  from td_step_on_track [OF assms(1-3) td_snoc.hyps(2) td_run_inv [OF assms(1-3) td_snoc.hyps(1) assms(5)] td_snoc.IH]
  show ?case .
qed (rule assms(6))

lemma submit_on_track:
  assumes "iteration_order ord" "step (daemon cfg) ord enqueue_sink_op b (Submit g) b'" "batch_inv (daemon cfg) b"
    and "0 \<le> batch_max_age_seconds (daemon cfg)"
  shows "on_track (last_id (sink b')) (clock b' + batch_max_age_seconds (daemon cfg)) (clock b') (cdn_name g) (url g) b'"
proof -
  from assms(2) have s: "b' = submit (daemon cfg) ord g b" "lock b = None" by (auto elim: step_SubmitE)
  have c: "clock b' = clock b" using step_clock [OF assms(2)] by simp
  have "tracked st (\<lambda>f l. f \<le> clock b') (cdn_name g) (url g) b'" for st
    unfolding s(1) by (rule batch_env.submit_starts [OF quiet_env [OF assms(1)] assms(3) s(2)]) (simp add: c [unfolded s(1)])
  with assms(4) show ?thesis by (simp add: on_track_def)
qed

lemma td_run_started: "td_run cfg str ord built x ls x' \<Longrightarrow> td_started x' = td_started x"
  by (induction rule: td_run.induct) (auto elim: td_step.cases)

section \<open>From a URL to a purge\<close>

text \<open>
  C3. From a submitted URL to the CDN: after a start of the daemon, as long as it runs without
  failures and its tasks are prompt, a URL that is submitted is, once the age cap and 0.2 more seconds
  have passed, in a job created since then that its CDN has been called for at least once (it is done, failed,
  in flight, or pending with an attempt counted), or a purge of that CDN is under way. It does not
  matter what else is submitted, what the providers answer, or what the queue held before.
\<close>

theorem purged_in_time:
  assumes "iteration_order ord" "0 \<le> batch_quiet_window_seconds (daemon cfg)" "0 \<le> batch_max_age_seconds (daemon cfg)"
    and "wf_db d" "built (cdn_name g) \<noteq> None"
    and "td_run cfg str ord built (td_start built d t) ls1 x1" "td_step cfg str ord built x1 (Batch (Submit g)) x2"
    and "td_run cfg str ord built x2 ls2 x3" "td_step cfg str ord built x3 (Batch (Tick dt)) x4" "0 < dt"
    and "td_clock x2 + batch_max_age_seconds (daemon cfg) + 0.2 < td_clock x4"
  shows "in_hand (d_sys (td_state x3)) (cdn_name g) \<noteq> None \<or>
    (\<exists>r \<in> set (rows (store (d_sys (td_state x3)))). last_id (store (d_sys (td_state x2))) < row_id r \<and>
      row_cdn r = cdn_name g \<and> (\<exists>us. json_loads (urls_json r) = Some us \<and> url g \<in> set us) \<and>
      (status r \<noteq> Pending \<or> 0 < attempts r))"
proof (cases "in_hand (d_sys (td_state x3)) (cdn_name g)")
  case None
  let ?n = "last_id (store (d_sys (td_state x2)))" and ?t = "td_clock x2 + batch_max_age_seconds (daemon cfg)"
  note step_inv = td_step_inv [OF assms(1-3)] and run_inv = td_run_inv [OF assms(1-3)]
  have i1: "td_inv cfg built x1" by (rule run_inv [OF assms(6) td_start_inv [OF assms(4)]])
  note i2 = step_inv [OF assms(7) i1]
  note i3 = run_inv [OF assms(8) i2]
  note i4 = step_inv [OF assms(9) i3]
  from assms(7) have "step (daemon cfg) ord enqueue_sink_op (d_bat (td_state x1)) (Submit g) (d_bat (td_state x2))"
    by (cases rule: td_step.cases) (auto elim: daemon_step_BatchE)
  from submit_on_track [OF assms(1) this] i1 i2 assms(3)
  have "on_track ?n ?t (td_clock x2) (cdn_name g) (url g) (d_bat (td_state x2))"
    by (simp add: td_inv_def daemon_inv_def)
  from td_run_on_track [OF assms(1-3,8) i2 this]
  have x3: "on_track ?n ?t (td_clock x2) (cdn_name g) (url g) (d_bat (td_state x3))" .
  from td_step_on_track [OF assms(1-3,9) i3 this]
  have x4: "on_track ?n ?t (td_clock x2) (cdn_name g) (url g) (d_bat (td_state x4))" .
  from assms(9) obtain tick: "prompt_label x3 (Batch (Tick dt))" "crashed (d_sys (td_state x3)) = None"
    "td_clock x4 = td_clock x3 + dt" "sink (d_bat (td_state x4)) = sink (d_bat (td_state x3))"
    by (cases rule: td_step.cases) (auto elim!: daemon_step_BatchE step_TickE)
  have "(cdn_name g, url g) \<in> queued_in_time ?n ?t (store (d_sys (td_state x3)))"
    using x4 assms(11) i3 tick(4) by (auto simp: on_track_def td_inv_def daemon_inv_def)
  moreover have wf: "wf_db (store (d_sys (td_state x3)))"
    using i3 by (simp add: td_inv_def daemon_inv_def sys_inv_def)
  ultimately obtain i r where r: "row_of (store (d_sys (td_state x3))) i = Some r" "in_time ?n ?t r"
    "(cdn_name g, url g) \<in> row_pairs r"
    by (auto simp: queued_in_time_row)
  have "status r \<noteq> Pending \<or> 0 < attempts r"
  proof (rule ccontr)
    assume fresh: "\<not> ?thesis"
    have p: "providers (d_sys (td_state x3)) (cdn_name g) \<noteq> None"
      using i3 assms(5) by (auto simp: td_inv_def dom_def)
    then have w: "worker_inv (workers_of x3) (cdn_name g)"
      using i3 None tick(2) by (simp add: td_inv_def timed_inv_def workers_of_def)
    have wake: "td_clock x4 \<le> td_wake x3 (cdn_name g)"
      using tick None p by (auto simp: may_wait_def workers_of_def)
    have "next_attempt_at r \<le> ?t" "row_cdn r = cdn_name g" "status r = Pending"
      using fresh r(2,3) by (auto simp: in_time_def row_pairs_iff)
    moreover have "td_started x3 \<le> ?t"
      using td_run_started [OF assms(8)] i2 assms(3) by (simp add: td_inv_def)
    ultimately have "td_wake x3 (cdn_name g) \<le> td_clock x3 \<or> td_wake x3 (cdn_name g) \<le> ?t + 0.2"
      using w r(1) by (fastforce simp: worker_inv_def workers_of_def due_from_def worker_idle_poll_seconds_def)
    with wake tick(3) assms(10,11) show False by linarith
  qed
  with r wf show ?thesis by (auto simp: row_of_Some in_time_def row_pairs_iff)
qed simp

section \<open>A run in time\<close>

definition brisk_config :: config where
  \<comment> \<open>batches that are flushed as soon as they have a URL\<close>
  "brisk_config = sample_config\<lparr>daemon := default_daemon\<lparr>batch_max_age_seconds := 0\<rparr>\<rparr>"

definition with_batcher :: "timed_daemon \<Rightarrow> db batcher \<Rightarrow> timed_daemon" where
  "with_batcher x b = x\<lparr>td_state := \<lparr>d_sys = (d_sys (td_state x))\<lparr>store := sink b\<rparr>, d_bat = b\<rparr>\<rparr>"

lemma td_fire:
  assumes "fire (daemon cfg) ord enqueue_sink_op l (d_bat (td_state x)) = Some b" "crashed (d_sys (td_state x)) = None"
    and "prompt_label x (Batch l)"
  shows "td_step cfg str ord built x (Batch l) (with_batcher x b)"
proof -
  from td_stepI [OF batch_step [OF assms(2) fire_step [OF assms(1)]] assms(3)]
  show ?thesis by (cases x) (simp add: with_batcher_def)
qed

lemma td_work:
  assumes "prompt_label x (Work a)" "y = sys_step provider_purge str (retry (daemon cfg)) built a (d_sys (td_state x))"
  shows "td_step cfg str ord built x (Work a)
    \<lparr>td_state = \<lparr>d_sys = y, d_bat = (d_bat (td_state x))\<lparr>sink := store y\<rparr>\<rparr>,
     td_wake = next_wake a y (td_clock x) (td_wake x), td_started = td_started x\<rparr>"
proof -
  have "of_worker a" using assms(1) by (cases a) simp_all
  from td_stepI [OF work_step [OF this assms(2)] assms(1)] show ?thesis by simp
qed

lemma td_fires:
  assumes "td_run cfg str ord built x0 ls0 x" "fire_all (daemon cfg) ord enqueue_sink_op ls (d_bat (td_state x)) = Some b"
    and "crashed (d_sys (td_state x)) = None" "sink (d_bat (td_state x)) = store (d_sys (td_state x))"
    and "list_all (\<lambda>l. case l of Finish w \<Rightarrow> w = td_clock x | Tick dt \<Rightarrow> False | _ \<Rightarrow> True) ls"
  shows "td_run cfg str ord built x0 (ls0 @ map Batch ls) (with_batcher x b)"
  using assms
proof (induction ls arbitrary: ls0 x)
  case Nil
  then have "with_batcher x b = x" by (simp add: with_batcher_def)
  with Nil show ?case by simp
next
  case (Cons l ls)
  then obtain b1 where b1: "fire (daemon cfg) ord enqueue_sink_op l (d_bat (td_state x)) = Some b1"
    "fire_all (daemon cfg) ord enqueue_sink_op ls b1 = Some b" by (auto simp: bind_eq_Some_conv)
  have p: "prompt_label x (Batch l)" "clock b1 = td_clock x"
    using Cons.prems(5) step_clock [OF fire_step [OF b1(1)]] by (cases l; simp)+
  have r: "td_run cfg str ord built x0 (ls0 @ [Batch l]) (with_batcher x b1)"
    by (rule td_snoc [OF Cons.prems(1) td_fire [OF b1(1) Cons.prems(3) p(1)]])
  have "with_batcher (with_batcher x b1) b = with_batcher x b" by (simp add: with_batcher_def)
  with Cons.IH [OF r] b1(2) Cons.prems(3,5) p(2) show ?case by (simp add: with_batcher_def)
qed

theorem purged_in_time_witness:
  "\<exists>x3. td_run brisk_config (\<lambda>e. []) sorted_list_of_set sample_providers
      (with_batcher (td_start sample_providers (open_db None) 0)
        (submit (daemon brisk_config) sorted_list_of_set sample_purge (d_bat sample_ready)))
      [Batch (Loop ''f''), Batch (Loop ''f''), Batch (Loop ''f''), Batch (Finish 0), Work (Poll ''f'' 0)] x3 \<and>
    (in_hand (d_sys (td_state x3)) ''f'' \<noteq> None \<or>
     (\<exists>r \<in> set (rows (store (d_sys (td_state x3)))). 0 < row_id r \<and> row_cdn r = ''f'' \<and>
       (\<exists>us. json_loads (urls_json r) = Some us \<and> url sample_purge \<in> set us) \<and>
       (status r \<noteq> Pending \<or> 0 < attempts r)))"
proof -
  let ?run = "td_run brisk_config (\<lambda>e. []) sorted_list_of_set sample_providers"
  let ?step = "td_step brisk_config (\<lambda>e. []) sorted_list_of_set sample_providers"
  let ?fire = "fire_all (daemon brisk_config) sorted_list_of_set enqueue_sink_op"
  define x1 where "x1 = td_start sample_providers (open_db None) 0"
  define b2 where "b2 = submit (daemon brisk_config) sorted_list_of_set sample_purge (d_bat sample_ready)"
  have x1: "d_bat (td_state x1) = d_bat sample_ready" "crashed (d_sys (td_state x1)) = None"
    "lock (d_bat sample_ready) = None" "raised (d_bat sample_ready) = None"
    by (simp_all add: x1_def td_start_def ready_daemon_def Let_def init_batcher_def boot_sel)
  have s: "?step x1 (Batch (Submit sample_purge)) (with_batcher x1 b2)"
    by (rule td_fire) (simp_all add: x1 b2_def)
  have b2: "sink b2 = store (d_sys (td_state x1))" "clock b2 = 0"
    by (simp_all add: b2_def submit_sink x1_def td_start_def ready_daemon_def Let_def init_batcher_def)
       (simp add: submit_def Let_def batch_simps)
  obtain b3 where b3: "?fire [Loop ''f'', Loop ''f'', Loop ''f'', Finish 0] b2 = Some b3"
    "lock b3 = None" "tasks b3 = [''f'' \<mapsto> WaitWake]" "wake b3 ''f'' = Some False" "clock b3 = 0"
    "sink b3 = fst (enqueue 0 ''f'' [url sample_purge] (sink (d_bat sample_ready)))"
    by (simp add: b2_def fire_simps brisk_config_def sample_purge_def enqueue_sink_op_def ready_daemon_def limit_def)
  let ?x2 = "with_batcher x1 b2" and ?x = "with_batcher (with_batcher x1 b2) b3"
  let ?a = "Poll ''f'' 0 :: provider_world action"
  have x2: "d_bat (td_state ?x2) = b2" "crashed (d_sys (td_state ?x2)) = None" "sink b2 = store (d_sys (td_state ?x2))"
    by (simp_all add: with_batcher_def x1(2))
  have r3: "?run ?x2 (map Batch [Loop ''f'', Loop ''f'', Loop ''f'', Finish 0]) ?x"
    using td_fires [OF td_nil, of brisk_config sorted_list_of_set "[Loop ''f'', Loop ''f'', Loop ''f'', Finish 0]" ?x2 b3]
      b3(1) b2(2) x2 by simp
  have sys: "d_sys (td_state ?x) = (d_sys (td_state x1))\<lparr>store := sink b3\<rparr>" "d_bat (td_state ?x) = b3"
    "td_wake ?x = (\<lambda>c. 0)"
    by (simp_all add: with_batcher_def x1_def td_start_def)
  obtain y where y: "y = sys_step provider_purge (\<lambda>e. []) (retry (daemon brisk_config)) sample_providers ?a (d_sys (td_state ?x))"
    "crashed y = None" "in_hand y ''f'' \<noteq> None" "providers y = sample_providers"
    unfolding sys b3(6)
    by (simp add: x1_def td_start_def ready_daemon_def Let_def init_batcher_def run_eval sample_purge_def)
  have a: "prompt_label ?x (Work ?a)"
    by (simp add: workers_of_def sys b3(5)) (simp add: x1_def td_start_def ready_daemon_def Let_def boot_sel sample_providers_def)
  define x3 where "x3 = \<lparr>td_state = \<lparr>d_sys = y, d_bat = (d_bat (td_state ?x))\<lparr>sink := store y\<rparr>\<rparr>,
    td_wake = next_wake ?a y (td_clock ?x) (td_wake ?x), td_started = td_started ?x\<rparr>"
  have x3: "?step ?x (Work ?a) x3" "d_sys (td_state x3) = y" "d_bat (td_state x3) = b3\<lparr>sink := store y\<rparr>"
    unfolding x3_def by (rule td_work [OF a y(1)]) (simp_all add: sys)
  have run: "?run ?x2 [Batch (Loop ''f''), Batch (Loop ''f''), Batch (Loop ''f''), Batch (Finish 0), Work ?a] x3"
    using td_snoc [OF r3 x3(1)] by simp
  have tick: "prompt_label x3 (Batch (Tick 1))"
    using y(2-4) by (auto simp: may_tick_def may_wait_def workers_of_def x3 b3(2-5) sample_providers_def split: if_splits)
  have f: "fire (daemon brisk_config) sorted_list_of_set enqueue_sink_op (Tick 1) (d_bat (td_state x3)) =
      Some ((d_bat (td_state x3))\<lparr>clock := 1\<rparr>)"
    by (simp add: x3(3) b3(5))
  have last: "?step x3 (Batch (Tick 1)) (with_batcher x3 ((d_bat (td_state x3))\<lparr>clock := 1\<rparr>))"
    by (rule td_fire [OF f _ tick]) (simp add: x3(2) y(2))
  have cfg: "0 \<le> batch_quiet_window_seconds (daemon brisk_config)" "batch_max_age_seconds (daemon brisk_config) = 0"
    by (simp_all add: brisk_config_def default_daemon_def)
  have late: "td_clock ?x2 + batch_max_age_seconds (daemon brisk_config) + 0.2 <
      td_clock (with_batcher x3 ((d_bat (td_state x3))\<lparr>clock := 1\<rparr>))"
    by (simp add: with_batcher_def b2(2) cfg(2))
  have id: "last_id (store (d_sys (td_state ?x2))) = 0"
    by (simp add: with_batcher_def b2(1)) (simp add: x1_def td_start_def ready_daemon_def Let_def boot_sel open_db_def)
  have c: "cdn_name sample_purge = ''f''" "sample_providers (cdn_name sample_purge) \<noteq> None"
    by (simp_all add: sample_purge_def sample_providers_def)
  from purged_in_time [OF sorted_order cfg(1) _ wf_open c(2) td_nil s [unfolded x1_def] run [unfolded x1_def] last _
      late [unfolded x1_def]] cfg(2) run id
  show ?thesis unfolding x1_def b2_def by (intro exI [of _ x3]) (simp add: c(1))
qed

end
