(* ===== verification/Spec2Isabelle.thy ===== *)
theory Spec2Isabelle
  imports Filter_Contract Fastly_Contract Fastly_Tasks Gcp_Burst Queue_Race Worker_Failure Cli Daemon_Latency
begin

text \<open>
  Verification library for Mirror Mirage, the inotify-driven CDN cache-flush daemon.

  The program. One asyncio process watches directory trees, and purges the public URL of every file
  that is written, replaced or (where asked) removed from the caches of the CDNs that serve it:

    kernel events \<rightarrow> \<open>watcher.py\<close> \<rightarrow> \<open>filter.py\<close> \<rightarrow> \<open>mapper.py\<close> \<rightarrow> \<open>batcher.py\<close> \<rightarrow> \<open>queue.py\<close> (SQLite)
      \<rightarrow> one worker per CDN (\<open>daemon.py\<close>) \<rightarrow> \<open>providers/*\<close> \<rightarrow> the API of the CDN

  \<open>config.py\<close> loads two YAML files, \<open>__main__.py\<close> is the command line.

  Theories and code.

  \<^item> \<open>Prelude\<close>: exceptions, results (\<open>exn + 'a\<close>), dictionaries as association lists in insertion order,
    string methods, \<open>repr\<close>. \<open>Posix_Path\<close>: the \<open>pathlib\<close> operations in use. \<open>Url_Parse\<close>: \<open>urlparse\<close>,
    \<open>urlunparse\<close> and \<open>hostname\<close> of Python 3.12; \<open>Web_Url\<close>: their effect on ordinary http(s) URLs.
    \<open>Fnmatch\<close>: \<open>fnmatch.fnmatchcase\<close>. \<open>Json_Text\<close>: \<open>json.dumps\<close> and \<open>json.loads\<close> on lists of strings.
  \<^item> \<open>Config_Model\<close>, \<open>Config_Load\<close>: the models and \<open>load\<close> of \<open>config.py\<close>, check by check, with the
    permission bits of the secrets file as a word.
  \<^item> \<open>Glob\<close>, \<open>Event_Filter\<close>, \<open>Filter_Contract\<close>: \<open>_gm\<close>, \<open>matches_any_glob\<close> and \<open>EventFilter\<close> against a
    reference: globs as an inductive language of component lists, the owner of a path as the deepest
    watch above it. \<open>Url_Mapper\<close>: \<open>Mapper\<close>, with the locale \<open>event_source\<close> for what it expects of the
    filter.
  \<^item> \<open>Watcher\<close>: \<open>InotifyWatcher\<close>: the pre-flight count, the start-up walk, the scan of a new directory,
    the generator; \<open>Watcher_Walk\<close>, \<open>Watcher_Scan\<close>, \<open>Watcher_Events\<close>, \<open>Watcher_Contract\<close>: what is
    watched after a start and after a new directory, the exactness of the count, the events it yields.
  \<^item> \<open>Sink\<close>, \<open>Batcher\<close>: the state of \<open>Batcher\<close>, its locked sections, and the interleaving of \<open>submit\<close>,
    the debounce tasks, the returns of \<open>enqueue\<close> and the clock as the step relation \<open>step\<close>; the queue
    it writes to is the locale \<open>enqueue_sink\<close>. \<open>Batcher_Invariant\<close> holds the invariant,
    \<open>Batcher_Contract\<close> and \<open>Batcher_Properties\<close> conservation of URLs and bounds, \<open>Batcher_Timing\<close> the
    measure by which tasks come to rest, \<open>Batcher_Latency\<close> the delivery deadline, \<open>Batcher_Failure\<close>
    shutdown in the middle of a flush, with \<open>enqueue\<close>s that raise, and an \<open>enqueue\<close> that raises in a task.
  \<^item> \<open>Job_Queue\<close>, \<open>Queue_Contract\<close>: the \<open>jobs\<close> table and the operations of \<open>PersistentQueue\<close> as
    updates of it, the exclusiveness of claims, the round trip, the recovery, the backoff. \<open>Queue_Race\<close>:
    \<open>claim_ready\<close> as the two statements it is, with other statements between them. \<open>Job_View\<close>: the locale
    of the (CDN, URL) pairs that jobs hold, interpreted on all jobs and on those created since a moment.
  \<^item> \<open>Provider\<close>: results, their classification and aggregation, the protocol \<open>CdnProvider\<close> as the locale
    \<open>cdn_provider\<close> (a result that is ok covers the batch), the dry run. \<open>Fastly\<close>, \<open>Limiter\<close> with \<open>Gcp\<close>,
    and \<open>Cloudfront\<close>: the three providers, each an interpretation of the locale; \<open>Fastly_Contract\<close> and
    \<open>Gcp_Contract\<close>: endpoints, expansion, quota, batches, with the tasks of a batch one after another.
    \<open>Provider_Table\<close>: \<open>build_providers\<close>, and the
    interpretation of the locale for a provider of any kind.
  \<^item> \<open>Semaphore\<close>: \<open>asyncio.Semaphore\<close> with its waiters and hand-over of permits. \<open>Task_Pool\<close>: the tasks that
    an \<open>asyncio.gather\<close> starts, one step per stretch between two \<open>await\<close>s, in any interleaving; the locale
    \<open>ending_tasks\<close> gives termination, \<open>determined_tasks\<close> that the gathered results do not depend on the
    interleaving. \<open>Fastly_Tasks\<close> and \<open>Gcp_Tasks\<close> interpret them on the tasks of the two providers that
    use a semaphore (in \<open>gcp.py\<close> with the limiter before it and the shared token under it), and show that
    every interleaving gives what the models of \<open>Fastly\<close> and \<open>Gcp\<close> give; \<open>Gcp_Burst\<close>: the requests of a
    window may exceed the quota, since tasks are admitted before they wait for a permit and the token.
  \<^item> \<open>Worker\<close>: \<open>_queue_worker\<close> as the actions \<open>poll\<close> and \<open>settle\<close>, and the system of all workers over
    one queue with new batches, restarts and failures of SQLite (\<open>sys_step\<close>); \<open>Worker_Lifecycle\<close>: its invariant and its
    simulation of the abstract life cycle of a job; \<open>Worker_Contract\<close>, \<open>Worker_Progress\<close>: one job in
    flight, bounded calls, done means accepted, the exact effect of a turn, drainage, the crash loop;
    \<open>Worker_Failure\<close>: what a failure to record a result leaves. \<open>Worker_Timing\<close>: the workers with a clock
    and the sleep of an idle one: a due job is claimed within 0.2 seconds, unless a purge is under way.
  \<^item> \<open>Daemon\<close>, \<open>Daemon_Contract\<close>: \<open>_pipeline\<close> and \<open>run\<close>: the batcher and the workers over the shared
    queue with shutdowns, kills, failing \<open>enqueue\<close>s and starts; the daemon refines the system of workers
    and the queue survives every kill. \<open>Change_Delivery\<close>: over every run, a change that the filter lets
    through is held by the batcher or by a job, accepted by its CDN, or in a job recorded as failed.
    \<open>Daemon_Latency\<close>: the daemon with one clock, and the time from a submitted URL to a purge of its CDN.
  \<^item> \<open>Cli_Args\<close>: \<open>_parse_args\<close>, with the algorithm of Python's argparse on the options of the program
    (abbreviations, clustered flags, values with and without an equals sign). \<open>Cli\<close>: \<open>main\<close>, \<open>_run\<close> and the
    signals it handles, \<open>configure\<close>, the kernel limit as the watcher reads it and the text of its error.

  How the composition is proved. The batcher knows the queue through \<open>enqueue_sink\<close>, the workers know
  the providers through \<open>cdn_provider\<close>, the mapper knows the filter through \<open>event_source\<close>, and what
  a change becomes is proved for any \<open>job_view\<close> of the queue; each locale is interpreted on the model of the code that provides it. The simulation of \<open>Daemon\<close> turns every
  write of the batcher, a shutdown included, into \<open>Put\<close> actions of the system of workers, whose runs
  simulate the life cycle.

  Bounds and fuel. No definition uses fuel. Recursions that are not structural (\<open>skip_stars\<close>, \<open>gm\<close>,
  \<open>class_chunks\<close>, \<open>translate\<close>, \<open>scan_string\<close>, \<open>scan_items\<close>, \<open>acquire\<close>) have termination proofs. The liveness statements name their schedules:
  \<open>delivered_in_time\<close>, \<open>claimed_promptly\<close> and \<open>purged_in_time\<close> let time pass only when no task can run
  (\<open>tasks_come_to_rest\<close> and \<open>time_goes_on\<close>: neither the batcher nor the workers stop it), \<open>queue_drains\<close> puts the longest backoff
  between turns. A run of a task pool is a finite list of steps; \<open>gcp_batch_ends\<close> bounds its length and
  shows that it can always be completed.

  Assumptions. A Python \<open>str\<close> is a list of characters below 256. Floats are real numbers, except that
  the overflow of the backoff's conversion is written out. The system clock and the clock of the event
  loop run alike, and the former is not set back. A section of a coroutine without an \<open>await\<close>
  is one step. The system of workers claims a job in one step, which \<open>claim_is_atomic\<close> justifies for one
  worker per CDN. A batch of a provider starts with all permits free, so a task that an earlier gather
  left running when another task raised is not part of it. The refresh of a GCP token takes effect in
  the step in which its task goes on. A statement of SQLite that raised takes effect at once or never
  (\<open>landed\<close>): the transaction it left open is committed by another coroutine or rolled back. In the
  last flush of a shutdown it never does, since the connection is closed after it. Other code appears as parameters: the kernel (\<open>add_watch\<close>), the
  file system (\<open>fsnode\<close>), the HTTP APIs, google-auth and boto3 (the worlds), yaml and pydantic
  (\<open>load_env\<close>), \<open>str\<close> of an exception, the order in which Python lists sets.

  Not modelled, and why. The text argparse prints. pydantic's coercions: third-party code, the parameter
  \<open>model_validate\<close>. Latencies in log lines and the closing of the SQLite connection and of the HTTP
  clients: no result depends on them. Packaging, tests and CI: no program logic.
\<close>

end
